(* ===== verification/Prelude.thy ===== *)
theory Prelude
  imports Main "HOL-Library.Char_ord" "HOL-Library.List_Lexorder" "HOL-Library.Word"
begin

text \<open>
  Shared vocabulary of the development.

  Rust's \<open>String\<close> and \<open>Bytes\<close> are both modelled as lists of Isabelle characters: a
  \<open>char\<close> is exactly one byte, so \<open>length\<close> is the byte length that \<open>str::len\<close> returns
  and the lexicographic order of \<open>HOL-Library.List_Lexorder\<close> is the byte order of
  \<open>str\<close>'s \<open>Ord\<close>. That a \<open>String\<close> is well-formed UTF-8 is the predicate
  \<open>valid_utf8\<close> of the theory \<open>Utf8\<close>.

  The theory holds the string functions of the standard library that the code calls
  (\<open>strip_prefix\<close>, \<open>starts_with\<close>, \<open>find\<close>, \<open>replace\<close>, \<open>lines\<close>,
  \<open>trim\<close>, \<open>trim_end_matches\<close>) and the error monad used for \<open>Result\<close>.
\<close>

type_synonym bytes = "char list"

abbreviation byte :: "char \<Rightarrow> nat" where
  "byte c \<equiv> of_char c"

subsection \<open>Results: \<open>Inl\<close> is \<open>Err\<close>, \<open>Inr\<close> is \<open>Ok\<close>\<close>

named_theorems result_simps

text \<open>The question mark operator: leave with the error, or go on with the value.\<close>

fun try_then :: "'e + 'a \<Rightarrow> ('a \<Rightarrow> 'e + 'b) \<Rightarrow> 'e + 'b" where
  "try_then (Inl e) f = Inl e"
| "try_then (Inr x) f = f x"

lemma try_then_Inr_iff [result_simps]:
  "try_then m f = Inr y \<longleftrightarrow> (\<exists>x. m = Inr x \<and> f x = Inr y)"
  by (cases m) auto

lemma try_then_Inl_iff [result_simps]:
  "try_then m f = Inl e \<longleftrightarrow> m = Inl e \<or> (\<exists>x. m = Inr x \<and> f x = Inl e)"
  by (cases m) auto

lemma try_then_assoc:
  "try_then (try_then m f) g = try_then m (\<lambda>x. try_then (f x) g)"
  by (cases m) auto

lemma try_then_Inr_right [simp]: "try_then m Inr = m"
  by (cases m) auto

lemma try_then_cong [fundef_cong]:
  "m = m' \<Longrightarrow> (\<And>x. m' = Inr x \<Longrightarrow> f x = g x) \<Longrightarrow> try_then m f = try_then m' g"
  by (cases m') auto

text \<open>A fallible fold: the loop \<open>for x in xs { s = f(s, x)?; }\<close>.\<close>

fun try_fold :: "('s \<Rightarrow> 'a \<Rightarrow> 'e + 's) \<Rightarrow> 's \<Rightarrow> 'a list \<Rightarrow> 'e + 's" where
  "try_fold f s [] = Inr s"
| "try_fold f s (x # xs) = try_then (f s x) (\<lambda>s'. try_fold f s' xs)"

lemma try_fold_append:
  "try_fold f s (xs @ ys) = try_then (try_fold f s xs) (\<lambda>s'. try_fold f s' ys)"
  by (induction xs arbitrary: s) (simp_all add: try_then_assoc)

lemma try_fold_invariant:
  assumes "try_fold f s xs = Inr s'" and "P s"
    and "\<And>t t' x. P t \<Longrightarrow> x \<in> set xs \<Longrightarrow> f t x = Inr t' \<Longrightarrow> P t'"
  shows "P s'"
  using assms
proof (induction xs arbitrary: s)
  case Nil
  then show ?case by simp
next
  case (Cons x xs)
  from Cons.prems(1) obtain t where t: "f s x = Inr t" "try_fold f t xs = Inr s'"
    by (auto simp: result_simps)
  have "P t" by (rule Cons.prems(3)[OF Cons.prems(2) _ t(1)]) simp
  then show ?case
    by (rule Cons.IH[OF t(2)]) (rule Cons.prems(3), auto)
qed

subsection \<open>String functions of the standard library\<close>

text \<open>\<open>str::strip_prefix\<close>.\<close>

fun strip_prefix :: "bytes \<Rightarrow> bytes \<Rightarrow> bytes option" where
  "strip_prefix [] s = Some s"
| "strip_prefix (p # ps) [] = None"
| "strip_prefix (p # ps) (c # cs) = (if p = c then strip_prefix ps cs else None)"

lemma strip_prefix_Some_iff: "strip_prefix p s = Some r \<longleftrightarrow> s = p @ r"
  by (induction p s rule: strip_prefix.induct) auto

lemma strip_prefix_append [simp]: "strip_prefix p (p @ r) = Some r"
  by (simp add: strip_prefix_Some_iff)

lemma strip_prefix_None_iff: "strip_prefix p s = None \<longleftrightarrow> (\<nexists>r. s = p @ r)"
  using strip_prefix_Some_iff by (metis not_Some_eq option.distinct(1))

lemma strip_prefix_take:
  "strip_prefix p s = (if take (length p) s = p then Some (drop (length p) s) else None)"
  by (induction p s rule: strip_prefix.induct) auto

definition starts_with :: "bytes \<Rightarrow> bytes \<Rightarrow> bool" where
  "starts_with s p \<longleftrightarrow> strip_prefix p s \<noteq> None"

lemma starts_with_iff: "starts_with s p \<longleftrightarrow> (\<exists>r. s = p @ r)"
  by (auto simp: starts_with_def strip_prefix_Some_iff)

text \<open>\<open>str::find\<close> with a string pattern: the byte index of the first match.\<close>

fun find_sub :: "bytes \<Rightarrow> bytes \<Rightarrow> nat option" where
  "find_sub p [] = (if p = [] then Some 0 else None)"
| "find_sub p (c # cs) =
     (if starts_with (c # cs) p then Some 0 else map_option Suc (find_sub p cs))"

lemma find_sub_Some:
  "find_sub p s = Some i \<Longrightarrow> i + length p \<le> length s \<and> take (length p) (drop i s) = p"
proof (induction p s arbitrary: i rule: find_sub.induct)
  case (1 p)
  then show ?case by (simp split: if_splits)
next
  case (2 p c cs)
  show ?case
  proof (cases "starts_with (c # cs) p")
    case True
    then obtain r where r: "c # cs = p @ r" by (auto simp: starts_with_iff)
    from True "2.prems" have "i = 0" by simp
    moreover from r have "length p \<le> length (c # cs)" by (metis length_append le_add1)
    moreover from r have "take (length p) (c # cs) = p" by simp
    ultimately show ?thesis by simp
  next
    case False
    with "2.prems" obtain j where "find_sub p cs = Some j" "i = Suc j" by auto
    with "2.IH" False show ?thesis by simp
  qed
qed

lemma find_sub_split:
  assumes "find_sub p s = Some i"
  shows "s = take i s @ p @ drop (i + length p) s"
proof -
  have "drop i s = p @ drop (length p) (drop i s)"
    using find_sub_Some[OF assms] by (metis append_take_drop_id)
  then show ?thesis by (metis add.commute append_take_drop_id drop_drop)
qed

lemma find_sub_first:
  "find_sub p s = Some i \<Longrightarrow> j < i \<Longrightarrow> \<not> starts_with (drop j s) p"
proof (induction p s arbitrary: i j rule: find_sub.induct)
  case (1 p)
  then show ?case by (simp split: if_splits)
next
  case (2 p c cs)
  show ?case
  proof (cases "starts_with (c # cs) p")
    case True
    with "2.prems" show ?thesis by simp
  next
    case False
    with "2.prems"(1) obtain i' where i': "find_sub p cs = Some i'" "i = Suc i'" by auto
    show ?thesis
    proof (cases j)
      case 0
      with False show ?thesis by simp
    next
      case (Suc j')
      with "2.IH"[OF False i'(1)] i' "2.prems"(2) show ?thesis by simp
    qed
  qed
qed

lemma find_sub_None_iff: "find_sub p s = None \<longleftrightarrow> (\<forall>j \<le> length s. \<not> starts_with (drop j s) p)"
proof (induction p s rule: find_sub.induct)
  case (1 p)
  then show ?case by (cases p) (auto simp: starts_with_def)
next
  case (2 p c cs)
  show ?case
  proof (cases "starts_with (c # cs) p")
    case True
    then show ?thesis by (auto intro!: exI[of _ 0])
  next
    case False
    have "(\<forall>j \<le> length (c # cs). \<not> starts_with (drop j (c # cs)) p)
      \<longleftrightarrow> (\<forall>j \<le> length cs. \<not> starts_with (drop j cs) p)" (is "?L \<longleftrightarrow> ?R")
    proof
      assume ?L
      then show ?R by (metis Suc_le_mono drop_Suc_Cons length_Cons)
    next
      assume r: ?R
      show ?L
      proof (intro allI impI)
        fix j
        assume "j \<le> length (c # cs)"
        then show "\<not> starts_with (drop j (c # cs)) p"
          using r False by (cases j) auto
      qed
    qed
    with 2 False show ?thesis by simp
  qed
qed

text \<open>\<open>s.replace("\textbackslash r\textbackslash n", "\textbackslash n")\<close>, left to right.\<close>

abbreviation CR :: char where "CR \<equiv> CHR 0x0D"
abbreviation LF :: char where "LF \<equiv> CHR 0x0A"

fun replace_crlf :: "bytes \<Rightarrow> bytes" where
  "replace_crlf [] = []"
| "replace_crlf [c] = [c]"
| "replace_crlf (c # d # s) =
     (if c = CR \<and> d = LF then LF # replace_crlf s else c # replace_crlf (d # s))"

text \<open>\<open>str::lines\<close>: pieces ended by a line feed or by the end of the text, each without
  its line feed and without one carriage return before it; the empty piece after a final line
  feed is not a line. A last piece that no line feed ends keeps its carriage return.\<close>

definition drop_cr :: "bytes \<Rightarrow> bytes" where
  "drop_cr l = (if l \<noteq> [] \<and> last l = CR then butlast l else l)"

fun lines_from :: "bytes \<Rightarrow> bytes \<Rightarrow> bytes list" where
  "lines_from cur [] = (if cur = [] then [] else [cur])"
| "lines_from cur (c # s) =
     (if c = LF then drop_cr cur # lines_from [] s else lines_from (cur @ [c]) s)"

definition str_lines :: "bytes \<Rightarrow> bytes list" where
  "str_lines s = lines_from [] s"

lemma lines_from_no_lf: "LF \<notin> set l \<Longrightarrow> lines_from cur (l @ LF # s) = drop_cr (cur @ l) # str_lines s"
  by (induction l arbitrary: cur) (auto simp: str_lines_def)

lemma str_lines_Cons [simp]:
  "LF \<notin> set l \<Longrightarrow> str_lines (l @ LF # s) = drop_cr l # str_lines s"
  using lines_from_no_lf[of l "[]" s] by (simp add: str_lines_def)

lemma str_lines_Nil [simp]: "str_lines [] = []"
  by (simp add: str_lines_def)

text \<open>\<open>str::trim_end_matches\<close> with a one-byte pattern.\<close>

definition trim_end_char :: "char \<Rightarrow> bytes \<Rightarrow> bytes" where
  "trim_end_char c s = rev (dropWhile (\<lambda>x. x = c) (rev s))"

text \<open>\<open>str::trim\<close> removes the code points with the Unicode property \<open>White_Space\<close>;
  these are their UTF-8 encodings.\<close>

definition white_space :: "bytes list" where
  "white_space =
     [[CHR 0x09], [CHR 0x0A], [CHR 0x0B], [CHR 0x0C], [CHR 0x0D], [CHR 0x20],
      [CHR 0xC2, CHR 0x85], [CHR 0xC2, CHR 0xA0], [CHR 0xE1, CHR 0x9A, CHR 0x80],
      [CHR 0xE2, CHR 0x80, CHR 0x80], [CHR 0xE2, CHR 0x80, CHR 0x81],
      [CHR 0xE2, CHR 0x80, CHR 0x82], [CHR 0xE2, CHR 0x80, CHR 0x83],
      [CHR 0xE2, CHR 0x80, CHR 0x84], [CHR 0xE2, CHR 0x80, CHR 0x85],
      [CHR 0xE2, CHR 0x80, CHR 0x86], [CHR 0xE2, CHR 0x80, CHR 0x87],
      [CHR 0xE2, CHR 0x80, CHR 0x88], [CHR 0xE2, CHR 0x80, CHR 0x89],
      [CHR 0xE2, CHR 0x80, CHR 0x8A], [CHR 0xE2, CHR 0x80, CHR 0xA8],
      [CHR 0xE2, CHR 0x80, CHR 0xA9], [CHR 0xE2, CHR 0x80, CHR 0xAF],
      [CHR 0xE2, CHR 0x81, CHR 0x9F], [CHR 0xE3, CHR 0x80, CHR 0x80]]"

fun strip_one :: "bytes list \<Rightarrow> bytes \<Rightarrow> bytes option" where
  "strip_one [] s = None"
| "strip_one (w # ws) s =
     (case (if w = [] then None else strip_prefix w s) of Some r \<Rightarrow> Some r | None \<Rightarrow> strip_one ws s)"

lemma strip_one_shorter: "strip_one ws s = Some r \<Longrightarrow> length r < length s"
  by (induction ws s rule: strip_one.induct)
     (auto simp: strip_prefix_Some_iff split: option.splits if_splits)

function trim_start_of :: "bytes list \<Rightarrow> bytes \<Rightarrow> bytes" where
  "trim_start_of ws s = (case strip_one ws s of None \<Rightarrow> s | Some r \<Rightarrow> trim_start_of ws r)"
  by pat_completeness auto
termination
  by (relation "measure (\<lambda>(ws, s). length s)") (auto dest: strip_one_shorter)

declare trim_start_of.simps [simp del]

definition str_trim :: "bytes \<Rightarrow> bytes" where
  "str_trim s =
     rev (trim_start_of (map rev white_space) (rev (trim_start_of white_space s)))"

text \<open>Collecting an iterator of results stops at the first error.\<close>

fun try_map :: "('a \<Rightarrow> 'e + 'b) \<Rightarrow> 'a list \<Rightarrow> 'e + 'b list" where
  "try_map f [] = Inr []"
| "try_map f (x # xs) = try_then (f x) (\<lambda>y. try_then (try_map f xs) (\<lambda>ys. Inr (y # ys)))"

lemma try_map_Inr: "(\<And>x. x \<in> set xs \<Longrightarrow> f x = Inr (g x)) \<Longrightarrow> try_map f xs = Inr (map g xs)"
  by (induction xs) auto

lemma try_map_Inr_length: "try_map f xs = Inr ys \<Longrightarrow> length ys = length xs"
  by (induction xs arbitrary: ys) (auto simp: result_simps)

text \<open>\<open>to_string\<close> of an unsigned integer.\<close>

fun decimal :: "nat \<Rightarrow> string" where
  "decimal n = (if n < 10 then [char_of (48 + n)] else decimal (n div 10) @ [char_of (48 + n mod 10)])"

declare decimal.simps [simp del]

end
