(* ===== verification/Exchange.thy ===== *)
theory Exchange
  imports Prelude
begin

text \<open>
  \<open>crates/lcp-core/src/types.rs\<close>: the recorded request and response and the two shapes of a
  row of the cache. \<open>u64\<close> and \<open>u16\<close> fields are words. The three \<open>i64\<close> fields are
  integers: they hold what SQLite's 64-bit \<open>INTEGER\<close> columns hold.
\<close>

type_synonym u16 = "16 word"
type_synonym u64 = "64 word"

record response_chunk =
  offset_ms :: u64
  data :: string

record request_record =
  req_method :: string
  req_path :: string
  req_body :: string

record exchange =
  request :: request_record
  status :: u16
  content_type :: string
  chunks :: "response_chunk list"

record cache_entry =
  ce_key :: string
  ce_created_at :: string
  ce_provider :: string
  ce_model :: "string option"
  ce_status :: u16
  ce_hit_count :: int
  ce_req_bytes :: int
  ce_resp_bytes :: int

record full_entry =
  fe_key :: string
  fe_created_at :: string
  fe_provider :: string
  fe_model :: "string option"
  fe_status :: u16
  fe_content_type :: string
  fe_hit_count :: int
  fe_req_bytes :: int
  fe_resp_bytes :: int
  fe_request :: request_record
  fe_chunks :: "response_chunk list"

text \<open>The text a stored response consists of.\<close>

definition chunks_text :: "response_chunk list \<Rightarrow> string" where
  "chunks_text cs = concat (map data cs)"

end
