(* ===== verification/OrdMap.thy ===== *)
theory OrdMap
  imports Prelude
begin

text \<open>
  Rust's \<open>BTreeMap\<close>: an association list kept strictly sorted by key. The code uses
  it twice: \<open>serde_json::Map\<close> (built without the feature \<open>preserve_order\<close>, see
  \<open>Cargo.lock\<close>) is a \<open>BTreeMap<String, Value>\<close>, and the restore stream keeps its
  accumulation buffers in a \<open>BTreeMap<FieldKey, String>\<close>. Iteration is in key order, which
  is the order of the list. The interface the clients rely on is the locale \<open>tree_map\<close>.
\<close>

fun om_insert :: "'k::linorder \<Rightarrow> 'v \<Rightarrow> ('k \<times> 'v) list \<Rightarrow> ('k \<times> 'v) list" where
  "om_insert k v [] = [(k, v)]"
| "om_insert k v ((k', v') # m) =
     (if k < k' then (k, v) # (k', v') # m
      else if k = k' then (k, v) # m
      else (k', v') # om_insert k v m)"

definition om_remove :: "'k \<Rightarrow> ('k \<times> 'v) list \<Rightarrow> ('k \<times> 'v) list" where
  "om_remove k m = filter (\<lambda>p. fst p \<noteq> k) m"

definition om_from :: "('k::linorder \<times> 'v) list \<Rightarrow> ('k \<times> 'v) list" where
  "om_from ps = foldl (\<lambda>m (k, v). om_insert k v m) [] ps"

definition om_sorted :: "('k::linorder \<times> 'v) list \<Rightarrow> bool" where
  "om_sorted m \<longleftrightarrow> sorted_wrt (<) (map fst m)"

lemma om_sorted_Nil [simp]: "om_sorted []"
  by (simp add: om_sorted_def)

lemma om_sorted_Cons: "om_sorted ((k, v) # m) \<longleftrightarrow> (\<forall>k' \<in> fst ` set m. k < k') \<and> om_sorted m"
  by (auto simp: om_sorted_def)

lemma om_sorted_distinct: "om_sorted m \<Longrightarrow> distinct (map fst m)"
  by (simp add: om_sorted_def strict_sorted_iff)

lemma fst_set_om_insert: "fst ` set (om_insert k v m) = insert k (fst ` set m)"
  by (induction k v m rule: om_insert.induct) auto

lemma map_of_om_insert [simp]: "map_of (om_insert k v m) = (map_of m)(k \<mapsto> v)"
  by (induction k v m rule: om_insert.induct) (auto simp: fun_eq_iff)

lemma om_sorted_insert: "om_sorted m \<Longrightarrow> om_sorted (om_insert k v m)"
  by (induction k v m rule: om_insert.induct)
     (auto simp: om_sorted_Cons fst_set_om_insert simp del: image_insert)

lemma map_of_om_remove [simp]: "map_of (om_remove k m) = (map_of m)(k := None)"
  by (induction m) (auto simp: om_remove_def fun_eq_iff)

lemma om_sorted_remove: "om_sorted m \<Longrightarrow> om_sorted (om_remove k m)"
proof (induction m)
  case (Cons p m)
  then show ?case by (cases p) (auto simp: om_remove_def om_sorted_Cons)
qed (simp add: om_remove_def)

lemma om_remove_set: "set (om_remove k m) \<subseteq> set m"
  by (auto simp: om_remove_def)

text \<open>A strictly sorted list is determined by the finite map it stands for.\<close>

lemma om_sorted_keys_eq:
  assumes "om_sorted m" "om_sorted m'" and "fst ` set m = fst ` set m'"
  shows "map fst m = map fst m'"
  using assms strict_sorted_equal[of "map fst m" "map fst m'"] by (simp add: om_sorted_def)

lemma om_map_of_inject:
  assumes "om_sorted m" "om_sorted m'" and "map_of m = map_of m'"
  shows "m = m'"
proof -
  have keys: "map fst m = map fst m'"
    using assms by (metis dom_map_of_conv_image_fst om_sorted_keys_eq)
  have snds: "map snd l = map (the \<circ> map_of l) (map fst l)" if "om_sorted l" for l :: "('a \<times> 'b) list"
    using that by (auto simp: om_sorted_distinct)
  have "map snd m = map snd m'"
    using snds[OF assms(1)] snds[OF assms(2)] keys assms(3) by metis
  with keys show ?thesis by (metis zip_map_fst_snd)
qed

lemma om_from_foldl_sorted: "om_sorted m \<Longrightarrow> om_sorted (foldl (\<lambda>m (k, v). om_insert k v m) m ps)"
proof (induction ps arbitrary: m)
  case (Cons p ps)
  then show ?case by (cases p) (simp add: om_sorted_insert)
qed simp

lemma om_from_sorted [simp]: "om_sorted (om_from ps)"
  by (simp add: om_from_def om_from_foldl_sorted)

lemma map_of_foldl_insert:
  "map_of (foldl (\<lambda>m (k, v). om_insert k v m) m ps) = map_of m ++ map_of (rev ps)"
proof (induction ps arbitrary: m)
  case (Cons p ps)
  then show ?case by (cases p) (simp add: map_add_upd_left fun_eq_iff map_add_def split: option.split)
qed simp

lemma map_of_om_from: "map_of (om_from ps) = map_of (rev ps)"
  by (simp add: om_from_def map_of_foldl_insert)

lemma map_of_rev_distinct: "distinct (map fst ps) \<Longrightarrow> map_of (rev ps) = map_of ps"
  by (rule map_of_eqI) (auto simp: rev_map[symmetric] distinct_rev map_of_is_SomeI intro: map_of_is_SomeI)

lemma om_from_id: "om_sorted m \<Longrightarrow> om_from m = m"
  by (rule om_map_of_inject) (simp_all add: map_of_om_from map_of_rev_distinct om_sorted_distinct)

text \<open>Replacing the value at a key that is present leaves the keys as they are.\<close>

lemma map_fst_om_insert_old:
  "om_sorted m \<Longrightarrow> map_of m k = Some w \<Longrightarrow> map fst (om_insert k v m) = map fst m"
proof (induction k v m rule: om_insert.induct)
  case (2 k v k' v' m)
  then show ?case
    by (auto simp: om_sorted_Cons split: if_splits dest!: map_of_SomeD)
qed simp

subsection \<open>The interface\<close>

locale tree_map =
  fixes get :: "'m \<Rightarrow> 'k \<Rightarrow> 'v option"
    and ins :: "'k \<Rightarrow> 'v \<Rightarrow> 'm \<Rightarrow> 'm"
    and del :: "'k \<Rightarrow> 'm \<Rightarrow> 'm"
    and inv :: "'m \<Rightarrow> bool"
  assumes get_ins: "inv m \<Longrightarrow> get (ins k v m) k' = (if k' = k then Some v else get m k')"
    and get_del: "inv m \<Longrightarrow> get (del k m) k' = (if k' = k then None else get m k')"
    and inv_ins: "inv m \<Longrightarrow> inv (ins k v m)"
    and inv_del: "inv m \<Longrightarrow> inv (del k m)"
    and ext: "inv m \<Longrightarrow> inv m' \<Longrightarrow> (\<And>k. get m k = get m' k) \<Longrightarrow> m = m'"
begin

text \<open>Removal forgets an insertion at its key, and insertions at two keys commute.\<close>

lemma del_ins: "inv m \<Longrightarrow> del k (ins k v m) = del k m"
  by (rule ext) (auto simp: get_ins get_del inv_ins inv_del)

lemma ins_twice: "inv m \<Longrightarrow> ins k w (ins k v m) = ins k w m"
  by (rule ext) (auto simp: get_ins inv_ins)

lemma ins_commute: "inv m \<Longrightarrow> k \<noteq> l \<Longrightarrow> ins k v (ins l w m) = ins l w (ins k v m)"
  by (rule ext) (auto simp: get_ins inv_ins)

lemma del_commute: "inv m \<Longrightarrow> del k (del l m) = del l (del k m)"
  by (rule ext) (auto simp: get_del inv_del)

lemma del_absent: "inv m \<Longrightarrow> get m k = None \<Longrightarrow> del k m = m"
  by (rule ext) (auto simp: get_del inv_del)

end

interpretation om: tree_map map_of om_insert om_remove "om_sorted :: ('k::linorder \<times> 'v) list \<Rightarrow> bool"
  by unfold_locales (auto simp: om_sorted_insert om_sorted_remove fun_eq_iff intro: om_map_of_inject)

end
