(* ===== verification/Cache.thy ===== *)
theory Cache
  imports Exchange OrdMap
begin

text \<open>
  \<open>crates/lcp-core/src/cache.rs\<close>: the exchange cache over SQLite. The state is the content of
  the three tables of \<open>init_schema\<close>; each SQL statement of the source is one function on it, and
  each method of \<open>Cache\<close> runs its statements in the source's order.

  A statement can fail. The methods therefore take \<open>fault\<close>, which says of the \<open>n\<close>-th
  statement of the call (from 0) whether SQLite reports an error for it; a failed statement changes
  nothing. What the statements of a transaction did is undone when the transaction is dropped before
  it is committed. The mutex serialises the calls, so a call is one step of the state.

  Not part of the repository, and parameters in the record \<open>cache_lib\<close>: the clock, the two
  directions of the RFC 3339 timestamps (in nanoseconds), and the JSON form of an exchange.
\<close>

record cache_lib =
  utc_now :: int
  to_rfc3339 :: "int \<Rightarrow> string"
  parse_from_rfc3339 :: "string \<Rightarrow> int option"
  print_exchange :: "exchange \<Rightarrow> string option"
  parse_exchange :: "string \<Rightarrow> exchange option"

datatype cache_error =
    OpenError
  | SqlError nat
  | DeserializeError string
  | SerializeError
  | OutOfRange int

subsection \<open>The tables and the statements\<close>

record row =
  r_key :: string
  r_created_at :: string
  r_status :: int
  r_content_type :: string
  r_exchange_json :: string
  r_provider :: string
  r_model :: "string option"
  r_req_bytes :: int
  r_resp_bytes :: int
  r_hit_count :: int

record db =
  entries :: "row list"
  trace_entries :: "(string \<times> string) list"
  stats_rows :: "(string \<times> int) list"

text \<open>What a database file holds: each of the three tables, when it exists. \<open>init_schema\<close> creates
  the missing ones (\<open>CREATE TABLE IF NOT EXISTS\<close>).\<close>

type_synonym db_file = "row list option \<times> (string \<times> string) list option \<times> (string \<times> int) list option"

definition init_schema :: "db_file \<Rightarrow> db" where
  "init_schema file =
     (case file of (es, ts, ss) \<Rightarrow>
       \<lparr>entries = (case es of Some rs \<Rightarrow> rs | None \<Rightarrow> []),
        trace_entries = (case ts of Some rs \<Rightarrow> rs | None \<Rightarrow> []),
        stats_rows = (case ss of Some rs \<Rightarrow> rs | None \<Rightarrow> [])\<rparr>)"

abbreviation new_file :: db_file where
  "new_file \<equiv> (None, None, None)"

definition file_of :: "db \<Rightarrow> db_file" where
  "file_of d = (Some (entries d), Some (trace_entries d), Some (stats_rows d))"

record cache =
  inner :: db
  ttl_seconds :: u64

definition cache_open :: "(nat \<Rightarrow> bool) \<Rightarrow> db_file \<Rightarrow> u64 \<Rightarrow> cache_error + cache" where
  "cache_open fault file ttl =
     (if fault 0 then Inl OpenError
      else if fault 1 then Inl (SqlError 1)
      else Inr \<lparr>inner = init_schema file, ttl_seconds = ttl\<rparr>)"

text \<open>\<open>SELECT ... FROM entries WHERE key = ?1\<close>: the key is the primary key.\<close>

definition select_entry :: "string \<Rightarrow> db \<Rightarrow> row option" where
  "select_entry key d = find (\<lambda>r. r_key r = key) (entries d)"

text \<open>\<open>UPDATE entries SET hit_count = hit_count + 1 WHERE key = ?1\<close>.\<close>

definition update_hit_count :: "string \<Rightarrow> db \<Rightarrow> db" where
  "update_hit_count key d =
     d\<lparr>entries := map (\<lambda>r. if r_key r = key then r\<lparr>r_hit_count := r_hit_count r + 1\<rparr> else r) (entries d)\<rparr>"

text \<open>\<open>INSERT INTO stats(k, v) VALUES(k, n) ON CONFLICT(k) DO UPDATE SET v = v + n\<close>.\<close>

definition upsert_stat :: "string \<Rightarrow> int \<Rightarrow> db \<Rightarrow> db" where
  "upsert_stat k n d =
     d\<lparr>stats_rows :=
         (if k \<in> fst ` set (stats_rows d)
          then map (\<lambda>(k', v). if k' = k then (k', v + n) else (k', v)) (stats_rows d)
          else stats_rows d @ [(k, n)])\<rparr>"

text \<open>\<open>INSERT OR REPLACE INTO entries ...\<close>: a row with the key is deleted first.\<close>

definition insert_or_replace :: "row \<Rightarrow> db \<Rightarrow> db" where
  "insert_or_replace r d = d\<lparr>entries := filter (\<lambda>r'. r_key r' \<noteq> r_key r) (entries d) @ [r]\<rparr>"

definition insert_or_ignore_trace :: "string \<Rightarrow> string \<Rightarrow> db \<Rightarrow> db" where
  "insert_or_ignore_trace trace_id key d =
     (if (trace_id, key) \<in> set (trace_entries d) then d
      else d\<lparr>trace_entries := trace_entries d @ [(trace_id, key)]\<rparr>)"

text \<open>The join of the trace queries. Rows with equal timestamps keep the order of the table, which
  SQL leaves open; no property speaks of their order.\<close>

definition select_trace :: "string \<Rightarrow> db \<Rightarrow> row list" where
  "select_trace trace_id d =
     sort_key r_created_at (filter (\<lambda>r. (trace_id, r_key r) \<in> set (trace_entries d)) (entries d))"

text \<open>\<open>SELECT model, COUNT(*) FROM entries GROUP BY model\<close>, the group of the NULLs first.\<close>

definition group_by_model :: "db \<Rightarrow> (string option \<times> int) list" where
  "group_by_model d =
     (let models = map r_model (entries d);
          groups = (if None \<in> set models then [None] else []) @ filter (\<lambda>m. m \<noteq> None) (remdups models)
      in map (\<lambda>m. (m, int (count_list models m))) groups)"

subsection \<open>Reading columns\<close>

text \<open>\<open>row.get::<_, u16>\<close> fails when the integer does not fit.\<close>

definition get_u16 :: "int \<Rightarrow> cache_error + u16" where
  "get_u16 n = (if 0 \<le> n \<and> n < 65536 then Inr (word_of_int n) else Inl (OutOfRange n))"

definition row_to_entry :: "row \<Rightarrow> cache_error + cache_entry" where
  "row_to_entry r =
     try_then (get_u16 (r_status r)) (\<lambda>st.
       Inr \<lparr>ce_key = r_key r, ce_created_at = r_created_at r, ce_provider = r_provider r,
            ce_model = r_model r, ce_status = st, ce_hit_count = r_hit_count r,
            ce_req_bytes = r_req_bytes r, ce_resp_bytes = r_resp_bytes r\<rparr>)"

definition row_to_full :: "cache_lib \<Rightarrow> string \<Rightarrow> row \<times> u16 \<Rightarrow> cache_error + full_entry" where
  "row_to_full L context rs =
     (case rs of (r, st) \<Rightarrow>
       (case parse_exchange L (r_exchange_json r) of
          None \<Rightarrow> Inl (DeserializeError context)
        | Some e \<Rightarrow>
            Inr \<lparr>fe_key = r_key r, fe_created_at = r_created_at r, fe_provider = r_provider r,
                 fe_model = r_model r, fe_status = st, fe_content_type = r_content_type r,
                 fe_hit_count = r_hit_count r, fe_req_bytes = r_req_bytes r,
                 fe_resp_bytes = r_resp_bytes r, fe_request = request e, fe_chunks = chunks e\<rparr>))"

text \<open>Seconds elapsed since a timestamp: 0 for an unreadable one and for one in the future.\<close>

definition age_seconds :: "cache_lib \<Rightarrow> string \<Rightarrow> u64" where
  "age_seconds L created_at =
     (case parse_from_rfc3339 L created_at of
        None \<Rightarrow> 0
      | Some t \<Rightarrow> word_of_int (max 0 ((utc_now L - t) div 1000000000)))"

definition iso_now :: "cache_lib \<Rightarrow> string" where
  "iso_now L = to_rfc3339 L (utc_now L)"

subsection \<open>The methods\<close>

definition expired :: "cache_lib \<Rightarrow> cache \<Rightarrow> row \<Rightarrow> bool" where
  "expired L c r \<longleftrightarrow> ttl_seconds c > 0 \<and> age_seconds L (r_created_at r) > ttl_seconds c"

definition count_miss :: "(nat \<Rightarrow> bool) \<Rightarrow> cache \<Rightarrow> (cache_error + exchange option) \<times> cache" where
  "count_miss fault c =
     (if fault 1 then (Inl (SqlError 1), c)
      else (Inr None, c\<lparr>inner := upsert_stat ''misses'' 1 (inner c)\<rparr>))"

text \<open>The transaction of a hit: begin, three statements, commit. An error in any of the five leaves
  the tables as they were.\<close>

definition count_hit :: "(nat \<Rightarrow> bool) \<Rightarrow> string \<Rightarrow> int \<Rightarrow> db \<Rightarrow> cache_error + db" where
  "count_hit fault key resp_bytes d =
     (if fault 1 then Inl (SqlError 1)
      else if fault 2 then Inl (SqlError 2)
      else if fault 3 then Inl (SqlError 3)
      else if fault 4 then Inl (SqlError 4)
      else if fault 5 then Inl (SqlError 5)
      else Inr (upsert_stat ''bytes_served_from_cache'' resp_bytes
                 (upsert_stat ''hits'' 1 (update_hit_count key d))))"

definition cache_get ::
  "cache_lib \<Rightarrow> (nat \<Rightarrow> bool) \<Rightarrow> cache \<Rightarrow> string \<Rightarrow> (cache_error + exchange option) \<times> cache" where
  "cache_get L fault c key =
     (if fault 0 then (Inl (SqlError 0), c)
      else case select_entry key (inner c) of
        None \<Rightarrow> count_miss fault c
      | Some r \<Rightarrow>
          if expired L c r then count_miss fault c
          else (case count_hit fault key (r_resp_bytes r) (inner c) of
                  Inl e \<Rightarrow> (Inl e, c)
                | Inr d \<Rightarrow>
                    ((case parse_exchange L (r_exchange_json r) of
                        None \<Rightarrow> Inl (DeserializeError ''deserializing cached exchange'')
                      | Some e \<Rightarrow> Inr (Some e)), c\<lparr>inner := d\<rparr>)))"

definition cache_put ::
  "cache_lib \<Rightarrow> (nat \<Rightarrow> bool) \<Rightarrow> cache \<Rightarrow> string \<Rightarrow> string \<Rightarrow> string option \<Rightarrow> exchange
   \<Rightarrow> (cache_error + unit) \<times> cache" where
  "cache_put L fault c key provider model e =
     (case print_exchange L e of
        None \<Rightarrow> (Inl SerializeError, c)
      | Some exchange_json \<Rightarrow>
          if fault 0 then (Inl (SqlError 0), c)
          else (Inr (), c\<lparr>inner := insert_or_replace
                 \<lparr>r_key = key, r_created_at = iso_now L, r_status = uint (status e),
                  r_content_type = content_type e, r_exchange_json = exchange_json,
                  r_provider = provider, r_model = model,
                  r_req_bytes = int (length (req_body (request e))),
                  r_resp_bytes = int (sum_list (map (\<lambda>ch. length (data ch)) (chunks e))),
                  r_hit_count = 0\<rparr> (inner c)\<rparr>))"

definition record_trace ::
  "(nat \<Rightarrow> bool) \<Rightarrow> cache \<Rightarrow> string \<Rightarrow> string \<Rightarrow> (cache_error + unit) \<times> cache" where
  "record_trace fault c trace_id key =
     (if fault 0 then (Inl (SqlError 0), c)
      else (Inr (), c\<lparr>inner := insert_or_ignore_trace trace_id key (inner c)\<rparr>))"

definition get_trace :: "(nat \<Rightarrow> bool) \<Rightarrow> cache \<Rightarrow> string \<Rightarrow> cache_error + cache_entry list" where
  "get_trace fault c trace_id =
     (if fault 0 then Inl (SqlError 0)
      else try_map row_to_entry (select_trace trace_id (inner c)))"

record cache_stats =
  hits :: int
  misses :: int
  bytes_served_from_cache :: int
  entry_count :: int
  by_model :: "string \<Rightarrow> int option"

definition stat_value :: "string \<Rightarrow> db \<Rightarrow> int" where
  "stat_value k d = (case map_of (rev (stats_rows d)) k of Some v \<Rightarrow> v | None \<Rightarrow> 0)"

definition cache_stats_of :: "(nat \<Rightarrow> bool) \<Rightarrow> cache \<Rightarrow> cache_error + cache_stats" where
  "cache_stats_of fault c =
     (if fault 0 then Inl (SqlError 0)
      else if fault 1 then Inl (SqlError 1)
      else if fault 2 then Inl (SqlError 2)
      else Inr \<lparr>hits = stat_value ''hits'' (inner c),
                misses = stat_value ''misses'' (inner c),
                bytes_served_from_cache = stat_value ''bytes_served_from_cache'' (inner c),
                entry_count = int (length (entries (inner c))),
                by_model = map_of (rev (map (\<lambda>(m, n). (case m of Some s \<Rightarrow> s | None \<Rightarrow> ''unknown'', n))
                                  (group_by_model (inner c))))\<rparr>)"

text \<open>The two deletions are not one transaction: when the second fails the first has been done.\<close>

definition clear_entries :: "(nat \<Rightarrow> bool) \<Rightarrow> cache \<Rightarrow> (cache_error + int) \<times> cache" where
  "clear_entries fault c =
     (if fault 0 then (Inl (SqlError 0), c)
      else let n = int (length (entries (inner c))) in
        if fault 1 then (Inl (SqlError 1), c)
        else let d = (inner c)\<lparr>trace_entries := []\<rparr> in
          if fault 2 then (Inl (SqlError 2), c\<lparr>inner := d\<rparr>)
          else (Inr n, c\<lparr>inner := d\<lparr>entries := []\<rparr>\<rparr>))"

definition clear_stats :: "(nat \<Rightarrow> bool) \<Rightarrow> cache \<Rightarrow> (cache_error + unit) \<times> cache" where
  "clear_stats fault c =
     (if fault 0 then (Inl (SqlError 0), c)
      else (Inr (), c\<lparr>inner := (inner c)\<lparr>stats_rows := []\<rparr>\<rparr>))"

definition list_entries :: "(nat \<Rightarrow> bool) \<Rightarrow> cache \<Rightarrow> cache_error + cache_entry list" where
  "list_entries fault c =
     (if fault 0 then Inl (SqlError 0)
      else try_map row_to_entry (rev (sort_key r_created_at (entries (inner c)))))"

definition inspect :: "cache_lib \<Rightarrow> (nat \<Rightarrow> bool) \<Rightarrow> cache \<Rightarrow> string \<Rightarrow> cache_error + full_entry option" where
  "inspect L fault c key =
     (if fault 0 then Inl (SqlError 0)
      else case select_entry key (inner c) of
        None \<Rightarrow> Inr None
      | Some r \<Rightarrow>
          try_then (get_u16 (r_status r)) (\<lambda>st.
            try_then (row_to_full L ''deserializing inspect exchange'' (r\<lparr>r_key := key\<rparr>, st))
              (\<lambda>fe. Inr (Some fe))))"

definition inspect_trace ::
  "cache_lib \<Rightarrow> (nat \<Rightarrow> bool) \<Rightarrow> cache \<Rightarrow> string \<Rightarrow> cache_error + full_entry list" where
  "inspect_trace L fault c trace_id =
     (if fault 0 then Inl (SqlError 0)
      else try_then
        (try_map (\<lambda>r. try_then (get_u16 (r_status r)) (\<lambda>st. Inr (r, st))) (select_trace trace_id (inner c)))
        (try_map (row_to_full L ''deserializing inspect_trace exchange'')))"

subsection \<open>Facts about the statements\<close>

named_theorems stmt_defs

lemmas stmt_sel [stmt_defs] = update_hit_count_def upsert_stat_def insert_or_replace_def
  insert_or_ignore_trace_def

abbreviation keys :: "db \<Rightarrow> string list" where
  "keys d \<equiv> map r_key (entries d)"

lemma find_key_iff:
  "distinct (map f xs) \<Longrightarrow> find (\<lambda>x. f x = k) xs = Some x \<longleftrightarrow> x \<in> set xs \<and> f x = k"
  by (induction xs) auto

lemma select_entry_Some_iff:
  "distinct (keys d) \<Longrightarrow> select_entry key d = Some r \<longleftrightarrow> r \<in> set (entries d) \<and> r_key r = key"
  by (simp add: select_entry_def find_key_iff)

lemma select_entry_None_iff: "select_entry key d = None \<longleftrightarrow> key \<notin> set (keys d)"
  by (auto simp: select_entry_def find_None_iff)

lemma select_entry_key: "select_entry key d = Some r \<Longrightarrow> r_key r = key"
  by (auto simp: select_entry_def find_Some_iff)

lemma select_entry_in: "select_entry key d = Some r \<Longrightarrow> r \<in> set (entries d)"
  by (auto simp: select_entry_def find_Some_iff)

lemma find_append: "find P (xs @ ys) = (case find P xs of Some x \<Rightarrow> Some x | None \<Rightarrow> find P ys)"
  by (induction xs) auto

lemma find_map_same: "(\<And>x. P (f x) = P x) \<Longrightarrow> find P (map f xs) = map_option f (find P xs)"
  by (induction xs) auto

lemma select_entry_insert_or_replace:
  "select_entry key (insert_or_replace r d) = (if r_key r = key then Some r else select_entry key d)"
proof -
  have f: "find (\<lambda>x. r_key x = key) (filter (\<lambda>x. r_key x \<noteq> r_key r) xs) =
      (if r_key r = key then None else find (\<lambda>x. r_key x = key) xs)" for xs
    by (induction xs) auto
  show ?thesis
    unfolding select_entry_def insert_or_replace_def
    by (cases "find (\<lambda>x. r_key x = key) (entries d)") (simp_all add: find_append f)
qed

lemma select_entry_update_hit_count:
  "select_entry key (update_hit_count key' d) =
     map_option (\<lambda>r. if key = key' then r\<lparr>r_hit_count := r_hit_count r + 1\<rparr> else r) (select_entry key d)"
proof (cases "select_entry key d")
  case None
  then show ?thesis
    by (simp add: select_entry_def update_hit_count_def find_map_same)
next
  case (Some r)
  with select_entry_key[OF Some] show ?thesis
    by (simp add: select_entry_def update_hit_count_def find_map_same)
qed

lemma select_entry_upsert_stat [simp]: "select_entry key (upsert_stat k n d) = select_entry key d"
  by (simp add: select_entry_def upsert_stat_def)

lemma keys_update_hit_count [simp]: "keys (update_hit_count key d) = keys d"
  by (simp add: update_hit_count_def comp_def if_distrib)

lemma distinct_keys_insert_or_replace:
  "distinct (keys d) \<Longrightarrow> distinct (keys (insert_or_replace r d))"
  by (auto simp: insert_or_replace_def distinct_map_filter)

lemma entries_upsert_stat [simp]: "entries (upsert_stat k n d) = entries d"
  by (simp add: upsert_stat_def)

lemma traces_upsert_stat [simp]: "trace_entries (upsert_stat k n d) = trace_entries d"
  by (simp add: upsert_stat_def)

lemma update_hit_count_frame [simp]:
  "trace_entries (update_hit_count key d) = trace_entries d"
  "stats_rows (update_hit_count key d) = stats_rows d"
  by (simp_all add: update_hit_count_def)

lemma insert_or_replace_frame [simp]:
  "trace_entries (insert_or_replace r d) = trace_entries d"
  "stats_rows (insert_or_replace r d) = stats_rows d"
  by (simp_all add: insert_or_replace_def)

lemma insert_trace_frame [simp]:
  "entries (insert_or_ignore_trace t k d) = entries d"
  "stats_rows (insert_or_ignore_trace t k d) = stats_rows d"
  by (simp_all add: insert_or_ignore_trace_def)

lemma fst_upsert: "map fst (map (\<lambda>(k', v). if k' = k then (k', v + n) else (k', v)) ps) = map fst ps"
  by (induction ps) auto

lemma distinct_stats_upsert:
  "distinct (map fst (stats_rows d)) \<Longrightarrow> distinct (map fst (stats_rows (upsert_stat k n d)))"
  by (auto simp: upsert_stat_def fst_upsert simp del: map_map)

lemma map_of_add_at:
  "map_of (map (\<lambda>(k', v). if k' = k then (k', v + n) else (k', v)) ps) k'' =
     (if k'' = k then map_option (\<lambda>v. v + n) (map_of ps k'') else map_of ps k'')"
  by (induction ps) auto

lemma stat_value_upsert:
  assumes "distinct (map fst (stats_rows d))"
  shows "stat_value k' (upsert_stat k n d) = stat_value k' d + (if k' = k then n else 0)"
proof (cases "k \<in> fst ` set (stats_rows d)")
  case True
  then have "\<exists>v. map_of (stats_rows d) k = Some v"
    by (metis domIff dom_map_of_conv_image_fst not_None_eq)
  with True assms distinct_stats_upsert[OF assms, of k n] show ?thesis
    by (auto simp: stat_value_def map_of_rev_distinct upsert_stat_def map_of_add_at split: option.split)
next
  case False
  then have "map_of (stats_rows d) k = None" by (simp add: map_of_eq_None_iff)
  with False assms distinct_stats_upsert[OF assms, of k n] show ?thesis
    by (auto simp: stat_value_def map_of_rev_distinct upsert_stat_def map_add_def split: option.split)
qed

lemma stat_value_frame:
  "stats_rows d = stats_rows d' \<Longrightarrow> stat_value k d = stat_value k d'"
  by (simp add: stat_value_def)

subsection \<open>The invariant of the tables\<close>

text \<open>What serde's derived implementations give: reading what was written.\<close>

definition serde_ok :: "cache_lib \<Rightarrow> bool" where
  "serde_ok L \<longleftrightarrow> (\<forall>e s. print_exchange L e = Some s \<longrightarrow> parse_exchange L s = Some e)"

text \<open>A row agrees with the exchange it stores.\<close>

definition row_holds :: "cache_lib \<Rightarrow> row \<Rightarrow> exchange \<Rightarrow> bool" where
  "row_holds L r e \<longleftrightarrow> parse_exchange L (r_exchange_json r) = Some e
     \<and> r_status r = uint (status e) \<and> r_content_type r = content_type e
     \<and> r_req_bytes r = int (length (req_body (request e)))
     \<and> r_resp_bytes r = int (length (chunks_text (chunks e)))"

definition db_wf :: "cache_lib \<Rightarrow> db \<Rightarrow> bool" where
  "db_wf L d \<longleftrightarrow> distinct (keys d) \<and> distinct (trace_entries d) \<and> distinct (map fst (stats_rows d))
     \<and> (\<forall>(k, v) \<in> set (stats_rows d). 0 \<le> v)
     \<and> (\<forall>r \<in> set (entries d). 0 \<le> r_hit_count r \<and> (\<exists>e. row_holds L r e))"

lemma db_wf_init [simp]: "db_wf L (init_schema new_file)"
  by (simp add: db_wf_def init_schema_def)

lemma db_wf_dest:
  assumes "db_wf L d"
  shows "distinct (keys d)" "distinct (trace_entries d)" "distinct (map fst (stats_rows d))"
  using assms by (simp_all add: db_wf_def)

lemma db_wf_row: "db_wf L d \<Longrightarrow> select_entry key d = Some r \<Longrightarrow> \<exists>e. row_holds L r e"
  by (auto simp: db_wf_def dest: select_entry_in)

lemma db_wf_upsert_stat: "db_wf L d \<Longrightarrow> 0 \<le> n \<Longrightarrow> db_wf L (upsert_stat k n d)"
  using distinct_stats_upsert[of d k n]
  by (auto simp: db_wf_def) (auto simp: upsert_stat_def split: if_splits prod.splits)

lemma db_wf_update_hit_count: "db_wf L d \<Longrightarrow> db_wf L (update_hit_count key d)"
  by (auto simp: db_wf_def row_holds_def) (auto simp: update_hit_count_def)

lemma db_wf_insert_or_replace:
  "db_wf L d \<Longrightarrow> row_holds L r e \<Longrightarrow> 0 \<le> r_hit_count r \<Longrightarrow> db_wf L (insert_or_replace r d)"
  using distinct_keys_insert_or_replace[of d r]
  by (auto simp: db_wf_def) (auto simp: insert_or_replace_def)

lemma db_wf_insert_trace: "db_wf L d \<Longrightarrow> db_wf L (insert_or_ignore_trace t k d)"
  by (auto simp: db_wf_def) (auto simp: insert_or_ignore_trace_def)

lemma db_wf_clear:
  "db_wf L d \<Longrightarrow> db_wf L (d\<lparr>trace_entries := []\<rparr>)"
  "db_wf L d \<Longrightarrow> db_wf L (d\<lparr>entries := []\<rparr>)"
  "db_wf L d \<Longrightarrow> db_wf L (d\<lparr>stats_rows := []\<rparr>)"
  by (auto simp: db_wf_def)

lemma db_wf_clock [simp]: "db_wf (L\<lparr>utc_now := t\<rparr>) d = db_wf L d"
  by (simp add: db_wf_def row_holds_def)

lemma serde_ok_clock [simp]: "serde_ok (L\<lparr>utc_now := t\<rparr>) = serde_ok L"
  by (simp add: serde_ok_def)

lemma length_chunks_text: "length (chunks_text cs) = sum_list (map (\<lambda>ch. length (data ch)) cs)"
  by (simp add: chunks_text_def length_concat comp_def)

subsection \<open>Each method keeps the invariant\<close>

lemma resp_bytes_nonneg: "db_wf L d \<Longrightarrow> select_entry key d = Some r \<Longrightarrow> 0 \<le> r_resp_bytes r"
  by (drule (1) db_wf_row) (auto simp: row_holds_def)

lemma count_hit_wf:
  "count_hit fault key n d = Inr d' \<Longrightarrow> db_wf L d \<Longrightarrow> 0 \<le> n \<Longrightarrow> db_wf L d'"
  by (auto simp: count_hit_def split: if_splits intro!: db_wf_upsert_stat db_wf_update_hit_count)

lemma cache_get_wf: "db_wf L (inner c) \<Longrightarrow> db_wf L (inner (snd (cache_get L fault c key)))"
  by (auto simp: cache_get_def count_miss_def intro: db_wf_upsert_stat count_hit_wf resp_bytes_nonneg
        split: option.split sum.split)

lemma cache_put_wf:
  assumes "serde_ok L" and "db_wf L (inner c)"
  shows "db_wf L (inner (snd (cache_put L fault c key provider model e)))"
proof (cases "print_exchange L e")
  case None
  then show ?thesis using assms by (simp add: cache_put_def)
next
  case (Some s)
  then have "parse_exchange L s = Some e" using assms(1) by (simp add: serde_ok_def)
  with Some assms(2) show ?thesis
    by (auto simp: cache_put_def row_holds_def length_chunks_text intro!: db_wf_insert_or_replace[of _ _ _ e])
qed

lemma record_trace_wf: "db_wf L (inner c) \<Longrightarrow> db_wf L (inner (snd (record_trace fault c t key)))"
  by (auto simp: record_trace_def db_wf_insert_trace)

lemma clear_entries_wf: "db_wf L (inner c) \<Longrightarrow> db_wf L (inner (snd (clear_entries fault c)))"
  by (auto simp: clear_entries_def Let_def intro!: db_wf_clear)

lemma clear_stats_wf: "db_wf L (inner c) \<Longrightarrow> db_wf L (inner (snd (clear_stats fault c)))"
  by (auto simp: clear_stats_def intro!: db_wf_clear)

lemmas method_wf = cache_get_wf cache_put_wf record_trace_wf clear_entries_wf clear_stats_wf

subsection \<open>Sequences of calls\<close>

text \<open>The calls that change state, each with the clock and the faults it meets.\<close>

datatype cache_op =
    OpGet string
  | OpPut string string "string option" exchange
  | OpTrace string string
  | OpClearEntries
  | OpClearStats

fun cache_step :: "cache_lib \<Rightarrow> cache \<Rightarrow> int \<times> (nat \<Rightarrow> bool) \<times> cache_op \<Rightarrow> cache" where
  "cache_step L c (t, fault, OpGet key) = snd (cache_get (L\<lparr>utc_now := t\<rparr>) fault c key)"
| "cache_step L c (t, fault, OpPut key provider model e) =
     snd (cache_put (L\<lparr>utc_now := t\<rparr>) fault c key provider model e)"
| "cache_step L c (t, fault, OpTrace trace_id key) = snd (record_trace fault c trace_id key)"
| "cache_step L c (t, fault, OpClearEntries) = snd (clear_entries fault c)"
| "cache_step L c (t, fault, OpClearStats) = snd (clear_stats fault c)"

definition cache_run :: "cache_lib \<Rightarrow> cache \<Rightarrow> (int \<times> (nat \<Rightarrow> bool) \<times> cache_op) list \<Rightarrow> cache" where
  "cache_run L c steps = foldl (cache_step L) c steps"

lemma cache_run_simps [simp]:
  "cache_run L c [] = c"
  "cache_run L c (x # xs) = cache_run L (cache_step L c x) xs"
  by (simp_all add: cache_run_def)

lemma cache_step_wf: "serde_ok L \<Longrightarrow> db_wf L (inner c) \<Longrightarrow> db_wf L (inner (cache_step L c x))"
  using method_wf(1-2)[of "L\<lparr>utc_now := fst x\<rparr>"] method_wf(3-)
  by (cases "(L, c, x)" rule: cache_step.cases) auto

lemma cache_run_db_wf: "serde_ok L \<Longrightarrow> db_wf L (inner c) \<Longrightarrow> db_wf L (inner (cache_run L c xs))"
  by (induction xs arbitrary: c) (simp_all add: cache_step_wf)

abbreviation no_fault :: "nat \<Rightarrow> bool" where
  "no_fault \<equiv> \<lambda>_. False"

subsection \<open>What a lookup does\<close>

lemma cache_get_hit_eq:
  "select_entry key (inner c) = Some r \<Longrightarrow> \<not> expired L c r \<Longrightarrow> parse_exchange L (r_exchange_json r) = Some e \<Longrightarrow>
   cache_get L no_fault c key =
     (Inr (Some e), c\<lparr>inner := upsert_stat ''bytes_served_from_cache'' (r_resp_bytes r)
        (upsert_stat ''hits'' 1 (update_hit_count key (inner c)))\<rparr>)"
  by (simp add: cache_get_def count_hit_def)

lemma cache_get_miss_eq:
  "select_entry key (inner c) = None \<or> (\<exists>r. select_entry key (inner c) = Some r \<and> expired L c r) \<Longrightarrow>
   cache_get L no_fault c key = (Inr None, c\<lparr>inner := upsert_stat ''misses'' 1 (inner c)\<rparr>)"
  by (auto simp: cache_get_def count_miss_def)

lemma cache_get_cases:
  assumes "db_wf L (inner c)"
  obtains (miss) "cache_get L no_fault c key = (Inr None, c\<lparr>inner := upsert_stat ''misses'' 1 (inner c)\<rparr>)"
  | (hit) r e where "select_entry key (inner c) = Some r" "\<not> expired L c r" "row_holds L r e"
      "cache_get L no_fault c key =
         (Inr (Some e), c\<lparr>inner := upsert_stat ''bytes_served_from_cache'' (r_resp_bytes r)
            (upsert_stat ''hits'' 1 (update_hit_count key (inner c)))\<rparr>)"
proof (cases "select_entry key (inner c)")
  case None
  then show ?thesis by (rule miss[OF cache_get_miss_eq[OF disjI1]])
next
  case (Some r)
  show ?thesis
  proof (cases "expired L c r")
    case True
    with Some show ?thesis by (intro miss[OF cache_get_miss_eq]) simp
  next
    case False
    from db_wf_row[OF assms Some] obtain e where e: "row_holds L r e" by blast
    then have "parse_exchange L (r_exchange_json r) = Some e" by (simp add: row_holds_def)
    from hit[OF Some False e cache_get_hit_eq[OF Some False this]] show ?thesis .
  qed
qed

text \<open>The same when statements may fail.\<close>

lemma cache_get_result:
  assumes "db_wf L (inner c)"
  obtains (error) n where "cache_get L fault c key = (Inl (SqlError n), c)"
  | (miss) "cache_get L fault c key = (Inr None, c\<lparr>inner := upsert_stat ''misses'' 1 (inner c)\<rparr>)"
  | (hit) row e where "row \<in> set (entries (inner c))" "r_key row = key" "row_holds L row e"
      "cache_get L fault c key =
         (Inr (Some e), c\<lparr>inner := upsert_stat ''bytes_served_from_cache'' (int (length (chunks_text (chunks e))))
            (upsert_stat ''hits'' 1 (update_hit_count key (inner c)))\<rparr>)"
proof (cases "\<exists>n. cache_get L fault c key = (Inl (SqlError n), c)")
  case True
  then show ?thesis using error by blast
next
  case False
  then have same: "cache_get L fault c key = cache_get L no_fault c key"
    by (auto simp: cache_get_def count_miss_def count_hit_def split: option.splits sum.splits if_splits)
  from assms show ?thesis
  proof (cases rule: cache_get_cases[where key = key])
    case miss
    then show ?thesis using that(2) same by simp
  next
    case (hit r e)
    then show ?thesis using that(3)[of r e] same select_entry_in[OF hit(1)]
      by (auto simp: row_holds_def select_entry_def find_Some_iff)
  qed
qed

lemma stats_after_hit:
  assumes "distinct (map fst (stats_rows d))"
  shows "stat_value k (upsert_stat ''bytes_served_from_cache'' n (upsert_stat ''hits'' 1 (update_hit_count key d)))
     = stat_value k d + (if k = ''bytes_served_from_cache'' then n else if k = ''hits'' then 1 else 0)"
proof -
  let ?d = "update_hit_count key d"
  have d0: "distinct (map fst (stats_rows ?d))" using assms by simp
  have d1: "distinct (map fst (stats_rows (upsert_stat ''hits'' 1 ?d)))"
    by (rule distinct_stats_upsert[OF d0])
  have "stat_value k ?d = stat_value k d" by (rule stat_value_frame) simp
  then show ?thesis
    by (simp add: stat_value_upsert[OF d1] stat_value_upsert[OF d0])
qed

lemma get_counts_once:
  assumes "db_wf L (inner c)"
  shows "stat_value ''hits'' (inner (snd (cache_get L no_fault c key)))
       + stat_value ''misses'' (inner (snd (cache_get L no_fault c key)))
       = stat_value ''hits'' (inner c) + stat_value ''misses'' (inner c) + 1"
proof -
  note d = db_wf_dest(3)[OF assms]
  show ?thesis
    using assms
  proof (cases rule: cache_get_cases[where key = key])
    case miss
    then show ?thesis by (simp add: stat_value_upsert[OF d])
  next
    case (hit r e)
    then show ?thesis by (simp add: stats_after_hit[OF d])
  qed
qed

subsection \<open>The store the proxy relies on\<close>

text \<open>The abstract contract of the cache: a finite map from keys to exchanges, on which a lookup
  has no effect.\<close>

datatype store_op = Lookup string | Store string exchange

fun store_run :: "(string \<Rightarrow> 's \<Rightarrow> 's) \<Rightarrow> (string \<Rightarrow> exchange \<Rightarrow> 's \<Rightarrow> 's) \<Rightarrow> 's \<Rightarrow> store_op list \<Rightarrow> 's" where
  "store_run aft put s [] = s"
| "store_run aft put s (Lookup k # ops) = store_run aft put (aft k s) ops"
| "store_run aft put s (Store k e # ops) = store_run aft put (put k e s) ops"

fun last_store :: "string \<Rightarrow> store_op list \<Rightarrow> exchange option" where
  "last_store k [] = None"
| "last_store k (Lookup k' # ops) = last_store k ops"
| "last_store k (Store k' e # ops) =
     (case last_store k ops of Some e' \<Rightarrow> Some e' | None \<Rightarrow> if k' = k then Some e else None)"

fun stored :: "store_op list \<Rightarrow> exchange set" where
  "stored [] = {}"
| "stored (Lookup k # ops) = stored ops"
| "stored (Store k e # ops) = insert e (stored ops)"

locale exchange_store =
  fixes inv :: "'s \<Rightarrow> bool"
    and view :: "'s \<Rightarrow> string \<Rightarrow> exchange option"
    and lookup :: "string \<Rightarrow> 's \<Rightarrow> exchange option"
    and aft :: "string \<Rightarrow> 's \<Rightarrow> 's"
    and put :: "string \<Rightarrow> exchange \<Rightarrow> 's \<Rightarrow> 's"
    and storable :: "exchange \<Rightarrow> bool"
  assumes inv_aft: "inv s \<Longrightarrow> inv (aft k s)"
    and inv_put: "inv s \<Longrightarrow> storable e \<Longrightarrow> inv (put k e s)"
    and lookup_view: "inv s \<Longrightarrow> lookup k s = view s k"
    and view_aft: "inv s \<Longrightarrow> view (aft k s) = view s"
    and view_put: "inv s \<Longrightarrow> storable e \<Longrightarrow> view (put k e s) = (view s)(k \<mapsto> e)"
begin

lemma inv_run: "inv s \<Longrightarrow> \<forall>e \<in> stored ops. storable e \<Longrightarrow> inv (store_run aft put s ops)"
proof (induction ops arbitrary: s)
  case (Cons x ops)
  then show ?case by (cases x) (simp_all add: inv_aft inv_put)
qed simp

lemma view_run:
  "inv s \<Longrightarrow> \<forall>e \<in> stored ops. storable e \<Longrightarrow> view (store_run aft put s ops) k = (case last_store k ops of Some e \<Rightarrow> Some e | None \<Rightarrow> view s k)"
proof (induction ops arbitrary: s)
  case (Cons x ops)
  then show ?case
    by (cases x) (auto simp: inv_aft inv_put view_aft view_put split: option.split)
qed simp

lemma lookup_run:
  "inv s \<Longrightarrow> \<forall>e \<in> stored ops. storable e \<Longrightarrow> lookup k (store_run aft put s ops) =
     (case last_store k ops of Some e \<Rightarrow> Some e | None \<Rightarrow> view s k)"
  using lookup_view[OF inv_run] view_run by metis

end

text \<open>The model provides it: without a time to live, without faults, with a serializer that reads
  what it wrote, and for the exchanges it can write.\<close>

definition store_inv :: "cache_lib \<Rightarrow> cache \<Rightarrow> bool" where
  "store_inv L c \<longleftrightarrow> serde_ok L \<and> db_wf L (inner c) \<and> ttl_seconds c = 0"

definition store_view :: "cache_lib \<Rightarrow> cache \<Rightarrow> string \<Rightarrow> exchange option" where
  "store_view L c key =
     (case select_entry key (inner c) of None \<Rightarrow> None | Some r \<Rightarrow> parse_exchange L (r_exchange_json r))"

definition store_lookup :: "cache_lib \<Rightarrow> string \<Rightarrow> cache \<Rightarrow> exchange option" where
  "store_lookup L key c = (case fst (cache_get L no_fault c key) of Inr x \<Rightarrow> x | Inl _ \<Rightarrow> None)"

definition store_aft :: "cache_lib \<Rightarrow> string \<Rightarrow> cache \<Rightarrow> cache" where
  "store_aft L key c = snd (cache_get L no_fault c key)"

definition store_put :: "cache_lib \<Rightarrow> string \<Rightarrow> string option \<Rightarrow> string \<Rightarrow> exchange \<Rightarrow> cache \<Rightarrow> cache" where
  "store_put L provider model key e c = snd (cache_put L no_fault c key provider model e)"

lemma expired_ttl_0: "ttl_seconds c = 0 \<Longrightarrow> \<not> expired L c r"
  by (simp add: expired_def)

lemma ttl_cache_get [simp]: "ttl_seconds (snd (cache_get L fault c key)) = ttl_seconds c"
  by (auto simp: cache_get_def count_miss_def split: option.split sum.split)

lemma ttl_cache_put [simp]: "ttl_seconds (snd (cache_put L fault c key p m e)) = ttl_seconds c"
  by (auto simp: cache_put_def split: option.split)

lemma store_view_get:
  assumes "db_wf L (inner c)"
  shows "store_view L (snd (cache_get L no_fault c key)) = store_view L c"
  using assms
proof (cases rule: cache_get_cases[where key = key])
  case miss
  then show ?thesis by (simp add: store_view_def fun_eq_iff)
next
  case (hit r e)
  then show ?thesis
    by (auto simp: store_view_def fun_eq_iff select_entry_update_hit_count split: option.split)
qed

lemma cache_put_select:
  assumes "serde_ok L" and "print_exchange L e \<noteq> None"
  obtains r where "inner (snd (cache_put L no_fault c key p m e)) = insert_or_replace r (inner c)"
    and "r_key r = key" and "row_holds L r e" and "r_provider r = p" and "r_model r = m"
    and "r_created_at r = iso_now L" and "r_hit_count r = 0"
proof -
  from assms obtain s where s: "print_exchange L e = Some s" "parse_exchange L s = Some e"
    by (auto simp: serde_ok_def)
  show ?thesis
    by (rule that[of "\<lparr>r_key = key, r_created_at = iso_now L, r_status = uint (status e),
                  r_content_type = content_type e, r_exchange_json = s,
                  r_provider = p, r_model = m,
                  r_req_bytes = int (length (req_body (request e))),
                  r_resp_bytes = int (sum_list (map (\<lambda>ch. length (data ch)) (chunks e))),
                  r_hit_count = 0\<rparr>"])
       (simp_all add: cache_put_def s row_holds_def length_chunks_text)
qed

lemma store_view_put:
  assumes "serde_ok L" and "print_exchange L e \<noteq> None"
  shows "store_view L (snd (cache_put L no_fault c key p m e)) = (store_view L c)(key \<mapsto> e)"
proof -
  from cache_put_select[OF assms, of c key p m] obtain r
    where "inner (snd (cache_put L no_fault c key p m e)) = insert_or_replace r (inner c)"
      and "r_key r = key" and "row_holds L r e" by blast
  then show ?thesis
    by (auto simp: store_view_def fun_eq_iff select_entry_insert_or_replace row_holds_def)
qed

interpretation store: exchange_store "store_inv L" "store_view L" "store_lookup L" "store_aft L"
    "store_put L provider model" "\<lambda>e. print_exchange L e \<noteq> None" for L provider model
proof unfold_locales
  fix s k e
  assume inv: "store_inv L s"
  then have wf: "db_wf L (inner s)" and ok: "serde_ok L"
    and ttl: "ttl_seconds s = 0" by (simp_all add: store_inv_def)
  show "store_inv L (store_aft L k s)"
    using inv by (simp add: store_inv_def store_aft_def cache_get_wf)
  show "store_view L (store_aft L k s) = store_view L s"
    by (simp add: store_aft_def store_view_get[OF wf])
  assume pr: "print_exchange L e \<noteq> None"
  show "store_inv L (store_put L provider model k e s)"
    using inv by (simp add: store_inv_def store_put_def cache_put_wf)
  show "store_view L (store_put L provider model k e s) = (store_view L s)(k \<mapsto> e)"
    by (simp add: store_put_def store_view_put[OF ok pr])
next
  fix s k
  assume inv: "store_inv L s"
  then have wf: "db_wf L (inner s)" and ttl: "ttl_seconds s = 0" by (simp_all add: store_inv_def)
  show "store_lookup L k s = store_view L s k"
  proof (cases "select_entry k (inner s)")
    case None
    then show ?thesis by (simp add: store_lookup_def store_view_def cache_get_miss_eq)
  next
    case (Some r)
    from db_wf_row[OF wf Some] obtain x where "parse_exchange L (r_exchange_json r) = Some x"
      by (auto simp: row_holds_def)
    with Some show ?thesis
      by (simp add: store_lookup_def store_view_def cache_get_hit_eq[OF Some expired_ttl_0[OF ttl]])
  qed
qed

subsection \<open>Reading queries\<close>

lemma get_u16_uint [simp]: "get_u16 (uint (w :: u16)) = Inr w"
proof -
  have "uint w < 65536" using uint_lt2p[of w] by simp
  then show ?thesis by (simp add: get_u16_def)
qed

lemma row_to_entry_holds:
  "row_holds L r e \<Longrightarrow> row_to_entry r = Inr
     \<lparr>ce_key = r_key r, ce_created_at = r_created_at r, ce_provider = r_provider r,
      ce_model = r_model r, ce_status = status e, ce_hit_count = r_hit_count r,
      ce_req_bytes = r_req_bytes r, ce_resp_bytes = r_resp_bytes r\<rparr>"
  by (simp add: row_to_entry_def row_holds_def)

lemma row_to_full_holds:
  "row_holds L r e \<Longrightarrow> row_to_full L ctx (r, status e) = Inr
     \<lparr>fe_key = r_key r, fe_created_at = r_created_at r, fe_provider = r_provider r,
      fe_model = r_model r, fe_status = status e, fe_content_type = content_type e,
      fe_hit_count = r_hit_count r, fe_req_bytes = r_req_bytes r,
      fe_resp_bytes = r_resp_bytes r, fe_request = request e, fe_chunks = chunks e\<rparr>"
  by (simp add: row_to_full_def row_holds_def)

lemma try_map_Inr_ex: "(\<And>x. x \<in> set xs \<Longrightarrow> \<exists>y. f x = Inr y) \<Longrightarrow> \<exists>ys. try_map f xs = Inr ys"
  by (induction xs) (auto, metis try_then.simps(2) insertCI)

lemma try_map_all2: "try_map f xs = Inr ys \<Longrightarrow> list_all2 (\<lambda>x y. f x = Inr y) xs ys"
  by (induction xs arbitrary: ys) (auto simp: result_simps)

lemma try_map_map_proj:
  assumes "try_map f xs = Inr ys" and "\<And>x y. f x = Inr y \<Longrightarrow> g y = h x"
  shows "map g ys = map h xs"
  using try_map_all2[OF assms(1)] by (induction rule: list_all2_induct) (auto simp: assms(2))

lemma set_select_trace:
  "set (select_trace t d) = {r \<in> set (entries d). (t, r_key r) \<in> set (trace_entries d)}"
  by (auto simp: select_trace_def)

lemma distinct_select_trace: "distinct (keys d) \<Longrightarrow> distinct (map r_key (select_trace t d))"
  by (auto simp: select_trace_def distinct_map intro: inj_on_subset)

lemma sorted_select_trace: "sorted (map r_created_at (select_trace t d))"
  by (simp add: select_trace_def)

lemma get_trace_ok:
  assumes "db_wf L (inner c)"
  shows "\<exists>es. get_trace no_fault c t = Inr es"
proof -
  have "\<exists>y. row_to_entry r = Inr y" if "r \<in> set (select_trace t (inner c))" for r
    using that assms row_to_entry_holds by (fastforce simp: set_select_trace db_wf_def)
  then show ?thesis by (simp add: get_trace_def try_map_Inr_ex)
qed

lemma list_entries_ok:
  assumes "db_wf L (inner c)"
  shows "\<exists>es. list_entries no_fault c = Inr es"
proof -
  have "\<exists>y. row_to_entry r = Inr y" if "r \<in> set (rev (sort_key r_created_at (entries (inner c))))" for r
    using that assms row_to_entry_holds by (fastforce simp: db_wf_def)
  then have "\<exists>ys. try_map row_to_entry (rev (sort_key r_created_at (entries (inner c)))) = Inr ys"
    by (rule try_map_Inr_ex)
  then show ?thesis by (simp add: list_entries_def)
qed

lemma inspect_trace_eq:
  assumes "db_wf L (inner c)"
  shows "\<exists>fs. inspect_trace L no_fault c t = Inr fs \<and> map fe_key fs = map r_key (select_trace t (inner c))"
proof -
  let ?rs = "select_trace t (inner c)"
  let ?st = "\<lambda>r. the (map_option status (parse_exchange L (r_exchange_json r)))"
  have h: "\<exists>e. row_holds L r e" if "r \<in> set ?rs" for r
    using that assms by (auto simp: set_select_trace db_wf_def)
  have one: "try_then (get_u16 (r_status r)) (\<lambda>st. Inr (r, st)) = (Inr (r, ?st r) :: cache_error + _)"
    if "r \<in> set ?rs" for r
    using h[OF that] by (auto simp: row_holds_def)
  then have 1: "try_map (\<lambda>r. try_then (get_u16 (r_status r)) (\<lambda>st. Inr (r, st))) ?rs =
      (Inr (map (\<lambda>r. (r, ?st r)) ?rs) :: cache_error + _)"
    by (rule try_map_Inr)
  have "\<exists>y. row_to_full L ''deserializing inspect_trace exchange'' x = Inr y"
    if x: "x \<in> set (map (\<lambda>r. (r, ?st r)) ?rs)" for x
  proof -
    from x obtain r where r: "x = (r, ?st r)" "r \<in> set ?rs" by auto
    from h[OF r(2)] obtain e where e: "row_holds L r e" by blast
    then have "x = (r, status e)" using r(1) by (simp add: row_holds_def)
    then show ?thesis by (simp add: row_to_full_holds[OF e])
  qed
  then have "\<exists>fs. try_map (row_to_full L ''deserializing inspect_trace exchange'')
      (map (\<lambda>r. (r, ?st r)) ?rs) = Inr fs"
    by (rule try_map_Inr_ex)
  then obtain fs where fs: "try_map (row_to_full L ''deserializing inspect_trace exchange'')
      (map (\<lambda>r. (r, ?st r)) ?rs) = Inr fs" by blast
  have "map fe_key fs = map (r_key \<circ> fst) (map (\<lambda>r. (r, ?st r)) ?rs)"
    by (rule try_map_map_proj[OF fs]) (auto simp: row_to_full_def split: option.splits prod.splits)
  with 1 fs show ?thesis by (auto simp: inspect_trace_def)
qed

lemma inspect_eq:
  assumes "db_wf L (inner c)"
  shows "inspect L no_fault c key = Inr
     (case select_entry key (inner c) of None \<Rightarrow> None
      | Some r \<Rightarrow> (case parse_exchange L (r_exchange_json r) of None \<Rightarrow> None
         | Some e \<Rightarrow> Some \<lparr>fe_key = key, fe_created_at = r_created_at r, fe_provider = r_provider r,
            fe_model = r_model r, fe_status = status e, fe_content_type = content_type e,
            fe_hit_count = r_hit_count r, fe_req_bytes = r_req_bytes r,
            fe_resp_bytes = r_resp_bytes r, fe_request = request e, fe_chunks = chunks e\<rparr>))"
proof (cases "select_entry key (inner c)")
  case None
  then show ?thesis by (simp add: inspect_def)
next
  case (Some r)
  from db_wf_row[OF assms Some] obtain e where e: "row_holds L r e" by blast
  then have "row_holds L (r\<lparr>r_key := key\<rparr>) e" by (simp add: row_holds_def)
  with Some row_to_full_holds[OF this] e show ?thesis
    by (simp add: inspect_def row_holds_def)
qed

subsection \<open>Counting by model\<close>

definition shown_model :: "string option \<Rightarrow> string" where
  "shown_model m = (case m of Some s \<Rightarrow> s | None \<Rightarrow> ''unknown'')"

lemma by_model_eq:
  "cache_stats_of no_fault c = Inr st \<Longrightarrow>
   by_model st = map_of (rev (map (\<lambda>(m, n). (shown_model m, n)) (group_by_model (inner c))))"
  by (auto simp: cache_stats_of_def shown_model_def)

lemma group_by_model_keys:
  "distinct (map fst (group_by_model d)) \<and> set (map fst (group_by_model d)) = set (map r_model (entries d))"
  by (force simp: group_by_model_def Let_def comp_def)

lemma group_by_model_count:
  "(m, n) \<in> set (group_by_model d) \<Longrightarrow> n = int (count_list (map r_model (entries d)) m)"
  by (auto simp: group_by_model_def Let_def)

lemma count_list_map_inj_on:
  "inj_on f (insert x (set xs)) \<Longrightarrow> count_list (map f xs) (f x) = count_list xs x"
  by (induction xs) (auto simp: inj_on_def)

subsection \<open>A concrete store for the witnesses\<close>

definition wit_exchange :: exchange where
  "wit_exchange = \<lparr>request = \<lparr>req_method = ''POST'', req_path = ''/p'', req_body = ''{}''\<rparr>,
     status = 200, content_type = ''t'', chunks = [\<lparr>offset_ms = 0, data = ''hello''\<rparr>]\<rparr>"

text \<open>A serializer that is total and injective on the exchanges the witnesses store: it writes
  the exchange above as the letter x. Reading anything else yields nothing.\<close>

definition wit_lib :: cache_lib where
  "wit_lib = \<lparr>utc_now = 0, to_rfc3339 = (\<lambda>t. ''2026''), parse_from_rfc3339 = (\<lambda>s. Some 0),
     print_exchange = (\<lambda>e. if e = wit_exchange then Some ''x'' else None),
     parse_exchange = (\<lambda>s. if s = ''x'' then Some wit_exchange else None)\<rparr>"

definition wit_row :: row where
  "wit_row = \<lparr>r_key = ''k'', r_created_at = ''2026'', r_status = 200, r_content_type = ''t'',
     r_exchange_json = ''x'', r_provider = ''openai'', r_model = None, r_req_bytes = 2,
     r_resp_bytes = 5, r_hit_count = 0\<rparr>"

definition wit_cache :: cache where
  "wit_cache = \<lparr>inner = \<lparr>entries = [wit_row], trace_entries = [(''t'', ''k'')], stats_rows = []\<rparr>,
     ttl_seconds = 0\<rparr>"

lemma wit_serde_ok: "serde_ok wit_lib"
  by (simp add: serde_ok_def wit_lib_def)

lemma wit_row_holds: "row_holds wit_lib wit_row wit_exchange"
  by (simp add: row_holds_def wit_lib_def wit_row_def wit_exchange_def chunks_text_def)

lemma wit_db_wf: "db_wf wit_lib (inner wit_cache)"
  using wit_row_holds by (auto simp: db_wf_def wit_cache_def wit_row_def)

lemma wit_select: "select_entry ''k'' (inner wit_cache) = Some wit_row"
  by (simp add: select_entry_def wit_cache_def wit_row_def)

lemma wit_not_expired: "\<not> expired L wit_cache r"
  by (simp add: expired_def wit_cache_def)

subsection \<open>Properties\<close>

text \<open>C13: Whatever calls were made before, at whatever times and with whatever statements failing,
  a database that started as a new file is consistent (unique keys, no negative counter, every row agrees
  with a readable exchange), and every read whose own SQL succeeds succeeds: no stored row ever
  fails to decode. Opening the file again gives the same cache.\<close>

theorem reachable_cache_is_consistent:
  assumes "serde_ok L" and "cache_open fault new_file ttl = Inr c0" and "c = cache_run L c0 steps"
  shows "db_wf L (inner c)
    \<and> cache_open no_fault (file_of (inner c)) (ttl_seconds c) = Inr c
    \<and> (\<exists>x. fst (cache_get (L\<lparr>utc_now := now\<rparr>) no_fault c key) = Inr x)
    \<and> (\<exists>x. inspect L no_fault c key = Inr x)
    \<and> (\<exists>xs. get_trace no_fault c t = Inr xs)
    \<and> (\<exists>xs. inspect_trace L no_fault c t = Inr xs)
    \<and> (\<exists>xs. list_entries no_fault c = Inr xs)"
proof -
  have wf: "db_wf L (inner c)"
    using assms by (auto simp: cache_run_db_wf cache_open_def split: if_splits)
  then have "db_wf (L\<lparr>utc_now := now\<rparr>) (inner c)" by simp
  then have "\<exists>x. fst (cache_get (L\<lparr>utc_now := now\<rparr>) no_fault c key) = Inr x"
    by (cases rule: cache_get_cases[where key = key]) auto
  moreover have "cache_open no_fault (file_of (inner c)) (ttl_seconds c) = Inr c"
    by (simp add: cache_open_def init_schema_def file_of_def)
  ultimately show ?thesis
    using wf inspect_eq[OF wf] get_trace_ok[OF wf] inspect_trace_eq[OF wf] list_entries_ok[OF wf] by blast
qed

theorem reachable_cache_is_consistent_witness:
  "\<exists>c0. cache_open no_fault new_file 0 = Inr c0 \<and> db_wf wit_lib (inner (cache_run wit_lib c0
     [(0, no_fault, OpPut ''k'' ''openai'' None wit_exchange), (1, \<lambda>n. n = 3, OpGet ''k'')]))"
proof -
  obtain c0 where c0: "cache_open no_fault new_file 0 = Inr c0" by (simp add: cache_open_def)
  from reachable_cache_is_consistent[OF wit_serde_ok c0 refl] c0 show ?thesis by blast
qed

text \<open>A hit. For a stored, unexpired key the lookup returns the stored exchange; it adds one to
  the entry's hit count, one to \<open>hits\<close> and the response's length in bytes to
  \<open>bytes_served_from_cache\<close>, and changes nothing else.\<close>

theorem cache_hit_effect:
  assumes "db_wf L (inner c)" and "select_entry key (inner c) = Some r" and "\<not> expired L c r"
  shows "\<exists>e c'. cache_get L no_fault c key = (Inr (Some e), c') \<and> row_holds L r e
    \<and> (\<forall>k. select_entry k (inner c') =
          (if k = key then Some (r\<lparr>r_hit_count := r_hit_count r + 1\<rparr>) else select_entry k (inner c)))
    \<and> stat_value ''hits'' (inner c') = stat_value ''hits'' (inner c) + 1
    \<and> stat_value ''misses'' (inner c') = stat_value ''misses'' (inner c)
    \<and> stat_value ''bytes_served_from_cache'' (inner c') =
        stat_value ''bytes_served_from_cache'' (inner c) + int (length (chunks_text (chunks e)))
    \<and> trace_entries (inner c') = trace_entries (inner c)"
proof -
  from db_wf_row[OF assms(1,2)] obtain e where e: "row_holds L r e" by blast
  then have "parse_exchange L (r_exchange_json r) = Some e" by (simp add: row_holds_def)
  from cache_get_hit_eq[OF assms(2,3) this] e assms(2) stats_after_hit[OF db_wf_dest(3)[OF assms(1)]]
  show ?thesis
    by (auto simp: select_entry_update_hit_count row_holds_def option.map_ident)
qed

theorem cache_hit_effect_witness:
  "\<exists>e c'. cache_get wit_lib no_fault wit_cache ''k'' = (Inr (Some e), c')
     \<and> stat_value ''hits'' (inner c') = 1"
  using cache_hit_effect[OF wit_db_wf wit_select wit_not_expired]
  by (auto simp: stat_value_def wit_cache_def)

text \<open>A miss. A lookup of a key that is not stored, or whose entry is older than the time to
  live, returns nothing, adds one to \<open>misses\<close> and changes nothing else; the expired entry stays
  in the table.\<close>

theorem cache_miss_effect:
  assumes "db_wf L (inner c)"
    and "case select_entry key (inner c) of None \<Rightarrow> True
         | Some r \<Rightarrow> ttl_seconds c > 0 \<and> age_seconds L (r_created_at r) > ttl_seconds c"
  shows "\<exists>c'. cache_get L no_fault c key = (Inr None, c')
    \<and> entries (inner c') = entries (inner c) \<and> trace_entries (inner c') = trace_entries (inner c)
    \<and> stat_value k (inner c') = stat_value k (inner c) + (if k = ''misses'' then 1 else 0)"
proof -
  have "select_entry key (inner c) = None \<or> (\<exists>r. select_entry key (inner c) = Some r \<and> expired L c r)"
    using assms(2) by (auto simp: expired_def split: option.splits)
  from cache_get_miss_eq[OF this] stat_value_upsert[OF db_wf_dest(3)[OF assms(1)]]
  show ?thesis by simp
qed

theorem cache_miss_effect_witness:
  "\<exists>c'. cache_get (wit_lib\<lparr>utc_now := 6000000000\<rparr>) no_fault (wit_cache\<lparr>ttl_seconds := 5\<rparr>) ''k'' = (Inr None, c')
     \<and> entries (inner c') = [wit_row]"
proof -
  let ?L = "wit_lib\<lparr>utc_now := 6000000000\<rparr>" and ?c = "wit_cache\<lparr>ttl_seconds := 5\<rparr>"
  have 1: "db_wf ?L (inner ?c)" using wit_db_wf by simp
  have 2: "case select_entry ''k'' (inner ?c) of None \<Rightarrow> True
      | Some r \<Rightarrow> ttl_seconds ?c > 0 \<and> age_seconds ?L (r_created_at r) > ttl_seconds ?c"
    using wit_select by (simp add: age_seconds_def wit_lib_def)
  have 3: "entries (inner wit_cache) = [wit_row]" by (simp add: wit_cache_def)
  show ?thesis using cache_miss_effect[OF 1 2, of "[]"] 3 by auto
qed

text \<open>A failed lookup leaves no trace: whenever SQLite fails in any statement of \<open>get\<close>, the
  lookup returns that error and the tables are as they were before the call, so a hit count never
  runs ahead of the counters.\<close>

theorem failed_get_changes_nothing:
  assumes "fst (cache_get L fault c key) = Inl (SqlError n)"
  shows "snd (cache_get L fault c key) = c \<and> fault n"
  using assms
  by (auto simp: cache_get_def count_miss_def count_hit_def split: option.splits if_splits sum.splits)

theorem failed_get_changes_nothing_witness:
  "snd (cache_get wit_lib (\<lambda>n. n = 4) wit_cache ''k'') = wit_cache"
proof -
  have "fst (cache_get wit_lib (\<lambda>n. n = 4) wit_cache ''k'') = Inl (SqlError 4)"
    by (simp add: cache_get_def wit_select wit_not_expired count_hit_def)
  from failed_get_changes_nothing[OF this] show ?thesis by simp
qed

text \<open>C12: The cache implements a finite map. With entries that never expire and a working disk,
  after any sequence of lookups and stores a lookup of a key returns the exchange that was stored
  last under this key, and what was there before when none was.\<close>

theorem lookup_returns_last_store:
  assumes "serde_ok L" and "db_wf L (inner c)" and "ttl_seconds c = 0"
    and "\<forall>e \<in> stored ops. print_exchange L e \<noteq> None"
  shows "store_lookup L key (store_run (store_aft L) (store_put L provider model) c ops) =
     (case last_store key ops of
        Some e \<Rightarrow> Some e
      | None \<Rightarrow> (case select_entry key (inner c) of
                   None \<Rightarrow> None
                 | Some r \<Rightarrow> parse_exchange L (r_exchange_json r)))"
proof -
  have "store_inv L c" using assms by (simp add: store_inv_def)
  from store.lookup_run[OF this assms(4), of key provider model] show ?thesis
    by (simp only: store_view_def)
qed

theorem lookup_returns_last_store_witness:
  "store_lookup wit_lib ''n'' (store_run (store_aft wit_lib) (store_put wit_lib ''openai'' None) wit_cache
     [Store ''n'' wit_exchange, Lookup ''k'']) = Some wit_exchange"
proof -
  have "\<forall>e \<in> stored [Store ''n'' wit_exchange, Lookup ''k'']. print_exchange wit_lib e \<noteq> None"
    by (simp add: wit_lib_def)
  moreover have "ttl_seconds wit_cache = 0" by (simp add: wit_cache_def)
  ultimately show ?thesis
    using lookup_returns_last_store[OF wit_serde_ok wit_db_wf, of "[Store ''n'' wit_exchange, Lookup ''k'']"
        "''n''" "''openai''" None]
    by simp
qed

text \<open>The counters account for every lookup: over any sequence of calls whose statements
  succeed and that does not reset the statistics, \<open>hits\<close> and \<open>misses\<close> together grow by the
  number of lookups made.\<close>

theorem counters_account_for_lookups:
  assumes "serde_ok L" and "db_wf L (inner c)"
    and "\<forall>(t, fault, op) \<in> set steps. fault = no_fault \<and> op \<noteq> OpClearStats"
  shows "stat_value ''hits'' (inner (cache_run L c steps)) + stat_value ''misses'' (inner (cache_run L c steps))
    = stat_value ''hits'' (inner c) + stat_value ''misses'' (inner c)
      + int (length (filter (\<lambda>(t, fault, op). \<exists>key. op = OpGet key) steps))"
  using assms(2,3)
proof (induction steps arbitrary: c)
  case Nil
  then show ?case by simp
next
  case (Cons x steps)
  obtain t fault op where x: "x = (t, fault, op)" by (cases x) auto
  with Cons.prems have f: "fault = no_fault" "op \<noteq> OpClearStats" by auto
  let ?c = "cache_step L c x"
  have "stat_value ''hits'' (inner ?c) + stat_value ''misses'' (inner ?c)
    = stat_value ''hits'' (inner c) + stat_value ''misses'' (inner c)
      + (if \<exists>key. op = OpGet key then 1 else 0)"
    using f Cons.prems(1) get_counts_once[of "L\<lparr>utc_now := t\<rparr>" c]
    by (cases op) (auto simp: x cache_put_def record_trace_def clear_entries_def Let_def
          intro!: arg_cong2[where f = "(+)"] stat_value_frame split: option.split)
  moreover note Cons.IH[OF cache_step_wf[OF assms(1) Cons.prems(1), of x]]
  ultimately show ?case using Cons.prems(2) x by auto
qed

theorem counters_account_for_lookups_witness:
  "stat_value ''hits'' (inner (cache_run wit_lib wit_cache [(0, no_fault, OpGet ''k''), (0, no_fault, OpGet ''z'')]))
   + stat_value ''misses'' (inner (cache_run wit_lib wit_cache [(0, no_fault, OpGet ''k''), (0, no_fault, OpGet ''z'')])) = 2"
proof -
  have 0: "stat_value k (inner wit_cache) = 0" for k by (simp add: stat_value_def wit_cache_def)
  have "\<forall>(t, fault, op) \<in> set [(0, no_fault, OpGet ''k''), (0, no_fault, OpGet ''z'')].
      fault = no_fault \<and> op \<noteq> OpClearStats" by simp
  from counters_account_for_lookups[OF wit_serde_ok wit_db_wf this] show ?thesis
    by (simp add: 0)
qed

text \<open>The two administrative deletions. \<open>clear_entries\<close> reports the number of entries, leaves
  no entry and no trace row, and does not touch the counters; \<open>clear_stats\<close> sets every counter to
  zero and leaves entries, hit counts and traces alone.\<close>

theorem clearing_is_separate:
  shows "fst (clear_entries no_fault c) = Inr (int (length (entries (inner c))))
    \<and> entries (inner (snd (clear_entries no_fault c))) = []
    \<and> trace_entries (inner (snd (clear_entries no_fault c))) = []
    \<and> (\<forall>k. stat_value k (inner (snd (clear_entries no_fault c))) = stat_value k (inner c))
    \<and> fst (cache_get L no_fault (snd (clear_entries no_fault c)) key) = Inr None
    \<and> (\<forall>k. stat_value k (inner (snd (clear_stats no_fault c))) = 0)
    \<and> entries (inner (snd (clear_stats no_fault c))) = entries (inner c)
    \<and> trace_entries (inner (snd (clear_stats no_fault c))) = trace_entries (inner c)"
  by (simp add: clear_entries_def clear_stats_def stat_value_def cache_get_def count_miss_def select_entry_def)

text \<open>A trace query lists, ordered by creation time and each once, exactly the stored entries
  whose key was recorded under the trace identifier; the full variant lists the same keys in the same
  order, and recording an association twice is recording it once.\<close>

theorem trace_lists_what_was_recorded:
  assumes "db_wf L (inner c)"
  shows "\<exists>es fs. get_trace no_fault c t = Inr es \<and> inspect_trace L no_fault c t = Inr fs
    \<and> sorted (map ce_created_at es) \<and> distinct (map ce_key es)
    \<and> set (map ce_key es) = {k. (t, k) \<in> set (trace_entries (inner c)) \<and> k \<in> set (keys (inner c))}
    \<and> map fe_key fs = map ce_key es
    \<and> (let c' = snd (record_trace no_fault c t key) in
         set (trace_entries (inner c')) = insert (t, key) (set (trace_entries (inner c)))
         \<and> snd (record_trace no_fault c' t key) = c')"
proof -
  from get_trace_ok[OF assms] obtain es where es: "get_trace no_fault c t = Inr es" by blast
  let ?rs = "select_trace t (inner c)"
  have m: "try_map row_to_entry ?rs = Inr es" using es by (simp add: get_trace_def)
  have k: "map ce_key es = map r_key ?rs" and ca: "map ce_created_at es = map r_created_at ?rs"
    by (rule try_map_map_proj[OF m], auto simp: row_to_entry_def result_simps)+
  have rt: "let c' = snd (record_trace no_fault c t key) in
         set (trace_entries (inner c')) = insert (t, key) (set (trace_entries (inner c)))
         \<and> snd (record_trace no_fault c' t key) = c'"
    by (auto simp: record_trace_def insert_or_ignore_trace_def)
  have "set (map r_key ?rs) = {k. (t, k) \<in> set (trace_entries (inner c)) \<and> k \<in> set (keys (inner c))}"
    by (auto simp: set_select_trace)
  with inspect_trace_eq[OF assms, of t] es k ca rt sorted_select_trace[of t "inner c"]
    distinct_select_trace[OF db_wf_dest(1)[OF assms], of t]
  show ?thesis by (metis (no_types, lifting))
qed

theorem trace_lists_what_was_recorded_witness:
  "\<exists>es. get_trace no_fault wit_cache ''t'' = Inr es \<and> set (map ce_key es) = {''k''}"
proof -
  have k: "{k. (''t'', k) \<in> set (trace_entries (inner wit_cache)) \<and> k \<in> set (keys (inner wit_cache))} = {''k''}"
    by (auto simp: wit_cache_def wit_row_def)
  from trace_lists_what_was_recorded[OF wit_db_wf, of "''t''" "''k''"] obtain es fs
    where "get_trace no_fault wit_cache ''t'' = Inr es \<and> inspect_trace wit_lib no_fault wit_cache ''t'' = Inr fs
    \<and> sorted (map ce_created_at es) \<and> distinct (map ce_key es)
    \<and> set (map ce_key es) = {k. (''t'', k) \<in> set (trace_entries (inner wit_cache)) \<and> k \<in> set (keys (inner wit_cache))}"
    by (elim exE conjE) (rule that, intro conjI)
  with k show ?thesis by (intro exI[of _ es]) (simp only: simp_thms)
qed

text \<open>\<open>inspect\<close> shows what a lookup would return, with the row's metadata, for expired entries
  too: status, content type, request and chunks are the stored exchange's.\<close>

theorem inspect_shows_the_stored_exchange:
  assumes "db_wf L (inner c)" and "select_entry key (inner c) = Some r"
  shows "\<exists>e fe. row_holds L r e \<and> inspect L no_fault c key = Inr (Some fe)
    \<and> fe_key fe = key \<and> fe_status fe = status e \<and> fe_content_type fe = content_type e
    \<and> fe_request fe = request e \<and> fe_chunks fe = chunks e
    \<and> fe_hit_count fe = r_hit_count r
    \<and> fe_resp_bytes fe = int (length (chunks_text (chunks e)))
    \<and> (\<not> expired L c r \<longrightarrow> fst (cache_get L no_fault c key) = Inr (Some e))"
proof -
  from db_wf_row[OF assms] obtain e where e: "row_holds L r e" by blast
  then have p: "parse_exchange L (r_exchange_json r) = Some e" by (simp add: row_holds_def)
  have "\<not> expired L c r \<longrightarrow> fst (cache_get L no_fault c key) = Inr (Some e)"
    using cache_get_hit_eq[OF assms(2) _ p] by simp
  with e p inspect_eq[OF assms(1), of key] assms(2) show ?thesis
    by (auto simp: row_holds_def)
qed

theorem inspect_shows_the_stored_exchange_witness:
  "\<exists>fe. inspect wit_lib no_fault wit_cache ''k'' = Inr (Some fe) \<and> fe_key fe = ''k''"
  using inspect_shows_the_stored_exchange[OF wit_db_wf wit_select] by blast

lemma inj_on_shown_model:
  assumes "\<not> (None \<in> S \<and> Some ''unknown'' \<in> S)"
  shows "inj_on shown_model S"
proof (rule inj_onI)
  fix a b assume "a \<in> S" "b \<in> S" "shown_model a = shown_model b"
  then show "a = b" using assms by (cases a; cases b) (auto simp: shown_model_def)
qed

text \<open>The statistics by model are right as long as no stored model is literally named
  \<open>unknown\<close> beside entries without a model: each name maps to the number of entries shown under
  it, and names without entries are absent.\<close>

theorem by_model_counts_entries:
  assumes "\<not> (None \<in> set (map r_model (entries (inner c))) \<and> Some ''unknown'' \<in> set (map r_model (entries (inner c))))"
    and "cache_stats_of no_fault c = Inr st"
  shows "by_model st name =
     (let n = count_list (map (shown_model \<circ> r_model) (entries (inner c))) name
      in if n = 0 then None else Some (int n))"
proof -
  let ?ms = "map r_model (entries (inner c))" and ?g = "group_by_model (inner c)"
  have inj: "inj_on shown_model (set ?ms)"
    using assms(1) by (rule inj_on_shown_model)
  have "distinct (map shown_model (map fst ?g))"
    using group_by_model_keys[of "inner c"] inj by (simp add: distinct_map del: map_map)
  then have d: "distinct (map fst (map (\<lambda>(m, n). (shown_model m, n)) ?g))"
    by (simp add: comp_def case_prod_unfold)
  have bm: "by_model st name = map_of (map (\<lambda>(m, n). (shown_model m, n)) ?g) name"
    using by_model_eq[OF assms(2)] map_of_rev_distinct[OF d] by simp
  show ?thesis
  proof (cases "\<exists>m \<in> set ?ms. shown_model m = name")
    case True
    then obtain m where m: "m \<in> set ?ms" "shown_model m = name" by blast
    then obtain n where n: "(m, n) \<in> set ?g"
      using group_by_model_keys[of "inner c"] by (metis (no_types, lifting) in_set_zipE zip_map_fst_snd imageE set_map prod.collapse)
    then have "(name, n) \<in> set (map (\<lambda>(m, n). (shown_model m, n)) ?g)" using m(2) by force
    with d have "by_model st name = Some n" by (simp add: bm)
    moreover have "insert m (set ?ms) = set ?ms" using m(1) by auto
    then have "count_list (map shown_model ?ms) name = count_list ?ms m"
      using count_list_map_inj_on[of shown_model m ?ms] inj m(2) by simp
    moreover have "count_list ?ms m \<noteq> 0" using m(1) by (simp add: count_list_0_iff)
    ultimately show ?thesis using group_by_model_count[OF n] by simp
  next
    case False
    then have "name \<notin> fst ` set (map (\<lambda>(m, n). (shown_model m, n)) ?g)"
      using group_by_model_keys[of "inner c"] by force
    then have "by_model st name = None" by (simp only: bm map_of_eq_None_iff not_False_eq_True)
    moreover have "count_list (map shown_model ?ms) name = 0" using False by (auto simp: count_list_0_iff)
    ultimately show ?thesis by simp
  qed
qed

theorem by_model_counts_entries_witness:
  "\<exists>st. cache_stats_of no_fault wit_cache = Inr st \<and> by_model st ''unknown'' = Some 1"
proof -
  have 1: "\<not> (None \<in> set (map r_model (entries (inner wit_cache)))
      \<and> Some ''unknown'' \<in> set (map r_model (entries (inner wit_cache))))"
    by (simp add: wit_cache_def)
  obtain st where st: "cache_stats_of no_fault wit_cache = Inr st" by (simp add: cache_stats_of_def)
  have "count_list (map (shown_model \<circ> r_model) (entries (inner wit_cache))) ''unknown'' = 1"
    by (simp add: wit_cache_def wit_row_def shown_model_def)
  with by_model_counts_entries[OF 1 st, of "''unknown''"] st show ?thesis by simp
qed

text \<open>With both, one of the two groups overwrites the other: the counts no longer add up to the
  number of entries.\<close>

lemma by_model_collision_loses_entries:
  "let c = wit_cache\<lparr>inner := (inner wit_cache)\<lparr>entries :=
         [wit_row, wit_row\<lparr>r_key := ''k2'', r_model := Some ''unknown''\<rparr>]\<rparr>\<rparr>
   in \<exists>st. cache_stats_of no_fault c = Inr st \<and> entry_count st = 2
        \<and> by_model st = [''unknown'' \<mapsto> 1]"
  by (simp add: cache_stats_of_def group_by_model_def Let_def wit_cache_def wit_row_def)

end
