(* ===== verification/Utf8.thy ===== *)
theory Utf8
  imports Prelude
begin

text \<open>
  UTF-8 as the standard library decides it: \<open>std::str::from_utf8\<close> with the
  \<open>valid_up_to\<close> of its error, \<open>String::from_utf8_lossy\<close> and \<open>str::is_char_boundary\<close>.
  The well-formed sequences are those of the Unicode standard's table 3-7. The lemmas give
  the facts the streaming code rests on: validity of concatenations, of the pieces cut at a
  character boundary, and of the carried-over tail of a chunk.
\<close>

definition cont :: "char \<Rightarrow> bool" where
  "cont c \<longleftrightarrow> 0x80 \<le> byte c \<and> byte c \<le> 0xBF"

text \<open>The range of the second byte, by the first.\<close>

definition second_ok :: "char \<Rightarrow> char \<Rightarrow> bool" where
  "second_ok b c \<longleftrightarrow>
     (if byte b = 0xE0 then 0xA0 \<le> byte c \<and> byte c \<le> 0xBF
      else if byte b = 0xED then 0x80 \<le> byte c \<and> byte c \<le> 0x9F
      else if byte b = 0xF0 then 0x90 \<le> byte c \<and> byte c \<le> 0xBF
      else if byte b = 0xF4 then 0x80 \<le> byte c \<and> byte c \<le> 0x8F
      else cont c)"

text \<open>The number of bytes a leading byte announces; 0 for a byte that leads nothing.\<close>

definition utf8_width :: "char \<Rightarrow> nat" where
  "utf8_width b =
     (if byte b < 0x80 then 1
      else if 0xC2 \<le> byte b \<and> byte b \<le> 0xDF then 2
      else if 0xE0 \<le> byte b \<and> byte b \<le> 0xEF then 3
      else if 0xF0 \<le> byte b \<and> byte b \<le> 0xF4 then 4
      else 0)"

text \<open>The length of the well-formed sequence at the front, 0 when there is none.\<close>

fun scalar_len :: "bytes \<Rightarrow> nat" where
  "scalar_len [] = 0"
| "scalar_len (b # bs) =
     (if utf8_width b = 1 then 1
      else if utf8_width b = 2 then (case bs of c # _ \<Rightarrow> if cont c then 2 else 0 | _ \<Rightarrow> 0)
      else if utf8_width b = 3 then
        (case bs of c # d # _ \<Rightarrow> if second_ok b c \<and> cont d then 3 else 0 | _ \<Rightarrow> 0)
      else if utf8_width b = 4 then
        (case bs of c # d # e # _ \<Rightarrow> if second_ok b c \<and> cont d \<and> cont e then 4 else 0 | _ \<Rightarrow> 0)
      else 0)"

text \<open>The length of the maximal ill-formed part at the front, one replacement character each.\<close>

fun bad_len :: "bytes \<Rightarrow> nat" where
  "bad_len [] = 0"
| "bad_len (b # bs) =
     (if utf8_width b = 3 then
        (case bs of c # _ \<Rightarrow> if second_ok b c then 2 else 1 | _ \<Rightarrow> 1)
      else if utf8_width b = 4 then
        (case bs of c # d # _ \<Rightarrow> if second_ok b c then (if cont d then 3 else 2) else 1
                  | [c] \<Rightarrow> if second_ok b c then 2 else 1
                  | [] \<Rightarrow> 1)
      else 1)"

lemma bad_len_pos: "bs \<noteq> [] \<Longrightarrow> 0 < bad_len bs"
  by (cases bs) (auto split: list.splits)

lemma scalar_len_le: "scalar_len bs \<le> length bs"
  by (cases bs) (auto split: list.splits)

text \<open>\<open>Utf8Error::valid_up_to\<close>: the length of the longest well-formed prefix.\<close>

function valid_up_to :: "bytes \<Rightarrow> nat" where
  "valid_up_to bs =
     (if scalar_len bs = 0 then 0 else scalar_len bs + valid_up_to (drop (scalar_len bs) bs))"
  by pat_completeness auto
termination
proof (relation "measure length")
  fix bs :: bytes
  assume "scalar_len bs \<noteq> 0"
  then show "(drop (scalar_len bs) bs, bs) \<in> measure length"
    using scalar_len_le[of bs] by simp
qed simp

declare valid_up_to.simps [simp del]

definition valid_utf8 :: "bytes \<Rightarrow> bool" where
  "valid_utf8 bs \<longleftrightarrow> valid_up_to bs = length bs"

text \<open>\<open>str::from_utf8\<close>: the text, or the \<open>valid_up_to\<close> of the error.\<close>

definition from_utf8 :: "bytes \<Rightarrow> nat + bytes" where
  "from_utf8 bs = (if valid_utf8 bs then Inr bs else Inl (valid_up_to bs))"

definition replacement :: bytes where
  "replacement = [CHR 0xEF, CHR 0xBF, CHR 0xBD]"

text \<open>\<open>String::from_utf8_lossy\<close>.\<close>

function from_utf8_lossy :: "bytes \<Rightarrow> bytes" where
  "from_utf8_lossy bs =
     (if bs = [] then []
      else if scalar_len bs \<noteq> 0 then
        take (scalar_len bs) bs @ from_utf8_lossy (drop (scalar_len bs) bs)
      else replacement @ from_utf8_lossy (drop (bad_len bs) bs))"
  by pat_completeness auto
termination
proof (relation "measure length")
  fix bs :: bytes
  assume "bs \<noteq> []"
  then show "(drop (bad_len bs) bs, bs) \<in> measure length"
    using bad_len_pos[of bs] by simp
next
  fix bs :: bytes
  assume "bs \<noteq> []" and "scalar_len bs \<noteq> 0"
  then show "(drop (scalar_len bs) bs, bs) \<in> measure length"
    using scalar_len_le[of bs] by simp
qed simp

declare from_utf8_lossy.simps [simp del]

text \<open>\<open>str::is_char_boundary\<close>.\<close>

definition is_char_boundary :: "bytes \<Rightarrow> nat \<Rightarrow> bool" where
  "is_char_boundary s i \<longleftrightarrow> i = 0 \<or> i = length s \<or> (i < length s \<and> \<not> cont (s ! i))"

subsection \<open>One sequence at a time\<close>

lemma valid_up_to_le: "valid_up_to bs \<le> length bs"
proof (induction bs rule: valid_up_to.induct)
  case (1 bs)
  show ?case
  proof (cases "scalar_len bs = 0")
    case True
    then show ?thesis by (simp add: valid_up_to.simps)
  next
    case False
    with 1 scalar_len_le[of bs] show ?thesis by (subst valid_up_to.simps) simp
  qed
qed

lemma valid_utf8_Nil [simp]: "valid_utf8 []"
  by (simp add: valid_utf8_def valid_up_to.simps)

lemma scalar_len_append: "scalar_len a \<noteq> 0 \<Longrightarrow> scalar_len (a @ b) = scalar_len a"
  by (cases a) (auto split: list.splits if_splits)

text \<open>Where the front of a longer text is a full sequence, the shorter text either holds
  all of it or none.\<close>

lemma scalar_len_append_zero:
  "scalar_len a = 0 \<Longrightarrow> scalar_len (a @ b) \<noteq> 0 \<Longrightarrow> length a < scalar_len (a @ b)"
  by (cases a) (auto split: list.splits if_splits)

lemma scalar_len_take: "scalar_len bs \<noteq> 0 \<Longrightarrow> scalar_len (take (scalar_len bs) bs) = scalar_len bs"
  by (cases bs) (auto simp: numeral_eq_Suc split: list.splits if_splits)

lemma valid_utf8_step:
  "bs \<noteq> [] \<Longrightarrow> valid_utf8 bs \<longleftrightarrow> scalar_len bs \<noteq> 0 \<and> valid_utf8 (drop (scalar_len bs) bs)"
  using scalar_len_le[of bs]
  by (auto simp: valid_utf8_def valid_up_to.simps[of bs])

text \<open>Induction over the sequences of a well-formed text.\<close>

lemma valid_utf8_induct [consumes 1, case_names Nil Scalar]:
  assumes "valid_utf8 bs"
    and "P []"
    and "\<And>a b. scalar_len a = length a \<Longrightarrow> a \<noteq> [] \<Longrightarrow> valid_utf8 b \<Longrightarrow> P b \<Longrightarrow> P (a @ b)"
  shows "P bs"
  using assms(1)
proof (induction "length bs" arbitrary: bs rule: less_induct)
  case less
  show ?case
  proof (cases "bs = []")
    case True
    with assms(2) show ?thesis by simp
  next
    case False
    let ?n = "scalar_len bs"
    have n: "?n \<noteq> 0" and v: "valid_utf8 (drop ?n bs)"
      using less.prems valid_utf8_step[OF False] by auto
    have len: "?n \<le> length bs" by (rule scalar_len_le)
    have "P (drop ?n bs)" using less.hyps[of "drop ?n bs"] v n len by simp
    moreover have "scalar_len (take ?n bs) = length (take ?n bs)"
      using scalar_len_take[OF n] len by simp
    ultimately have "P (take ?n bs @ drop ?n bs)"
      using assms(3)[of "take ?n bs" "drop ?n bs"] v n False by simp
    then show ?thesis by simp
  qed
qed

lemma valid_utf8_scalar_append:
  "scalar_len a = length a \<Longrightarrow> a \<noteq> [] \<Longrightarrow> valid_utf8 (a @ b) \<longleftrightarrow> valid_utf8 b"
  by (subst valid_utf8_step) (auto simp: scalar_len_append)

lemma valid_utf8_append: "valid_utf8 a \<Longrightarrow> valid_utf8 (a @ b) \<longleftrightarrow> valid_utf8 b"
proof (induction a rule: valid_utf8_induct)
  case (Scalar a b')
  then show ?case by (simp add: valid_utf8_scalar_append)
qed simp

lemma valid_utf8_appendI: "valid_utf8 a \<Longrightarrow> valid_utf8 b \<Longrightarrow> valid_utf8 (a @ b)"
  by (simp add: valid_utf8_append)

lemma valid_utf8_concat: "(\<And>x. x \<in> set xs \<Longrightarrow> valid_utf8 x) \<Longrightarrow> valid_utf8 (concat xs)"
  by (induction xs) (auto intro: valid_utf8_appendI)

text \<open>The prefix up to \<open>valid_up_to\<close> is well-formed.\<close>

lemma valid_utf8_take_valid_up_to: "valid_utf8 (take (valid_up_to bs) bs)"
proof (induction bs rule: valid_up_to.induct)
  case (1 bs)
  show ?case
  proof (cases "scalar_len bs = 0")
    case True
    then show ?thesis by (simp add: valid_up_to.simps)
  next
    case False
    let ?n = "scalar_len bs"
    have "take (valid_up_to bs) bs = take ?n bs @ take (valid_up_to (drop ?n bs)) (drop ?n bs)"
      by (subst valid_up_to.simps) (simp add: False take_add)
    moreover have "valid_utf8 (take ?n bs)"
      using scalar_len_take[OF False] scalar_len_le[of bs] False
      by (subst valid_utf8_step) auto
    ultimately show ?thesis using 1[OF False] by (simp add: valid_utf8_appendI)
  qed
qed

lemma from_utf8_Inl_prefix: "from_utf8 bs = Inl n \<Longrightarrow> valid_utf8 (take n bs) \<and> n < length bs"
  using valid_up_to_le[of bs] valid_utf8_take_valid_up_to[of bs]
  by (auto simp: from_utf8_def valid_utf8_def split: if_splits)

text \<open>Cutting a well-formed text at a well-formed prefix leaves a well-formed rest: the
  carry of the chunk splitter.\<close>

lemma valid_utf8_drop_valid_up_to:
  "valid_utf8 (a @ b) \<Longrightarrow> valid_utf8 (drop (valid_up_to a) a @ b)"
  by (metis append.assoc append_take_drop_id valid_utf8_append valid_utf8_take_valid_up_to)

subsection \<open>ASCII and character boundaries\<close>

definition ascii :: "bytes \<Rightarrow> bool" where
  "ascii bs \<longleftrightarrow> (\<forall>c \<in> set bs. byte c < 0x80)"

lemma scalar_len_ascii: "byte c < 0x80 \<Longrightarrow> scalar_len (c # cs) = 1"
  by (simp add: utf8_width_def)

lemma valid_utf8_Cons_ascii: "byte c < 0x80 \<Longrightarrow> valid_utf8 (c # cs) \<longleftrightarrow> valid_utf8 cs"
  by (subst valid_utf8_step) (auto simp: utf8_width_def)

lemma ascii_valid_utf8: "ascii bs \<Longrightarrow> valid_utf8 bs"
  by (induction bs) (auto simp: ascii_def valid_utf8_Cons_ascii)

text \<open>A sequence starts with a byte that is no continuation byte, and all its other bytes are.\<close>

lemma scalar_head: "scalar_len (b # bs) \<noteq> 0 \<Longrightarrow> \<not> cont b"
  by (auto simp: cont_def utf8_width_def split: if_splits)

lemma second_ok_cont: "second_ok b c \<Longrightarrow> cont c"
  by (auto simp: second_ok_def cont_def split: if_splits)

lemma utf8_width_1_iff: "utf8_width b = 1 \<longleftrightarrow> byte b < 0x80"
  by (simp add: utf8_width_def)

lemma utf8_width_high: "utf8_width b \<noteq> 1 \<Longrightarrow> 0x80 \<le> byte b"
  by (simp add: utf8_width_def split: if_splits)

lemma scalar_shape:
  assumes "scalar_len bs = length bs" and "bs \<noteq> []"
  shows "(\<exists>b. bs = [b] \<and> byte b < 0x80)
    \<or> (\<exists>b c. bs = [b, c] \<and> 0x80 \<le> byte b \<and> cont c)
    \<or> (\<exists>b c d. bs = [b, c, d] \<and> 0x80 \<le> byte b \<and> cont c \<and> cont d)
    \<or> (\<exists>b c d e. bs = [b, c, d, e] \<and> 0x80 \<le> byte b \<and> cont c \<and> cont d \<and> cont e)"
proof (cases bs)
  case Nil
  with assms show ?thesis by simp
next
  case (Cons b cs)
  have len: "scalar_len (b # cs) = Suc (length cs)" using assms Cons by simp
  consider "utf8_width b = 1" | "utf8_width b = 2" | "utf8_width b = 3" | "utf8_width b = 4"
    | "utf8_width b \<notin> {1, 2, 3, 4}" by blast
  then show ?thesis
  proof cases
    case 1
    with len Cons utf8_width_1_iff[of b] show ?thesis by simp
  next
    case 2
    with len Cons utf8_width_high[of b] show ?thesis
      by (simp split: list.splits if_splits)
  next
    case 3
    with len Cons utf8_width_high[of b] show ?thesis
      by (auto split: list.splits if_splits dest: second_ok_cont)
  next
    case 4
    with len Cons utf8_width_high[of b] show ?thesis
      by (auto split: list.splits if_splits dest: second_ok_cont)
  next
    case 5
    with len show ?thesis by simp
  qed
qed

lemma scalar_tail:
  assumes "scalar_len bs = length bs" and "0 < i" and "i < length bs"
  shows "cont (bs ! i) \<and> 0x80 \<le> byte (hd bs)"
proof -
  have "bs \<noteq> []" using assms(3) by auto
  from scalar_shape[OF assms(1) this] assms(2,3) show ?thesis
    by (auto simp: nth_Cons less_Suc_eq split: nat.splits)
qed

lemma valid_utf8_first_not_cont: "valid_utf8 (b # bs) \<Longrightarrow> \<not> cont b"
  using valid_utf8_step[of "b # bs"] scalar_head by blast

lemma not_cont_after_scalar: "valid_utf8 b \<Longrightarrow> b \<noteq> [] \<Longrightarrow> \<not> cont (b ! 0)"
  by (cases b) (auto dest: valid_utf8_first_not_cont)

text \<open>In well-formed text no continuation byte follows an ASCII byte.\<close>

lemma valid_utf8_after_ascii:
  "valid_utf8 bs \<Longrightarrow> Suc i < length bs \<Longrightarrow> byte (bs ! i) < 0x80 \<Longrightarrow> \<not> cont (bs ! Suc i)"
proof (induction bs arbitrary: i rule: valid_utf8_induct)
  case Nil
  then show ?case by simp
next
  case (Scalar a b)
  consider "Suc i < length a" | "Suc i = length a" | "length a < Suc i" by linarith
  then show ?case
  proof cases
    case 1
    have "0x80 \<le> byte (a ! i)"
    proof (cases i)
      case 0
      then show ?thesis using scalar_tail[OF Scalar(1), of "Suc 0"] 1 Scalar(2) by (simp add: hd_conv_nth)
    next
      case (Suc j)
      then show ?thesis using scalar_tail[OF Scalar(1), of i] 1 by (simp add: cont_def)
    qed
    with Scalar.prems 1 show ?thesis by (simp add: nth_append)
  next
    case 2
    with Scalar.prems(1) have "b \<noteq> []" by auto
    with not_cont_after_scalar[OF Scalar(3)] 2 show ?thesis by (simp add: nth_append)
  next
    case 3
    then obtain j where j: "i = length a + j" by (metis le_Suc_ex less_Suc_eq_le)
    with Scalar.prems Scalar.IH[of j] show ?thesis
      by (simp add: nth_append)
  qed
qed

text \<open>A character boundary cuts well-formed text into two well-formed pieces.\<close>

lemma valid_utf8_take_boundary:
  "valid_utf8 bs \<Longrightarrow> is_char_boundary bs i \<Longrightarrow> valid_utf8 (take i bs)"
proof (induction bs arbitrary: i rule: valid_utf8_induct)
  case Nil
  then show ?case by simp
next
  case (Scalar a b)
  show ?case
  proof (cases "i < length a")
    case True
    have "i = 0"
    proof (rule ccontr)
      assume "i \<noteq> 0"
      with scalar_tail[OF Scalar(1), of i] True have "cont ((a @ b) ! i)" by (simp add: nth_append)
      with Scalar.prems True \<open>i \<noteq> 0\<close> show False by (auto simp: is_char_boundary_def)
    qed
    then show ?thesis by simp
  next
    case False
    then obtain j where j: "i = length a + j" by (metis le_Suc_ex not_less)
    have "is_char_boundary b j"
      using Scalar.prems not_cont_after_scalar[OF Scalar(3)]
      by (auto simp: is_char_boundary_def j nth_append)
    then have "valid_utf8 (take j b)" by (rule Scalar.IH)
    then show ?thesis
      using valid_utf8_scalar_append[OF Scalar(1,2)] by (simp add: j)
  qed
qed

lemma valid_utf8_drop_boundary:
  "valid_utf8 bs \<Longrightarrow> is_char_boundary bs i \<Longrightarrow> valid_utf8 (drop i bs)"
  by (metis append_take_drop_id valid_utf8_append valid_utf8_take_boundary)

subsection \<open>Lossy decoding\<close>

lemma from_utf8_lossy_valid: "valid_utf8 bs \<Longrightarrow> from_utf8_lossy bs = bs"
proof (induction bs rule: from_utf8_lossy.induct)
  case (1 bs)
  show ?case
  proof (cases "bs = []")
    case True
    then show ?thesis by (simp add: from_utf8_lossy.simps)
  next
    case False
    with 1 valid_utf8_step[OF False] show ?thesis by (subst from_utf8_lossy.simps) simp
  qed
qed

lemma valid_utf8_replacement: "valid_utf8 replacement"
  by (subst valid_utf8_step) (simp_all add: replacement_def utf8_width_def second_ok_def cont_def)

lemma valid_utf8_from_utf8_lossy: "valid_utf8 (from_utf8_lossy bs)"
proof (induction bs rule: from_utf8_lossy.induct)
  case (1 bs)
  consider "bs = []" | "bs \<noteq> []" "scalar_len bs \<noteq> 0" | "bs \<noteq> []" "scalar_len bs = 0" by blast
  then show ?case
  proof cases
    case 1
    then show ?thesis by (simp add: from_utf8_lossy.simps)
  next
    case 2
    have "valid_utf8 (take (scalar_len bs) bs)"
      using scalar_len_take[OF 2(2)] scalar_len_le[of bs] 2 by (subst valid_utf8_step) auto
    with 1(1)[OF 2] 2 show ?thesis
      by (subst from_utf8_lossy.simps) (simp add: valid_utf8_appendI)
  next
    case 3
    with 1(2)[OF 3(1)] show ?thesis
      by (subst from_utf8_lossy.simps) (simp add: valid_utf8_appendI valid_utf8_replacement)
  qed
qed

end
