(* ===== verification/Json.thy ===== *)
theory Json
  imports OrdMap Utf8
begin

text \<open>
  The JSON values the code works on: \<open>serde_json::Value\<close> with its public constructors, and
  the projections the code calls on it. An object is a \<open>Map<String, Value>\<close>, that is, an
  ordered map. \<open>Number\<close> keeps \<open>serde_json\<close>'s three cases; a float is its bit pattern.

  The parser and the printer (\<open>from_slice\<close>, \<open>from_str\<close>, \<open>to_string\<close>) are not
  part of the repository: the definitions that call them take them as the record
  \<open>serde\<close>, and the theorems state what they need of them.
\<close>

datatype json_number =
    PosInt "64 word"
  | NegInt "64 word"
  | Float "64 word"

datatype json =
    JNull
  | JBool bool
  | JNumber json_number
  | JString string
  | JArray "json list"
  | JObject "(string \<times> json) list"

record serde =
  parse_json :: "bytes \<Rightarrow> json option"
  print_json :: "json \<Rightarrow> string option"

subsection \<open>Projections\<close>

text \<open>\<open>Value::get\<close> with a string and with a number.\<close>

fun jget :: "json \<Rightarrow> string \<Rightarrow> json option" where
  "jget (JObject m) k = map_of m k"
| "jget _ k = None"

fun jget_idx :: "json \<Rightarrow> nat \<Rightarrow> json option" where
  "jget_idx (JArray vs) i = (if i < length vs then Some (vs ! i) else None)"
| "jget_idx _ i = None"

text \<open>The indexing operator \<open>json["k"]\<close> yields \<open>Null\<close> where \<open>get\<close> yields nothing.\<close>

definition jindex :: "json \<Rightarrow> string \<Rightarrow> json" where
  "jindex v k = (case jget v k of Some w \<Rightarrow> w | None \<Rightarrow> JNull)"

fun as_str :: "json \<Rightarrow> string option" where
  "as_str (JString s) = Some s"
| "as_str _ = None"

fun as_u64 :: "json \<Rightarrow> 64 word option" where
  "as_u64 (JNumber (PosInt n)) = Some n"
| "as_u64 _ = None"

fun as_bool :: "json \<Rightarrow> bool option" where
  "as_bool (JBool b) = Some b"
| "as_bool _ = None"

fun as_array :: "json \<Rightarrow> json list option" where
  "as_array (JArray vs) = Some vs"
| "as_array _ = None"

fun as_object :: "json \<Rightarrow> (string \<times> json) list option" where
  "as_object (JObject m) = Some m"
| "as_object _ = None"

definition is_null :: "json \<Rightarrow> bool" where
  "is_null v \<longleftrightarrow> v = JNull"

definition is_string :: "json \<Rightarrow> bool" where
  "is_string v \<longleftrightarrow> as_str v \<noteq> None"

text \<open>\<open>Value::pointer\<close>: the reference tokens of the pointer, applied one after the other. A
  token that meets an array is an index: digits without a leading zero or sign.\<close>

definition is_digit :: "char \<Rightarrow> bool" where
  "is_digit c \<longleftrightarrow> 48 \<le> byte c \<and> byte c \<le> 57"

definition parse_index :: "string \<Rightarrow> nat option" where
  "parse_index s =
     (if s = [] \<or> (hd s = CHR ''0'' \<and> length s \<noteq> 1) \<or> \<not> list_all is_digit s then None
      else Some (foldl (\<lambda>n c. 10 * n + (byte c - 48)) 0 s))"

fun jpointer :: "json \<Rightarrow> string list \<Rightarrow> json option" where
  "jpointer v [] = Some v"
| "jpointer v (t # ts) =
     (case (case v of
              JObject m \<Rightarrow> map_of m t
            | JArray vs \<Rightarrow> (case parse_index t of Some i \<Rightarrow> jget_idx v i | None \<Rightarrow> None)
            | _ \<Rightarrow> None)
      of Some w \<Rightarrow> jpointer w ts | None \<Rightarrow> None)"

lemma parse_index_0 [simp]: "parse_index ''0'' = Some 0"
  by (simp add: parse_index_def is_digit_def)

text \<open>An object literal of the macro \<open>json!\<close>: its pairs are inserted one by one.\<close>

definition jobj :: "(string \<times> json) list \<Rightarrow> json" where
  "jobj ps = JObject (om_from ps)"

lemma jget_jobj: "jget (jobj ps) k = map_of (rev ps) k"
  by (simp add: jobj_def map_of_om_from)

subsection \<open>Well-formed values\<close>

text \<open>Every object is an ordered map. This is what a parsed value satisfies: it is built by
  insertions into a \<open>BTreeMap\<close>.\<close>

fun json_wf :: "json \<Rightarrow> bool" where
  "json_wf (JArray vs) = list_all json_wf vs"
| "json_wf (JObject m) = (om_sorted m \<and> list_all (\<lambda>(k, v). json_wf v) m)"
| "json_wf _ = True"

lemma json_wf_map_of: "json_wf (JObject m) \<Longrightarrow> map_of m k = Some v \<Longrightarrow> json_wf v"
  by (auto simp: list_all_iff dest!: map_of_SomeD)

subsection \<open>Writing a value in place\<close>

text \<open>A chain of \<open>get_mut\<close> calls followed by an assignment through the reference: nothing
  when a step of the chain is missing.\<close>

datatype jstep = Key string | Pos nat

fun jset :: "jstep list \<Rightarrow> json \<Rightarrow> json \<Rightarrow> json option" where
  "jset [] w v = Some w"
| "jset (Key k # p) w v =
     (case v of
        JObject m \<Rightarrow>
          (case map_of m k of
             Some u \<Rightarrow> map_option (\<lambda>u'. JObject (om_insert k u' m)) (jset p w u)
           | None \<Rightarrow> None)
      | _ \<Rightarrow> None)"
| "jset (Pos i # p) w v =
     (case v of
        JArray vs \<Rightarrow>
          (if i < length vs
           then map_option (\<lambda>u'. JArray (vs[i := u'])) (jset p w (vs ! i))
           else None)
      | _ \<Rightarrow> None)"

fun jwalk :: "jstep list \<Rightarrow> json \<Rightarrow> json option" where
  "jwalk [] v = Some v"
| "jwalk (Key k # p) v = (case jget v k of Some u \<Rightarrow> jwalk p u | None \<Rightarrow> None)"
| "jwalk (Pos i # p) v = (case jget_idx v i of Some u \<Rightarrow> jwalk p u | None \<Rightarrow> None)"

lemma jset_None_iff: "jset p w v = None \<longleftrightarrow> jwalk p v = None"
proof (induction p arbitrary: v)
  case (Cons st p)
  then show ?case by (cases st; cases v) (auto split: option.splits)
qed simp

lemma jwalk_jset_same: "jset p w v = Some v' \<Longrightarrow> jwalk p v' = Some w"
  by (induction p w v arbitrary: v' rule: jset.induct)
     (auto split: json.splits option.splits if_splits)

end
