(* ===== verification/Provider.thy ===== *)
theory Provider
  imports Prelude
begin

text \<open>
  \<open>crates/lcp-core/src/provider.rs\<close>: the four upstream providers, their URL prefixes and
  default upstreams, the body fields left out of the cache key, and the model name that Gemini
  carries in its URL path.
\<close>

datatype provider = Anthropic | OpenAi | OpenRouter | Gemini

fun path_prefix :: "provider \<Rightarrow> string" where
  "path_prefix Anthropic = ''anthropic''"
| "path_prefix OpenAi = ''openai''"
| "path_prefix OpenRouter = ''openrouter''"
| "path_prefix Gemini = ''gemini''"

fun default_upstream :: "provider \<Rightarrow> string" where
  "default_upstream Anthropic = ''https://api.anthropic.com''"
| "default_upstream OpenAi = ''https://api.openai.com''"
| "default_upstream OpenRouter = ''https://openrouter.ai/api/v1''"
| "default_upstream Gemini = ''https://generativelanguage.googleapis.com''"

definition from_prefix :: "string \<Rightarrow> provider option" where
  "from_prefix s =
     (if s = ''anthropic'' then Some Anthropic
      else if s = ''openai'' then Some OpenAi
      else if s = ''openrouter'' then Some OpenRouter
      else if s = ''gemini'' then Some Gemini
      else None)"

fun normalization_strip_fields :: "provider \<Rightarrow> string list" where
  "normalization_strip_fields Anthropic = [''metadata'']"
| "normalization_strip_fields OpenAi = [''user'']"
| "normalization_strip_fields OpenRouter = [''user'', ''provider'', ''route'']"
| "normalization_strip_fields Gemini = []"

text \<open>\<open>impl Display\<close>.\<close>

definition display_provider :: "provider \<Rightarrow> string" where
  "display_provider p = path_prefix p"

text \<open>The model of \<open>/models/{model}:{verb}\<close>: the text between the first marker and the first
  colon after it.\<close>

abbreviation models_marker :: string where
  "models_marker \<equiv> ''/models/''"

definition extract_gemini_model :: "string \<Rightarrow> string option" where
  "extract_gemini_model path =
     (case find_sub models_marker path of
        None \<Rightarrow> None
      | Some idx \<Rightarrow>
          let after_marker = drop (idx + length models_marker) path
          in (case find_sub '':'' after_marker of
                None \<Rightarrow> None
              | Some e \<Rightarrow> let model = take e after_marker in if model = [] then None else Some model))"

fun extract_model_from_path :: "provider \<Rightarrow> string \<Rightarrow> string option" where
  "extract_model_from_path Gemini path = extract_gemini_model path"
| "extract_model_from_path _ path = None"

subsection \<open>Prefixes\<close>

lemma from_prefix_path_prefix: "from_prefix (path_prefix p) = Some p"
  by (cases p) (simp_all add: from_prefix_def)

lemma from_prefix_Some_iff: "from_prefix s = Some p \<longleftrightarrow> s = path_prefix p"
  by (cases p) (auto simp: from_prefix_def)

lemma path_prefix_no_slash: "CHR ''/'' \<notin> set (path_prefix p)"
  by (cases p) simp_all

lemma model_not_stripped: "''model'' \<notin> set (normalization_strip_fields p)"
  by (cases p) simp_all

subsection \<open>The Gemini model\<close>

lemma find_colon: "CHR '':'' \<notin> set m \<Longrightarrow> find_sub '':'' (m @ CHR '':'' # r) = Some (length m)"
  by (induction m) (simp_all add: starts_with_def)

lemma find_colon_no_colon: "find_sub '':'' s = Some e \<Longrightarrow> CHR '':'' \<notin> set (take e s)"
proof
  assume f: "find_sub '':'' s = Some e" and "CHR '':'' \<in> set (take e s)"
  then obtain j where j: "j < e" "j < length s" "s ! j = CHR '':''"
    by (auto simp: in_set_conv_nth)
  then have "drop j s = CHR '':'' # drop (Suc j) s" by (metis Cons_nth_drop_Suc)
  then have "starts_with (drop j s) '':''" by (simp add: starts_with_def)
  with find_sub_first[OF f j(1)] show False by simp
qed

text \<open>Every extracted model comes from a path of the documented shape, is not empty and holds
  no colon; and the first marker decides.\<close>

lemma extract_gemini_model_sound:
  assumes "extract_gemini_model path = Some m"
  shows "\<exists>pre verb. path = pre @ models_marker @ m @ '':'' @ verb
     \<and> m \<noteq> [] \<and> CHR '':'' \<notin> set m \<and> find_sub models_marker path = Some (length pre)"
proof -
  from assms obtain idx where idx: "find_sub models_marker path = Some idx"
    by (auto simp: extract_gemini_model_def split: option.splits)
  let ?rest = "drop (idx + length models_marker) path"
  from assms idx obtain e where e: "find_sub '':'' ?rest = Some e" and m: "m = take e ?rest" "m \<noteq> []"
    by (auto simp: extract_gemini_model_def Let_def split: option.splits if_splits)
  have "path = take idx path @ models_marker @ ?rest"
    by (rule find_sub_split[OF idx])
  also have "?rest = m @ '':'' @ drop (e + length '':'') ?rest"
    using find_sub_split[OF e] by (simp add: m(1))
  finally have path: "path = take idx path @ models_marker @ m @ '':'' @ drop (e + length '':'') ?rest" .
  have "length (take idx path) = idx" using find_sub_Some[OF idx] by simp
  with idx have "find_sub models_marker path = Some (length (take idx path))" by simp
  moreover have "CHR '':'' \<notin> set m" using find_colon_no_colon[OF e] m(1) by simp
  ultimately show ?thesis using path m(2) by blast
qed

lemma extract_gemini_model_complete:
  assumes "find_sub models_marker (pre @ models_marker @ m @ '':'' @ verb) = Some (length pre)"
    and "m \<noteq> []" and "CHR '':'' \<notin> set m"
  shows "extract_gemini_model (pre @ models_marker @ m @ '':'' @ verb) = Some m"
  using assms find_colon[OF assms(3), of verb]
  by (simp add: extract_gemini_model_def)

end
