(* ===== verification/SseFields.thy ===== *)
theory SseFields
  imports Json Provider Exchange "HOL-Library.Product_Lexorder" "HOL-Library.Sublist"
begin

text \<open>
  The content fields of server-sent events, \<open>crates/lcp-server/src/ext/sse_restore.rs\<close>: which
  JSON locations carry text (\<open>extract_fields\<close>), which events end a block or the stream
  (\<open>classify_terminal\<close>), the frame that is emitted for restored text
  (\<open>build_synthetic_sse_frame\<close>), and the writing back of values
  (\<open>apply_restored_fields\<close>, which the source compiles for its tests only).

  The errors of the stream are those of the stream inside it, those of \<open>doppel\<close>, and a restored
  text that is not UTF-8. The \<open>unwrap\<close> calls on the JSON printer are panics of the code: the
  value \<open>Panicked\<close>. The position of a part in its array is a \<open>usize\<close> and a
  \<open>nat\<close> here, since the length of a list in memory bounds it.
\<close>

datatype sse_error =
    StreamError string
  | RestoreError string
  | NonUtf8Restored nat
  | Panicked

subsection \<open>Keys of the accumulation buffers\<close>

datatype field_key =
    AnthropicDelta string "64 word"
  | OpenAiContent
  | OpenAiToolCall "64 word"
  | OpenAiReasoning
  | OpenAiFunctionCallArgs
  | OpenAiRefusal
  | ResponsesApiDelta string
  | ResponsesApiDone string
  | GeminiText bool
  | GeminiCodeExecOutput nat
  | GeminiFuncCallArg nat string

text \<open>The derived order: the constructors in the order of their declaration, then the arguments
  from left to right.\<close>

fun key_rank :: "field_key \<Rightarrow> nat \<times> string \<times> nat \<times> string" where
  "key_rank (AnthropicDelta t i) = (0, t, unat i, [])"
| "key_rank OpenAiContent = (1, [], 0, [])"
| "key_rank (OpenAiToolCall i) = (2, [], unat i, [])"
| "key_rank OpenAiReasoning = (3, [], 0, [])"
| "key_rank OpenAiFunctionCallArgs = (4, [], 0, [])"
| "key_rank OpenAiRefusal = (5, [], 0, [])"
| "key_rank (ResponsesApiDelta e) = (6, e, 0, [])"
| "key_rank (ResponsesApiDone e) = (7, e, 0, [])"
| "key_rank (GeminiText b) = (8, [], (if b then 1 else 0), [])"
| "key_rank (GeminiCodeExecOutput i) = (9, [], i, [])"
| "key_rank (GeminiFuncCallArg i k) = (10, [], i, k)"

lemma key_rank_inject: "key_rank a = key_rank b \<longleftrightarrow> a = b"
  by (cases a; cases b) (auto simp: word_unat_eq_iff split: if_splits)

instantiation field_key :: linorder
begin

definition less_eq_field_key :: "field_key \<Rightarrow> field_key \<Rightarrow> bool" where
  "less_eq_field_key a b \<longleftrightarrow> key_rank a \<le> key_rank b"

definition less_field_key :: "field_key \<Rightarrow> field_key \<Rightarrow> bool" where
  "less_field_key a b \<longleftrightarrow> key_rank a < key_rank b"

instance
  by standard
     (auto simp: less_eq_field_key_def less_field_key_def key_rank_inject dest: antisym)

end

subsection \<open>Extraction\<close>

definition extract_anthropic :: "json \<Rightarrow> (field_key \<times> string) list" where
  "extract_anthropic json =
     (if as_str (jindex json ''type'') \<noteq> Some ''content_block_delta'' then []
      else
        let index = (case as_u64 (jindex json ''index'') of Some i \<Rightarrow> i | None \<Rightarrow> 0);
            delta = jindex json ''delta''
        in case as_str (jindex delta ''type'') of
             None \<Rightarrow> []
           | Some delta_type \<Rightarrow>
               if delta_type = ''text_delta'' then
                 (case as_str (jindex delta ''text'') of
                    Some text \<Rightarrow> [(AnthropicDelta ''text_delta'' index, text)] | None \<Rightarrow> [])
               else if delta_type = ''thinking_delta'' then
                 (case as_str (jindex delta ''thinking'') of
                    Some text \<Rightarrow> [(AnthropicDelta ''thinking_delta'' index, text)] | None \<Rightarrow> [])
               else if delta_type = ''input_json_delta'' then
                 (case as_str (jindex delta ''partial_json'') of
                    Some text \<Rightarrow> [(AnthropicDelta ''input_json_delta'' index, text)] | None \<Rightarrow> [])
               else [])"

definition extract_responses_api :: "json \<Rightarrow> string \<Rightarrow> (field_key \<times> string) list" where
  "extract_responses_api json et =
     (if et = ''response.output_text.delta'' then
        (case Option.bind (jget json ''delta'') as_str of
           Some text \<Rightarrow> [(ResponsesApiDelta ''response.output_text.delta'', text)] | None \<Rightarrow> [])
      else if et = ''response.output_text.done'' then
        (case Option.bind (jget json ''text'') as_str of
           Some text \<Rightarrow> [(ResponsesApiDone ''response.output_text.done'', text)] | None \<Rightarrow> [])
      else if et = ''response.reasoning_summary_text.delta'' then
        (case Option.bind (jget json ''delta'') as_str of
           Some text \<Rightarrow> [(ResponsesApiDelta ''response.reasoning_summary_text.delta'', text)] | None \<Rightarrow> [])
      else [])"

definition extract_tool_call :: "json \<Rightarrow> (field_key \<times> string) list" where
  "extract_tool_call tc =
     (let tc_index = (case Option.bind (jget tc ''index'') as_u64 of Some i \<Rightarrow> i | None \<Rightarrow> 0)
      in case Option.bind (Option.bind (jget tc ''function'') (\<lambda>f. jget f ''arguments'')) as_str of
           Some args \<Rightarrow> if args = [] then [] else [(OpenAiToolCall tc_index, args)]
         | None \<Rightarrow> [])"

definition extract_chat_delta :: "json \<Rightarrow> (field_key \<times> string) list" where
  "extract_chat_delta delta =
     (case Option.bind (jget delta ''content'') as_str of
        Some text \<Rightarrow> if text = [] then [] else [(OpenAiContent, text)] | None \<Rightarrow> [])
     @ (case Option.bind (jget delta ''reasoning_content'') as_str of
          Some text \<Rightarrow> [(OpenAiReasoning, text)] | None \<Rightarrow> [])
     @ (case Option.bind (jget delta ''tool_calls'') as_array of
          Some tool_calls \<Rightarrow> concat (map extract_tool_call tool_calls) | None \<Rightarrow> [])
     @ (case Option.bind (Option.bind (jget delta ''function_call'') (\<lambda>f. jget f ''arguments'')) as_str of
          Some args \<Rightarrow> if args = [] then [] else [(OpenAiFunctionCallArgs, args)] | None \<Rightarrow> [])
     @ (case Option.bind (jget delta ''refusal'') as_str of
          Some text \<Rightarrow> [(OpenAiRefusal, text)] | None \<Rightarrow> [])"

definition extract_openai :: "json \<Rightarrow> string option \<Rightarrow> (field_key \<times> string) list" where
  "extract_openai json event_type =
     (case event_type of
        Some et \<Rightarrow>
          if starts_with et ''response.'' then extract_responses_api json et
          else (case jpointer json [''choices'', ''0'', ''delta''] of
                  Some delta \<Rightarrow> extract_chat_delta delta | None \<Rightarrow> [])
      | None \<Rightarrow>
          (case jpointer json [''choices'', ''0'', ''delta''] of
             Some delta \<Rightarrow> extract_chat_delta delta | None \<Rightarrow> []))"

definition extract_gemini_part :: "nat \<Rightarrow> json \<Rightarrow> (field_key \<times> string) list" where
  "extract_gemini_part i part =
     (case Option.bind (jget part ''text'') as_str of
        Some text \<Rightarrow>
          [(GeminiText (case Option.bind (jget part ''thought'') as_bool of Some b \<Rightarrow> b | None \<Rightarrow> False), text)]
      | None \<Rightarrow> [])
     @ (case Option.bind (jpointer part [''codeExecutionResult'', ''output'']) as_str of
          Some out \<Rightarrow> [(GeminiCodeExecOutput i, out)] | None \<Rightarrow> [])
     @ (case Option.bind (jpointer part [''functionCall'', ''args'']) as_object of
          Some args \<Rightarrow>
            concat (map (\<lambda>(arg_key, arg_val).
              case as_str arg_val of Some s \<Rightarrow> [(GeminiFuncCallArg i arg_key, s)] | None \<Rightarrow> []) args)
        | None \<Rightarrow> [])"

definition extract_gemini :: "json \<Rightarrow> (field_key \<times> string) list" where
  "extract_gemini json =
     (case Option.bind (jpointer json [''candidates'', ''0'', ''content'', ''parts'']) as_array of
        Some parts \<Rightarrow> concat (map (\<lambda>(i, part). extract_gemini_part i part) (enumerate 0 parts))
      | None \<Rightarrow> [])"

fun extract_fields :: "json \<Rightarrow> provider \<Rightarrow> string option \<Rightarrow> (field_key \<times> string) list" where
  "extract_fields json Anthropic event_type = extract_anthropic json"
| "extract_fields json OpenAi event_type = extract_openai json event_type"
| "extract_fields json OpenRouter event_type = extract_openai json event_type"
| "extract_fields json Gemini event_type = extract_gemini json"

subsection \<open>Terminal events\<close>

datatype terminal_scope =
    Block "64 word"
  | Stream

definition classify_anthropic :: "json \<Rightarrow> terminal_scope option" where
  "classify_anthropic json =
     (case as_str (jindex json ''type'') of
        Some ty \<Rightarrow>
          if ty = ''content_block_stop'' then
            Some (case as_u64 (jindex json ''index'') of Some n \<Rightarrow> Block n | None \<Rightarrow> Stream)
          else if ty = ''message_delta'' \<or> ty = ''message_stop'' then Some Stream
          else None
      | None \<Rightarrow> None)"

definition response_terminals :: "string list" where
  "response_terminals =
     [''response.content_part.done'', ''response.output_item.done'', ''response.completed'',
      ''response.failed'', ''response.cancelled'', ''response.incomplete'']"

definition present_not_null :: "json option \<Rightarrow> bool" where
  "present_not_null v \<longleftrightarrow> (case v of Some w \<Rightarrow> \<not> is_null w | None \<Rightarrow> False)"

definition classify_openai :: "json \<Rightarrow> string option \<Rightarrow> terminal_scope option" where
  "classify_openai json event_type =
     (if (case event_type of Some et \<Rightarrow> et \<in> set response_terminals | None \<Rightarrow> False) then Some Stream
      else if present_not_null (jpointer json [''choices'', ''0'', ''finish_reason'']) then Some Stream
      else None)"

definition classify_gemini :: "json \<Rightarrow> terminal_scope option" where
  "classify_gemini json =
     (if present_not_null (jpointer json [''candidates'', ''0'', ''finishReason'']) then Some Stream
      else None)"

fun classify_terminal :: "json \<Rightarrow> string option \<Rightarrow> provider \<Rightarrow> terminal_scope option" where
  "classify_terminal json event_type Anthropic = classify_anthropic json"
| "classify_terminal json event_type OpenAi = classify_openai json event_type"
| "classify_terminal json event_type OpenRouter = classify_openai json event_type"
| "classify_terminal json event_type Gemini = classify_gemini json"

subsection \<open>Lines of a frame\<close>

text \<open>The event type and the data of a frame, as \<open>process_one_frame\<close> reads them: the first
  line with the prefix, the empty event type being none.\<close>

definition or_else :: "'a option \<Rightarrow> 'a option \<Rightarrow> 'a option" where
  "or_else a b = (case a of Some x \<Rightarrow> Some x | None \<Rightarrow> b)"

fun find_map :: "('a \<Rightarrow> 'b option) \<Rightarrow> 'a list \<Rightarrow> 'b option" where
  "find_map f [] = None"
| "find_map f (x # xs) = (case f x of Some y \<Rightarrow> Some y | None \<Rightarrow> find_map f xs)"

definition event_of_line :: "bytes \<Rightarrow> bytes option" where
  "event_of_line l =
     (case or_else (strip_prefix ''event: '' l) (strip_prefix ''event:'' l) of
        Some s \<Rightarrow> if s = [] then None else Some s | None \<Rightarrow> None)"

definition data_of_line :: "bytes \<Rightarrow> bytes option" where
  "data_of_line l = or_else (strip_prefix ''data: '' l) (strip_prefix ''data:'' l)"

definition frame_event_type :: "bytes \<Rightarrow> bytes option" where
  "frame_event_type frame = find_map event_of_line (str_lines frame)"

definition frame_data :: "bytes \<Rightarrow> bytes option" where
  "frame_data frame = find_map data_of_line (str_lines frame)"

definition is_sse_first_chunk :: "bytes \<Rightarrow> bool" where
  "is_sse_first_chunk bs \<longleftrightarrow>
     starts_with bs ''data:'' \<or> starts_with bs ''event:'' \<or> starts_with bs '': ''
     \<or> starts_with bs (CHR '':'' # [LF])"

subsection \<open>Synthetic frames\<close>

definition json_str :: "serde \<Rightarrow> json \<Rightarrow> sse_error + string" where
  "json_str S v = (case print_json S v of Some s \<Rightarrow> Inr s | None \<Rightarrow> Inl Panicked)"

definition anthropic_value :: "string \<Rightarrow> u64 \<Rightarrow> string \<Rightarrow> json" where
  "anthropic_value delta_type index text =
     jobj [(''type'', JString ''content_block_delta''),
           (''index'', JNumber (PosInt index)),
           (''delta'', jobj [(''type'', JString delta_type),
              (if delta_type = ''thinking_delta'' then ''thinking''
               else if delta_type = ''input_json_delta'' then ''partial_json''
               else ''text'', JString text)])]"

definition chat_value :: "(string \<times> json) list \<Rightarrow> json" where
  "chat_value delta = jobj [(''choices'', JArray [jobj [(''delta'', jobj delta)]])]"

definition gemini_value :: "(string \<times> json) list \<Rightarrow> json" where
  "gemini_value part =
     jobj [(''candidates'', JArray [jobj [(''content'', jobj [(''parts'', JArray [jobj part])])]])]"

fun synthetic_value :: "field_key \<Rightarrow> string \<Rightarrow> json" where
  "synthetic_value (AnthropicDelta delta_type index) text = anthropic_value delta_type index text"
| "synthetic_value OpenAiContent text = chat_value [(''content'', JString text)]"
| "synthetic_value (OpenAiToolCall index) text =
     chat_value [(''tool_calls'', JArray [jobj [(''index'', JNumber (PosInt index)),
       (''function'', jobj [(''arguments'', JString text)])]])]"
| "synthetic_value OpenAiReasoning text = chat_value [(''reasoning_content'', JString text)]"
| "synthetic_value OpenAiFunctionCallArgs text =
     chat_value [(''function_call'', jobj [(''arguments'', JString text)])]"
| "synthetic_value OpenAiRefusal text = chat_value [(''refusal'', JString text)]"
| "synthetic_value (ResponsesApiDelta event_type) text = jobj [(''delta'', JString text)]"
| "synthetic_value (ResponsesApiDone event_type) text = jobj [(''text'', JString text)]"
| "synthetic_value (GeminiText thought) text = gemini_value [(''text'', JString text)]"
| "synthetic_value (GeminiCodeExecOutput part_index) text =
     gemini_value [(''codeExecutionResult'', jobj [(''output'', JString text)])]"
| "synthetic_value (GeminiFuncCallArg part_index arg_key) text =
     gemini_value [(''functionCall'', jobj [(''args'', jobj [(arg_key, JString text)])])]"

fun synthetic_event :: "field_key \<Rightarrow> string option" where
  "synthetic_event (AnthropicDelta delta_type index) = Some ''content_block_delta''"
| "synthetic_event (ResponsesApiDelta event_type) = Some event_type"
| "synthetic_event (ResponsesApiDone event_type) = Some event_type"
| "synthetic_event _ = None"

definition format_frame :: "string option \<Rightarrow> string \<Rightarrow> bytes" where
  "format_frame event_type s =
     (case event_type of Some et \<Rightarrow> ''event: '' @ et @ [LF] | None \<Rightarrow> [])
     @ ''data: '' @ s @ [LF, LF]"

definition build_synthetic_sse_frame :: "serde \<Rightarrow> field_key \<Rightarrow> string \<Rightarrow> sse_error + bytes" where
  "build_synthetic_sse_frame S key text =
     try_then (json_str S (synthetic_value key text))
       (\<lambda>s. Inr (format_frame (synthetic_event key) s))"

subsection \<open>Writing values back\<close>

datatype write_back =
    WbAnthropicDelta string
  | WbOpenAiContent
  | WbOpenAiToolCall nat
  | WbOpenAiReasoning
  | WbOpenAiRefusal
  | WbResponsesApiDelta
  | WbResponsesApiDone
  | WbGeminiPartText nat
  | WbGeminiPartCodeExecOutput nat
  | WbGeminiPartFuncCallArg nat string

abbreviation chat_path :: "jstep list" where
  "chat_path \<equiv> [Key ''choices'', Pos 0, Key ''delta'']"

abbreviation part_path :: "nat \<Rightarrow> jstep list" where
  "part_path i \<equiv> [Key ''candidates'', Pos 0, Key ''content'', Key ''parts'', Pos i]"

fun write_back_path :: "write_back \<Rightarrow> jstep list" where
  "write_back_path (WbAnthropicDelta field_name) = [Key ''delta'', Key field_name]"
| "write_back_path WbOpenAiContent = chat_path @ [Key ''content'']"
| "write_back_path (WbOpenAiToolCall array_pos) =
     chat_path @ [Key ''tool_calls'', Pos array_pos, Key ''function'', Key ''arguments'']"
| "write_back_path WbOpenAiReasoning = chat_path @ [Key ''reasoning_content'']"
| "write_back_path WbOpenAiRefusal = chat_path @ [Key ''refusal'']"
| "write_back_path WbResponsesApiDelta = [Key ''delta'']"
| "write_back_path WbResponsesApiDone = [Key ''text'']"
| "write_back_path (WbGeminiPartText part_index) = part_path part_index @ [Key ''text'']"
| "write_back_path (WbGeminiPartCodeExecOutput part_index) =
     part_path part_index @ [Key ''codeExecutionResult'', Key ''output'']"
| "write_back_path (WbGeminiPartFuncCallArg part_index arg_key) =
     part_path part_index @ [Key ''functionCall'', Key ''args'', Key arg_key]"

text \<open>The error of the loop names the location that is missing; what was written before stays
  written.\<close>

fun apply_restored_fields :: "json \<Rightarrow> (write_back \<times> string) list \<Rightarrow> json \<times> (write_back + unit)" where
  "apply_restored_fields json [] = (json, Inr ())"
| "apply_restored_fields json ((wb, text) # rest) =
     (case jset (write_back_path wb) (JString text) json of
        Some json' \<Rightarrow> apply_restored_fields json' rest
      | None \<Rightarrow> (json, Inl wb))"

subsection \<open>What is assumed of the JSON library\<close>

text \<open>A printed value is one line and parses to the value. The table of a finite number of
  texts is a library for which this holds; the witnesses use it.\<close>

definition json_roundtrip :: "serde \<Rightarrow> bool" where
  "json_roundtrip S \<longleftrightarrow>
     (\<forall>v s. json_wf v \<longrightarrow> print_json S v = Some s \<longrightarrow>
        parse_json S s = Some v \<and> LF \<notin> set s \<and> CR \<notin> set s)"

lemma json_roundtripD:
  "json_roundtrip S \<Longrightarrow> json_wf v \<Longrightarrow> print_json S v = Some s \<Longrightarrow>
     parse_json S s = Some v \<and> LF \<notin> set s \<and> CR \<notin> set s"
  by (simp add: json_roundtrip_def)

definition table_serde :: "(string \<times> json) list \<Rightarrow> serde" where
  "table_serde tab =
     \<lparr>parse_json = map_of tab, print_json = map_of (map (\<lambda>(s, v). (v, s)) tab)\<rparr>"

lemma table_serde_roundtrip:
  assumes "distinct (map fst tab)" and "\<forall>(s, v) \<in> set tab. LF \<notin> set s \<and> CR \<notin> set s"
  shows "json_roundtrip (table_serde tab)"
  using assms by (auto simp: json_roundtrip_def table_serde_def dest!: map_of_SomeD)

subsection \<open>Frames have their lines\<close>

lemma starts_with_Cons: "starts_with (c # s) (d # p) \<longleftrightarrow> c = d \<and> starts_with s p"
  by (auto simp: starts_with_def)

lemma starts_with_Nil [simp]: "starts_with s []"
  by (simp add: starts_with_def)

lemma find_blank_line: "LF \<notin> set a \<Longrightarrow> find_sub [LF, LF] (a @ [LF, LF]) = Some (length a)"
  by (induction a) (auto simp: starts_with_Cons)

lemma find_blank_line_skip:
  "LF \<notin> set a \<Longrightarrow> b \<noteq> [] \<Longrightarrow> hd b \<noteq> LF \<Longrightarrow>
   find_sub [LF, LF] (a @ LF # b) = map_option (\<lambda>i. i + length a + 1) (find_sub [LF, LF] b)"
proof (induction a)
  case Nil
  then show ?case by (cases b) (auto simp: starts_with_Cons)
next
  case (Cons c a)
  then show ?case by (auto simp: starts_with_Cons option.map_comp comp_def)
qed

lemma find_blank_line_format:
  assumes "LF \<notin> set s" and "\<And>et. ev = Some et \<Longrightarrow> LF \<notin> set et"
  shows "find_sub [LF, LF] (format_frame ev s) = Some (length (format_frame ev s) - 2)"
proof -
  have d: "find_sub [LF, LF] (''data: '' @ s @ [LF, LF]) = Some (6 + length s)"
    using find_blank_line[of "''data: '' @ s"] assms(1) by simp
  show ?thesis
  proof (cases ev)
    case None
    then show ?thesis using d by (simp add: format_frame_def)
  next
    case (Some et)
    have "find_sub [LF, LF] ((''event: '' @ et) @ LF # ''data: '' @ s @ [LF, LF])
      = Some (6 + length s + length (''event: '' @ et) + 1)"
      by (subst find_blank_line_skip) (use d assms(2)[OF Some] in simp_all)
    then show ?thesis by (simp add: format_frame_def Some)
  qed
qed

lemma drop_cr_id: "CR \<notin> set l \<Longrightarrow> drop_cr l = l"
  by (auto simp: drop_cr_def dest: last_in_set)

lemma str_lines_format:
  assumes "LF \<notin> set s" "CR \<notin> set s"
    and "\<And>et. ev = Some et \<Longrightarrow> LF \<notin> set et \<and> CR \<notin> set et"
  shows "str_lines (format_frame ev s) =
    (case ev of Some et \<Rightarrow> [''event: '' @ et, ''data: '' @ s, []] | None \<Rightarrow> [''data: '' @ s, []])"
proof -
  have d: "str_lines (''data: '' @ s @ [LF, LF]) = [''data: '' @ s, []]"
    using str_lines_Cons[of "''data: '' @ s" "[LF]"] str_lines_Cons[of "[]" "[]"] assms(1,2)
    by (simp add: drop_cr_id)
  show ?thesis
  proof (cases ev)
    case None
    then show ?thesis using d by (simp add: format_frame_def)
  next
    case (Some et)
    then show ?thesis
      using str_lines_Cons[of "''event: '' @ et" "''data: '' @ s @ [LF, LF]"] d assms(3)[OF Some]
      by (simp add: format_frame_def drop_cr_id)
  qed
qed

lemma event_of_data_line [simp]: "event_of_line (''data: '' @ s) = None"
  by (simp add: event_of_line_def or_else_def)

lemma event_of_line_Nil [simp]: "event_of_line [] = None"
  by (simp add: event_of_line_def or_else_def)

lemma data_of_data_line [simp]: "data_of_line (''data: '' @ s) = Some s"
  by (simp add: data_of_line_def or_else_def)

lemma data_of_event_line [simp]: "data_of_line (''event: '' @ s) = None"
  by (simp add: data_of_line_def or_else_def)

lemma event_of_event_line: "et \<noteq> [] \<Longrightarrow> event_of_line (''event: '' @ et) = Some et"
  by (simp add: event_of_line_def or_else_def)

lemma frame_reads_back:
  assumes "LF \<notin> set s" "CR \<notin> set s"
    and "\<And>et. ev = Some et \<Longrightarrow> et \<noteq> [] \<and> LF \<notin> set et \<and> CR \<notin> set et"
  shows "frame_event_type (format_frame ev s) = ev \<and> frame_data (format_frame ev s) = Some s"
proof -
  have l: "str_lines (format_frame ev s) =
    (case ev of Some et \<Rightarrow> [''event: '' @ et, ''data: '' @ s, []] | None \<Rightarrow> [''data: '' @ s, []])"
    by (rule str_lines_format) (use assms in auto)
  show ?thesis
    using l assms(3) event_of_event_line
    by (cases ev) (simp_all add: frame_event_type_def frame_data_def del: append.simps(2))
qed

subsection \<open>What is extracted and what is rebuilt\<close>

lemma jpointer_jobj [simp]:
  "jpointer (jobj ps) (t # ts) = (case map_of (rev ps) t of Some w \<Rightarrow> jpointer w ts | None \<Rightarrow> None)"
  by (simp add: jobj_def map_of_om_from)

lemma jpointer_array_0 [simp]: "jpointer (JArray (v # vs)) (''0'' # ts) = jpointer v ts"
  by simp

declare jpointer.simps(2) [simp del]

lemma as_object_jobj [simp]: "as_object (jobj ps) = Some (om_from ps)"
  by (simp add: jobj_def)

lemma set_om_insert: "set (om_insert k v m) \<subseteq> insert (k, v) (set m)"
  by (induction k v m rule: om_insert.induct) auto

lemma set_om_from: "set (om_from ps) \<subseteq> set ps"
proof -
  have "set (foldl (\<lambda>m (k, v). om_insert k v m) m ps) \<subseteq> set m \<union> set ps" for m
  proof (induction ps arbitrary: m)
    case (Cons p ps)
    obtain k v where p: "p = (k, v)" by (cases p)
    show ?case using Cons[of "om_insert k v m"] set_om_insert[of k v m] by (auto simp: p)
  qed simp
  from this[of "[]"] show ?thesis by (simp add: om_from_def)
qed

lemma json_wf_jobj: "list_all (\<lambda>(k, v). json_wf v) ps \<Longrightarrow> json_wf (jobj ps)"
  using set_om_from[of ps] by (auto simp: jobj_def list_all_iff)

lemma json_wf_synthetic: "json_wf (synthetic_value key text)"
  by (cases key) (simp_all add: anthropic_value_def chat_value_def gemini_value_def json_wf_jobj)

text \<open>The keys that extraction can yield, by provider.\<close>

fun extractable :: "provider \<Rightarrow> field_key \<Rightarrow> bool" where
  "extractable p (AnthropicDelta dt i) \<longleftrightarrow>
     p = Anthropic \<and> dt \<in> {''text_delta'', ''thinking_delta'', ''input_json_delta''}"
| "extractable p (ResponsesApiDelta et) \<longleftrightarrow> (p = OpenAi \<or> p = OpenRouter)
     \<and> et \<in> {''response.output_text.delta'', ''response.reasoning_summary_text.delta''}"
| "extractable p (ResponsesApiDone et) \<longleftrightarrow> (p = OpenAi \<or> p = OpenRouter)
     \<and> et = ''response.output_text.done''"
| "extractable p (GeminiText b) \<longleftrightarrow> p = Gemini"
| "extractable p (GeminiCodeExecOutput i) \<longleftrightarrow> p = Gemini"
| "extractable p (GeminiFuncCallArg i k) \<longleftrightarrow> p = Gemini"
| "extractable p _ \<longleftrightarrow> p = OpenAi \<or> p = OpenRouter"

lemma extract_chat_delta_extractable:
  "(k, t) \<in> set (extract_chat_delta d) \<Longrightarrow> p = OpenAi \<or> p = OpenRouter \<Longrightarrow> extractable p k"
  by (auto simp: extract_chat_delta_def extract_tool_call_def Let_def split: option.splits if_splits)

lemma extract_openai_extractable:
  "(k, t) \<in> set (extract_openai json ev) \<Longrightarrow> p = OpenAi \<or> p = OpenRouter \<Longrightarrow> extractable p k"
  by (auto simp: extract_openai_def extract_responses_api_def extract_chat_delta_extractable
        split: option.splits if_splits)

lemma three_way:
  "(k, t) \<in> set (if q then [] else
       case d of None \<Rightarrow> []
       | Some dt \<Rightarrow>
           if dt = a then (case x of Some y \<Rightarrow> [(f a, y)] | None \<Rightarrow> [])
           else if dt = b then (case x' of Some y \<Rightarrow> [(f b, y)] | None \<Rightarrow> [])
           else if dt = c then (case x'' of Some y \<Rightarrow> [(f c, y)] | None \<Rightarrow> []) else [])
   \<Longrightarrow> k \<in> {f a, f b, f c}"
  by (auto split: option.splits if_splits)

lemma extract_anthropic_extractable:
  assumes "(k, t) \<in> set (extract_anthropic json)"
  shows "extractable Anthropic k"
proof -
  let ?f = "\<lambda>dt. AnthropicDelta dt (case as_u64 (jindex json ''index'') of Some i \<Rightarrow> i | None \<Rightarrow> 0)"
  have "k \<in> {?f ''text_delta'', ?f ''thinking_delta'', ?f ''input_json_delta''}"
    by (rule three_way[where f = ?f]) (rule assms[unfolded extract_anthropic_def Let_def])
  then show ?thesis by auto
qed

lemma extract_gemini_part_extractable:
  "(k, t) \<in> set (extract_gemini_part i part) \<Longrightarrow> extractable Gemini k"
  by (auto simp: extract_gemini_part_def split: option.splits)

lemma extract_extractable: "(k, t) \<in> set (extract_fields json p ev) \<Longrightarrow> extractable p k"
  by (cases p)
     (auto simp: extract_gemini_def dest: extract_openai_extractable extract_anthropic_extractable
        extract_gemini_part_extractable split: option.splits)

text \<open>The key a synthetic frame is read back under. The thought flag and the position of a part
  do not survive the rebuilding.\<close>

fun rebuilt :: "field_key \<Rightarrow> field_key" where
  "rebuilt (GeminiText thought) = GeminiText False"
| "rebuilt (GeminiCodeExecOutput i) = GeminiCodeExecOutput 0"
| "rebuilt (GeminiFuncCallArg i k) = GeminiFuncCallArg 0 k"
| "rebuilt key = key"

lemmas extract_simps = extract_anthropic_def extract_openai_def extract_responses_api_def
  extract_tool_call_def extract_chat_delta_def extract_gemini_def extract_gemini_part_def
  anthropic_value_def chat_value_def gemini_value_def jindex_def jget_jobj

lemma starts_with_response: "starts_with (''response.'' @ s) ''response.''"
  by (auto simp: starts_with_iff)

lemma extract_synthetic:
  assumes "extractable p key" and "text \<noteq> []"
  shows "extract_fields (synthetic_value key text) p (synthetic_event key) = [(rebuilt key, text)]"
  using assms
  by (cases key; cases p) (auto simp: extract_simps om_from_def starts_with_Cons Let_def)

lemma classify_synthetic:
  assumes "extractable p key"
  shows "classify_terminal (synthetic_value key text) (synthetic_event key) p = None"
  using assms
  by (cases key; cases p) (auto simp: extract_simps classify_anthropic_def classify_openai_def
      classify_gemini_def response_terminals_def present_not_null_def)

lemma synthetic_event_line:
  assumes "extractable p key" and "synthetic_event key = Some et"
  shows "et \<noteq> [] \<and> LF \<notin> set et \<and> CR \<notin> set et"
  using assms by (cases key) auto

subsection \<open>Writing back at other places\<close>

lemma jwalk_append: "jwalk (p @ q) v = Option.bind (jwalk p v) (jwalk q)"
proof (induction p arbitrary: v)
  case (Cons st p)
  then show ?case by (cases st) (auto split: option.split)
qed simp

text \<open>Two paths that leave each other at some step do not interfere.\<close>

lemma jwalk_jset_other:
  assumes "jset p w v = Some v'" and "\<not> prefix p q" and "\<not> prefix q p"
  shows "jwalk q v' = jwalk q v"
  using assms
proof (induction p w v arbitrary: v' q rule: jset.induct)
  case (1 w v)
  then show ?case by simp
next
  case (2 k p w v)
  then obtain m u u' where m: "v = JObject m" "map_of m k = Some u" "jset p w u = Some u'"
    "v' = JObject (om_insert k u' m)"
    by (auto split: json.splits option.splits)
  from "2.prems"(3) obtain st q' where q: "q = st # q'" by (cases q) auto
  show ?case
  proof (cases "st = Key k")
    case True
    with q "2.prems"(2,3) have "\<not> prefix p q'" "\<not> prefix q' p" by auto
    from "2.IH"[OF m(1,2,3) this] m(2) show ?thesis by (simp add: q True m(1,4))
  next
    case False
    then show ?thesis by (cases st) (auto simp: q m(1,4))
  qed
next
  case (3 i p w v)
  then obtain vs u' where m: "v = JArray vs" "i < length vs" "jset p w (vs ! i) = Some u'"
    "v' = JArray (vs[i := u'])"
    by (auto split: json.splits if_splits)
  from "3.prems"(3) obtain st q' where q: "q = st # q'" by (cases q) auto
  show ?case
  proof (cases "st = Pos i")
    case True
    with q "3.prems"(2,3) have "\<not> prefix p q'" "\<not> prefix q' p" by auto
    from "3.IH"[OF m(1,2,3) this] m(2) show ?thesis by (simp add: q True m(1,4))
  next
    case False
    then show ?thesis by (cases st) (auto simp: q m(1,4))
  qed
qed

text \<open>A writing leaves every place that was there in place.\<close>

lemma jwalk_jset_defined:
  "jset p w v = Some v' \<Longrightarrow> \<not> strict_prefix p q \<Longrightarrow> (jwalk q v' \<noteq> None \<longleftrightarrow> jwalk q v \<noteq> None)"
proof (cases "prefix p q \<or> prefix q p")
  case False
  then show "jset p w v = Some v' \<Longrightarrow> \<not> strict_prefix p q \<Longrightarrow> ?thesis"
    using jwalk_jset_other by fastforce
next
  case True
  assume s: "jset p w v = Some v'" and n: "\<not> strict_prefix p q"
  from True n obtain r where r: "p = q @ r" by (auto simp: prefix_def strict_prefix_def)
  from s have "jwalk p v' \<noteq> None" by (simp add: jwalk_jset_same)
  moreover from s have "jwalk p v \<noteq> None" using jset_None_iff[of p w v] by simp
  ultimately show ?thesis by (auto simp: r jwalk_append split: Option.bind_splits)
qed

lemma apply_restored_other:
  assumes "fst (apply_restored_fields json rs) = json'"
    and "\<forall>(wb, t) \<in> set rs. \<not> prefix (write_back_path wb) q \<and> \<not> prefix q (write_back_path wb)"
  shows "jwalk q json' = jwalk q json"
  using assms
  by (induction json rs rule: apply_restored_fields.induct)
     (auto split: option.splits dest: jwalk_jset_other)

definition apart :: "jstep list \<Rightarrow> jstep list \<Rightarrow> bool" where
  "apart p q \<longleftrightarrow> \<not> prefix p q \<and> \<not> prefix q p"

lemma apply_restored_ok_iff:
  assumes "sorted_wrt (\<lambda>a b. apart (write_back_path (fst a)) (write_back_path (fst b))) rs"
  shows "snd (apply_restored_fields json rs) = Inr ()
     \<longleftrightarrow> (\<forall>(wb, t) \<in> set rs. jwalk (write_back_path wb) json \<noteq> None)"
  using assms
proof (induction json rs rule: apply_restored_fields.induct)
  case (1 json)
  then show ?case by simp
next
  case (2 json wb tx rest)
  show ?case
  proof (cases "jset (write_back_path wb) (JString tx) json")
    case None
    then have "jwalk (write_back_path wb) json = None" by (simp add: jset_None_iff)
    with None show ?thesis by auto
  next
    case (Some json')
    then have "jwalk (write_back_path wb) json \<noteq> None"
      using jset_None_iff[of "write_back_path wb" "JString tx" json] by simp
    moreover have "jwalk (write_back_path wb') json' = jwalk (write_back_path wb') json"
      if "(wb', t) \<in> set rest" for wb' t
      by (rule jwalk_jset_other[OF Some]) (use "2.prems" that in \<open>auto simp: apart_def\<close>)
    ultimately show ?thesis using "2.IH"[OF Some] "2.prems" Some by (auto split: prod.splits)
  qed
qed

lemma apply_restored_reads:
  assumes "sorted_wrt (\<lambda>a b. apart (write_back_path (fst a)) (write_back_path (fst b))) rs"
    and "snd (apply_restored_fields json rs) = Inr ()" and "(wb, t) \<in> set rs"
  shows "jwalk (write_back_path wb) (fst (apply_restored_fields json rs)) = Some (JString t)"
  using assms
proof (induction json rs rule: apply_restored_fields.induct)
  case (2 json wb0 tx rest)
  from "2.prems"(2) obtain json' where s: "jset (write_back_path wb0) (JString tx) json = Some json'"
    by (auto split: option.splits)
  show ?case
  proof (cases "(wb, t) = (wb0, tx)")
    case True
    have "jwalk (write_back_path wb0) (fst (apply_restored_fields json' rest))
      = jwalk (write_back_path wb0) json'"
      by (rule apply_restored_other[OF refl]) (use "2.prems"(1) in \<open>auto simp: apart_def\<close>)
    with s True show ?thesis by (simp add: jwalk_jset_same)
  next
    case False
    with "2.IH"[OF s] "2.prems" s show ?thesis by auto
  qed
qed simp

subsection \<open>Properties\<close>



text \<open>Writing restored values back succeeds exactly when every location is there; then every
  location holds its new text and every place apart from the locations is as it was. The locations
  must not lie inside one another.\<close>

theorem apply_restored_fields_effect:
  assumes "sorted_wrt (\<lambda>a b. apart (write_back_path (fst a)) (write_back_path (fst b))) rs"
    and "apply_restored_fields json rs = (json', r)"
  shows "(r = Inr () \<longleftrightarrow> (\<forall>(wb, t) \<in> set rs. jwalk (write_back_path wb) json \<noteq> None))
    \<and> (r = Inr () \<longrightarrow> (\<forall>(wb, t) \<in> set rs. jwalk (write_back_path wb) json' = Some (JString t)))
    \<and> ((\<forall>(wb, t) \<in> set rs. apart (write_back_path wb) q) \<longrightarrow> jwalk q json' = jwalk q json)"
  using apply_restored_ok_iff[OF assms(1), of json] apply_restored_reads[OF assms(1), of json]
    apply_restored_other[of json rs json' q] assms(2)
  by (auto simp: apart_def)

theorem apply_restored_fields_effect_witness:
  "let json = chat_value [(''content'', JString ''fake'')] in
   jwalk (write_back_path WbOpenAiContent) (fst (apply_restored_fields json [(WbOpenAiContent, ''real'')]))
     = Some (JString ''real'')"
proof -
  let ?j = "chat_value [(''content'', JString ''fake'')]"
  obtain j' r where a: "apply_restored_fields ?j [(WbOpenAiContent, ''real'')] = (j', r)"
    by (cases "apply_restored_fields ?j [(WbOpenAiContent, ''real'')]")
  have "jwalk (write_back_path WbOpenAiContent) ?j \<noteq> None"
    by (simp add: chat_value_def jget_jobj)
  with apply_restored_fields_effect[OF _ a, of "[]"] a show ?thesis by (simp add: apart_def)
qed

end
