(* ===== verification/SseWindow.thy ===== *)
theory SseWindow
  imports SseFields
begin

text \<open>
  The sliding window of the restore stream, \<open>crates/lcp-server/src/ext/sse_restore.rs\<close>:
  \<open>flush_safe_prefix\<close>, \<open>flush_accumulators_where\<close> and \<open>flush_all_accumulators\<close>.

  The crate \<open>doppel\<close> is not part of the repository. What the code uses of it is a parameter:
  the record \<open>doppel_restore\<close> has the field \<open>fake\<close> of an entry and the function
  \<open>doppel::restore\<close> on a whole buffer. The theorems assume of it (predicate
  \<open>restores\<close>) that it succeeds and that it works piece by piece when no fake lies across the
  cut, which is what a substitution of the fakes does; \<open>subst_fakes\<close> is such a substitution and
  is proved to have the property.

  A flush returns the new buffer and the extended output queue; on an error the stream drops both.
\<close>

record ('e, 'k) doppel_restore =
  fake :: "'e \<Rightarrow> bytes"
  restore :: "'e list \<Rightarrow> 'k \<Rightarrow> bytes \<Rightarrow> string + bytes"

subsection \<open>The safe length\<close>

text \<open>The inner loop: the longest proper prefix of the fake, of at most \<open>k\<close> bytes, that ends at
  the nominal target.\<close>

fun partial_match :: "bytes \<Rightarrow> bytes \<Rightarrow> nat \<Rightarrow> nat \<Rightarrow> nat option" where
  "partial_match accum fk nominal 0 = None"
| "partial_match accum fk nominal (Suc k) =
     (if take (Suc k) (drop (nominal - Suc k) accum) = take (Suc k) fk then Some (Suc k)
      else partial_match accum fk nominal k)"

fun retract_target :: "bytes \<Rightarrow> nat \<Rightarrow> nat \<Rightarrow> bytes list \<Rightarrow> nat" where
  "retract_target accum nominal safe_target [] = safe_target"
| "retract_target accum nominal safe_target (fk # fakes) =
     (case partial_match accum fk nominal (min (length fk - 1) nominal) of
        Some k \<Rightarrow> retract_target accum nominal (min safe_target (nominal - k)) fakes
      | None \<Rightarrow> retract_target accum nominal safe_target fakes)"

fun walk_back :: "bytes \<Rightarrow> nat \<Rightarrow> nat" where
  "walk_back accum 0 = 0"
| "walk_back accum (Suc t) =
     (if is_char_boundary accum (Suc t) then Suc t else walk_back accum t)"

definition safe_len :: "bytes list \<Rightarrow> nat \<Rightarrow> bytes \<Rightarrow> nat" where
  "safe_len fakes max_fake_len accum =
     (if length accum \<le> max_fake_len then 0
      else
        let nominal_target = length accum - max_fake_len;
            target = (if 0 < max_fake_len
                      then retract_target accum nominal_target nominal_target fakes
                      else nominal_target)
        in walk_back accum target)"

subsection \<open>Flushing\<close>

definition restore_text ::
  "('e, 'k) doppel_restore \<Rightarrow> 'e list \<Rightarrow> 'k \<Rightarrow> bytes \<Rightarrow> sse_error + string" where
  "restore_text D entries session_key safe_prefix =
     (case restore D entries session_key safe_prefix of
        Inl e \<Rightarrow> Inl (RestoreError e)
      | Inr out \<Rightarrow> (case from_utf8 out of Inl n \<Rightarrow> Inl (NonUtf8Restored n) | Inr s \<Rightarrow> Inr s))"

definition flush_safe_prefix ::
  "('e, 'k) doppel_restore \<Rightarrow> serde \<Rightarrow> field_key \<Rightarrow> bytes \<Rightarrow> nat \<Rightarrow> 'e list \<Rightarrow> 'k \<Rightarrow> bytes list
   \<Rightarrow> sse_error + bytes \<times> bytes list" where
  "flush_safe_prefix D S key accum max_fake_len entries session_key queue =
     (let n = safe_len (map (fake D) entries) max_fake_len accum in
      if n = 0 then Inr (accum, queue)
      else try_then (restore_text D entries session_key (take n accum)) (\<lambda>restored.
        if restored = [] then Inr (drop n accum, queue)
        else try_then (build_synthetic_sse_frame S key restored) (\<lambda>frame.
          Inr (drop n accum, queue @ [frame]))))"

text \<open>The loops over the buffers, in key order. \<open>window\<close> says with which hold window a buffer is
  flushed, if at all.\<close>

fun flush_loop ::
  "('e, 'k) doppel_restore \<Rightarrow> serde \<Rightarrow> (field_key \<Rightarrow> bytes \<Rightarrow> nat option) \<Rightarrow> 'e list \<Rightarrow> 'k
   \<Rightarrow> (field_key \<times> bytes) list \<Rightarrow> bytes list \<Rightarrow> sse_error + (field_key \<times> bytes) list \<times> bytes list" where
  "flush_loop D S window entries session_key [] queue = Inr ([], queue)"
| "flush_loop D S window entries session_key ((key, accum) # rest) queue =
     (case window key accum of
        None \<Rightarrow>
          try_then (flush_loop D S window entries session_key rest queue) (\<lambda>(rest', queue').
            Inr ((key, accum) # rest', queue'))
      | Some w \<Rightarrow>
          try_then (flush_safe_prefix D S key accum w entries session_key queue) (\<lambda>(accum', queue').
            try_then (flush_loop D S window entries session_key rest queue') (\<lambda>(rest', queue'').
              Inr ((key, accum') # rest', queue''))))"

definition flush_accumulators_where ::
  "('e, 'k) doppel_restore \<Rightarrow> serde \<Rightarrow> (field_key \<times> bytes) list \<Rightarrow> (field_key \<Rightarrow> bool) \<Rightarrow> 'e list \<Rightarrow> 'k
   \<Rightarrow> bytes list \<Rightarrow> sse_error + (field_key \<times> bytes) list \<times> bytes list" where
  "flush_accumulators_where D S accumulators pred entries session_key queue =
     flush_loop D S (\<lambda>key accum. if accum = [] \<or> \<not> pred key then None else Some 0)
       entries session_key accumulators queue"

definition flush_all_accumulators ::
  "('e, 'k) doppel_restore \<Rightarrow> serde \<Rightarrow> (field_key \<times> bytes) list \<Rightarrow> 'e list \<Rightarrow> 'k
   \<Rightarrow> bytes list \<Rightarrow> sse_error + (field_key \<times> bytes) list \<times> bytes list" where
  "flush_all_accumulators D S accumulators entries session_key queue =
     flush_accumulators_where D S accumulators (\<lambda>key. True) entries session_key queue"

subsection \<open>Where a fake may lie\<close>

definition occurs_at :: "bytes \<Rightarrow> nat \<Rightarrow> bytes \<Rightarrow> bool" where
  "occurs_at f p s \<longleftrightarrow> take (length f) (drop p s) = f"

text \<open>No fake lies across the cut between \<open>a\<close> and \<open>b\<close>.\<close>

definition clean :: "bytes list \<Rightarrow> bytes \<Rightarrow> bytes \<Rightarrow> bool" where
  "clean fakes a b \<longleftrightarrow>
     (\<forall>f \<in> set fakes. \<forall>p < length a. length a < p + length f \<longrightarrow> \<not> occurs_at f p (a @ b))"

text \<open>No fake ends with the beginning of a fake, be it the same or another.\<close>

definition overlap_free :: "bytes list \<Rightarrow> bool" where
  "overlap_free fakes \<longleftrightarrow>
     (\<forall>f \<in> set fakes. \<forall>g \<in> set fakes. \<forall>k \<in> {1..<length f}. k < length g \<longrightarrow> drop (length f - k) f \<noteq> take k g)"

lemma occurs_at_length: "occurs_at f p s \<Longrightarrow> f \<noteq> [] \<Longrightarrow> p + length f \<le> length s"
  by (cases f) (auto simp: occurs_at_def min_def dest!: arg_cong[where f = length] split: if_splits)

lemma occurs_at_nth: "occurs_at f p s \<Longrightarrow> i < length f \<Longrightarrow> s ! (p + i) = f ! i"
proof -
  assume a: "occurs_at f p s" "i < length f"
  then have "f \<noteq> []" by auto
  then have l: "p + length f \<le> length s" using a(1) by (rule occurs_at_length[rotated])
  have "f ! i = take (length f) (drop p s) ! i" using a(1) by (simp add: occurs_at_def)
  with l a(2) show ?thesis by simp
qed

lemma occurs_atI:
  "p + length f \<le> length s \<Longrightarrow> (\<And>i. i < length f \<Longrightarrow> s ! (p + i) = f ! i) \<Longrightarrow> occurs_at f p s"
  by (auto simp: occurs_at_def intro!: nth_equalityI)

lemma occurs_at_iff:
  "f \<noteq> [] \<Longrightarrow> occurs_at f p s \<longleftrightarrow> p + length f \<le> length s \<and> (\<forall>i < length f. s ! (p + i) = f ! i)"
  by (auto simp: occurs_at_nth intro: occurs_atI dest: occurs_at_length)

lemma occurs_at_append: "f \<noteq> [] \<Longrightarrow> p + length f \<le> length a \<Longrightarrow> occurs_at f p (a @ b) \<longleftrightarrow> occurs_at f p a"
  by (auto simp: occurs_at_iff nth_append)

lemma overlap_freeD:
  "overlap_free fakes \<Longrightarrow> f \<in> set fakes \<Longrightarrow> g \<in> set fakes \<Longrightarrow> 1 \<le> k \<Longrightarrow> k < length f \<Longrightarrow> k < length g
   \<Longrightarrow> drop (length f - k) f \<noteq> take k g"
  by (simp add: overlap_free_def)

subsection \<open>The safe length cuts cleanly\<close>

lemma partial_match_None:
  "partial_match a f n k = None \<Longrightarrow> 0 < j \<Longrightarrow> j \<le> k \<Longrightarrow> take j (drop (n - j) a) \<noteq> take j f"
  by (induction a f n k rule: partial_match.induct) (auto simp: le_Suc_eq split: if_splits)

lemma partial_match_Some:
  "partial_match a f n k = Some j \<Longrightarrow> 0 < j \<and> j \<le> k \<and> take j (drop (n - j) a) = take j f"
  by (induction a f n k rule: partial_match.induct) (auto split: if_splits)

lemma partial_match_longest:
  "partial_match a f n k = Some j \<Longrightarrow> j < i \<Longrightarrow> i \<le> k \<Longrightarrow> take i (drop (n - i) a) \<noteq> take i f"
  by (induction a f n k rule: partial_match.induct) (auto simp: le_Suc_eq split: if_splits)

lemma retract_le: "retract_target a n t fakes \<le> t"
proof (induction fakes arbitrary: t)
  case (Cons f fakes)
  then show ?case by (auto split: option.split) (metis min.bounded_iff)
qed simp

lemma retract_cases:
  "retract_target a n t fakes = t \<or>
   (\<exists>g \<in> set fakes. \<exists>k. partial_match a g n (min (length g - 1) n) = Some k \<and> retract_target a n t fakes = n - k)"
proof (induction fakes arbitrary: t)
  case (Cons f fakes)
  show ?case
  proof (cases "partial_match a f n (min (length f - 1) n)")
    case None
    with Cons[of t] show ?thesis by auto
  next
    case (Some k)
    with Cons[of "min t (n - k)"] show ?thesis by (auto simp: min_def split: if_splits)
  qed
qed simp

lemma retract_bound:
  "g \<in> set fakes \<Longrightarrow> partial_match a g n (min (length g - 1) n) = Some k \<Longrightarrow>
   retract_target a n t fakes \<le> n - k"
proof (induction fakes arbitrary: t)
  case (Cons f fakes)
  show ?case
  proof (cases "f = g")
    case True
    with Cons.prems(2) show ?thesis using retract_le[of a n "min t (n - k)" fakes] by simp
  next
    case False
    with Cons show ?thesis by (auto split: option.split)
  qed
qed simp

lemma walk_back_le: "walk_back a t \<le> t"
  by (induction a t rule: walk_back.induct) auto

lemma walk_back_boundary: "is_char_boundary a (walk_back a t)"
  by (induction a t rule: walk_back.induct) (auto simp: is_char_boundary_def)

lemma walk_back_between: "walk_back a t < i \<Longrightarrow> i \<le> t \<Longrightarrow> \<not> is_char_boundary a i"
  by (induction a t rule: walk_back.induct) (auto simp: le_Suc_eq split: if_splits)

lemma take_occurrence:
  assumes "occurs_at f p a" and "i + j \<le> length f"
  shows "take j (drop (p + i) a) = take j (drop i f)"
proof -
  have "take j (drop i f) = take j (drop i (take (length f) (drop p a)))"
    using assms(1) by (simp add: occurs_at_def)
  with assms(2) show ?thesis by (simp add: drop_take add.commute min_def)
qed

lemma retract_clean:
  assumes "overlap_free fakes" and "f \<in> set fakes" and "occurs_at f p a"
    and T: "T = retract_target a n n fakes" and "n \<le> length a" and "p < T"
  shows "p + length f \<le> T"
proof (rule ccontr)
  assume "\<not> p + length f \<le> T"
  then have straddle: "T < p + length f" by simp
  have Tn: "T \<le> n" using retract_le[of a n n fakes] by (simp add: T)
  show False
  proof (cases "n < p + length f")
    case True
    let ?j = "n - p"
    have "take ?j (drop p a) = take ?j f"
      using take_occurrence[OF assms(3), of 0 ?j] True by simp
    moreover have "n - ?j = p" using Tn assms(6) by simp
    ultimately have m: "take ?j (drop (n - ?j) a) = take ?j f" by simp
    have j: "0 < ?j" "?j \<le> min (length f - 1) n" using Tn assms(6) True by auto
    show False
    proof (cases "partial_match a f n (min (length f - 1) n)")
      case None
      from partial_match_None[OF None j] m show False by blast
    next
      case (Some k)
      have "?j \<le> k"
        using partial_match_longest[OF Some _ j(2)] m not_le_imp_less by blast
      with retract_bound[OF assms(2) Some, of n] assms(6) show False by (simp add: T)
    qed
  next
    case False
    with straddle have "T \<noteq> n" by simp
    with retract_cases[of a n n fakes] obtain g k where g: "g \<in> set fakes"
      "partial_match a g n (min (length g - 1) n) = Some k" "T = n - k"
      by (auto simp: T)
    note k = partial_match_Some[OF g(2)]
    let ?j = "p + length f - T"
    have j: "1 \<le> ?j" "?j < length f" "?j \<le> k" "?j < length g"
      using straddle assms(6) False g(3) k by auto
    have "take ?j (drop T a) = drop (length f - ?j) f"
      using take_occurrence[OF assms(3), of "length f - ?j" ?j] j straddle assms(6)
      by simp
    moreover have "take ?j (drop T a) = take ?j g"
    proof -
      have "take ?j (take k (drop T a)) = take ?j (take k g)"
        using k g(3) by simp
      with j(3) show ?thesis by (simp add: min_absorb1)
    qed
    ultimately show False
      using overlap_freeD[OF assms(1,2) g(1) j(1,2,4)] by argo
  qed
qed

lemma walk_back_end: "walk_back a (length a) = length a"
  by (cases "length a") (simp_all add: is_char_boundary_def)

lemma safe_len_0 [simp]: "safe_len fakes 0 a = length a"
  by (simp add: safe_len_def walk_back_end)

lemma safe_len_le: "safe_len fakes m a \<le> length a"
proof -
  have "walk_back a (retract_target a (length a - m) (length a - m) fakes) \<le> length a - m"
    using walk_back_le retract_le le_trans by blast
  then show ?thesis
    using walk_back_le[of a "length a - m"] by (auto simp: safe_len_def Let_def)
qed

lemma safe_len_boundary: "is_char_boundary a (safe_len fakes m a)"
  by (simp add: safe_len_def Let_def walk_back_boundary) (simp add: is_char_boundary_def)

text \<open>The cut is clean whatever follows: no fake that is whole in the text, or that becomes whole
  by what is appended later, lies across it.\<close>

lemma safe_len_clean:
  assumes "overlap_free fakes" and "\<forall>f \<in> set fakes. ascii f \<and> length f \<le> m"
    and "valid_utf8 a" and n: "n = safe_len fakes m a"
  shows "clean fakes (take n a) (drop n a @ ext)"
proof (cases "m = 0")
  case True
  with assms(2) show ?thesis by (auto simp: clean_def)
next
  case False
  then have m: "0 < m" by simp
  let ?N = "length a - m"
  let ?T = "retract_target a ?N ?N fakes"
  { fix f p
    assume f: "f \<in> set fakes" and p: "p < n" "n < p + length f" and o: "occurs_at f p (a @ ext)"
    from p(1) n have len: "m < length a" and n': "n = walk_back a ?T"
      using m by (auto simp: safe_len_def Let_def split: if_splits)
    have TN: "n \<le> ?T" "?T \<le> ?N" using walk_back_le retract_le by (auto simp: n')
    have "length f \<le> m" "ascii f" using assms(2) f by auto
    then have fit: "p + length f \<le> length a" using p(1) TN len by simp
    have "f \<noteq> []" using p by auto
    from occurs_at_append[OF this fit] o have oa: "occurs_at f p a" by blast
    have "p + length f \<le> ?T"
      by (rule retract_clean[OF assms(1) f oa refl]) (use p(1) TN in auto)
    with p(2) have lt: "n < ?T" by simp
    have "\<not> is_char_boundary a (Suc n)"
      by (rule walk_back_between[of _ "?T"]) (use lt n' in auto)
    moreover have in_a: "Suc n < length a" using lt TN len m by linarith
    ultimately have "cont (a ! Suc n)" by (auto simp: is_char_boundary_def)
    moreover have "a ! n = f ! (n - p)" using occurs_at_nth[OF oa, of "n - p"] p by simp
    then have "byte (a ! n) < 0x80" using \<open>ascii f\<close> p by (auto simp: ascii_def)
    ultimately have False using valid_utf8_after_ascii[OF assms(3) in_a] by blast }
  moreover have "take n a @ drop n a @ ext = a @ ext" by (metis append_assoc append_take_drop_id)
  moreover have "length (take n a) = n" using safe_len_le[of fakes m a] by (simp add: n)
  ultimately show ?thesis by (metis clean_def)
qed

subsection \<open>How much is held back\<close>

lemma utf8_start_near: "valid_utf8 a \<Longrightarrow> i < length a \<Longrightarrow> \<exists>j \<le> i. i \<le> j + 3 \<and> \<not> cont (a ! j)"
proof (induction arbitrary: i rule: valid_utf8_induct)
  case Nil
  then show ?case by simp
next
  case (Scalar a b)
  show ?case
  proof (cases "i < length a")
    case True
    have "length a \<le> 4" using scalar_shape[OF Scalar.hyps(1,2)] by auto
    moreover have "\<not> cont (a ! 0)"
    proof (cases a)
      case (Cons x xs)
      then show ?thesis using scalar_head[of x xs] Scalar.hyps(1) by (simp del: scalar_len.simps)
    qed (use Scalar.hyps(2) in simp)
    ultimately show ?thesis using True Scalar.hyps(2) by (intro exI[of _ 0]) (simp add: nth_append)
  next
    case False
    with Scalar.prems have "i - length a < length b" by simp
    from Scalar.IH[OF this] obtain j where "j \<le> i - length a" "i - length a \<le> j + 3" "\<not> cont (b ! j)"
      by blast
    with False show ?thesis by (intro exI[of _ "j + length a"]) (auto simp: nth_append)
  qed
qed

lemma walk_back_near: "valid_utf8 a \<Longrightarrow> t \<le> length a \<Longrightarrow> t \<le> walk_back a t + 3"
proof (cases "t < length a")
  case True
  assume v: "valid_utf8 a"
  from utf8_start_near[OF v True] obtain j where j: "j \<le> t" "t \<le> j + 3" "\<not> cont (a ! j)" by blast
  have "is_char_boundary a j" using j True by (auto simp: is_char_boundary_def)
  then have "j \<le> walk_back a t" using walk_back_between[of a t j] j(1) not_le_imp_less by blast
  with j show "t \<le> walk_back a t + 3" by simp
next
  case False
  assume "t \<le> length a"
  with False have "t = length a" by simp
  then show "t \<le> walk_back a t + 3" by (simp only: walk_back_end)
qed

lemma safe_len_holds:
  assumes "valid_utf8 a" and "\<forall>f \<in> set fakes. length f \<le> m" and "0 < m"
  shows "length a \<le> safe_len fakes m a + 2 * m + 2"
proof (cases "length a \<le> m")
  case True
  then show ?thesis by (simp add: safe_len_def)
next
  case False
  let ?N = "length a - m"
  let ?T = "retract_target a ?N ?N fakes"
  have "?N \<le> ?T + (m - 1)"
    using retract_cases[of a ?N ?N fakes]
  proof (elim disjE bexE exE conjE)
    fix g k assume g: "g \<in> set fakes" "partial_match a g ?N (min (length g - 1) ?N) = Some k" "?T = ?N - k"
    have "k \<le> length g - 1" using partial_match_Some[OF g(2)] by simp
    moreover have "length g \<le> m" using assms(2) g(1) by blast
    ultimately show ?thesis using g(3) by linarith
  qed simp
  moreover have "?T \<le> walk_back a ?T + 3"
    by (rule walk_back_near[OF assms(1)]) (use retract_le[of a ?N ?N fakes] in simp)
  moreover have "safe_len fakes m a = walk_back a ?T"
    using False assms(3) by (simp add: safe_len_def Let_def)
  ultimately show ?thesis using assms(3) False by linarith
qed

subsection \<open>A window over an abstract substitution\<close>

text \<open>The pieces that are emitted and the rest that is held after some texts were appended.\<close>

fun window_run :: "(bytes \<Rightarrow> bytes) \<Rightarrow> (bytes \<Rightarrow> nat) \<Rightarrow> bytes \<Rightarrow> bytes list \<Rightarrow> bytes list \<times> bytes" where
  "window_run R safe a [] = ([], a)"
| "window_run R safe a (t # ts) =
     (case window_run R safe (drop (safe (a @ t)) (a @ t)) ts of
        (out, rest) \<Rightarrow> (R (take (safe (a @ t)) (a @ t)) # out, rest))"

locale restore_window =
  fixes R :: "bytes \<Rightarrow> bytes"
    and safe :: "bytes \<Rightarrow> nat"
    and ok :: "bytes \<Rightarrow> bool"
  assumes cut_splits: "ok a \<Longrightarrow> R (a @ ext) = R (take (safe a) a) @ R (drop (safe a) a @ ext)"
    and ok_rest: "ok a \<Longrightarrow> ok (drop (safe a) a)"
    and ok_append: "ok a \<Longrightarrow> ok b \<Longrightarrow> ok (a @ b)"
    and R_Nil: "ok a \<Longrightarrow> R [] = []"
begin

lemma run_ok: "ok a \<Longrightarrow> list_all ok ts \<Longrightarrow> ok (snd (window_run R safe a ts))"
proof (induction ts arbitrary: a)
  case (Cons t ts)
  have "ok (drop (safe (a @ t)) (a @ t))" using Cons.prems by (simp add: ok_append ok_rest del: drop_append)
  from Cons.IH[OF this] Cons.prems show ?case by (auto split: prod.split simp del: drop_append)
qed simp

text \<open>Nothing is lost or restored differently by the window: what was emitted, followed by the
  restoring of what is held and of anything that may still come, is the restoring of the whole.\<close>

lemma run_splits:
  "ok a \<Longrightarrow> list_all ok ts \<Longrightarrow>
   R (a @ concat ts @ ext) = concat (fst (window_run R safe a ts)) @ R (snd (window_run R safe a ts) @ ext)"
proof (induction ts arbitrary: a)
  case (Cons t ts)
  let ?a = "a @ t"
  have ok: "ok ?a" using Cons.prems by (simp add: ok_append)
  have "R (a @ concat (t # ts) @ ext) = R (?a @ concat ts @ ext)" by simp
  also have "\<dots> = R (take (safe ?a) ?a) @ R (drop (safe ?a) ?a @ concat ts @ ext)"
    by (rule cut_splits[OF ok])
  also have "R (drop (safe ?a) ?a @ concat ts @ ext)
    = concat (fst (window_run R safe (drop (safe ?a) ?a) ts)) @ R (snd (window_run R safe (drop (safe ?a) ?a) ts) @ ext)"
    by (rule Cons.IH[OF ok_rest[OF ok]]) (use Cons.prems in simp)
  finally show ?case by (simp split: prod.split)
qed simp

lemma run_total:
  "ok a \<Longrightarrow> list_all ok ts \<Longrightarrow>
   concat (fst (window_run R safe a ts)) @ R (snd (window_run R safe a ts)) = R (a @ concat ts)"
  using run_splits[of a ts "[]"] by simp

end

subsection \<open>The window of the code\<close>

definition hold_window :: "bytes list \<Rightarrow> nat" where
  "hold_window fakes = foldr max (map length fakes) 0"

lemma hold_window_le: "f \<in> set fakes \<Longrightarrow> length f \<le> hold_window fakes"
  by (induction fakes) (auto simp: hold_window_def)

text \<open>What is assumed of the fakes and of \<open>doppel\<close>: the fakes are ASCII and do not overlap;
  restoring a text succeeds, yields text, and goes piece by piece at clean cuts.\<close>

definition good_fakes :: "bytes list \<Rightarrow> bool" where
  "good_fakes fakes \<longleftrightarrow> overlap_free fakes \<and> list_all ascii fakes"

definition restores :: "('e, 'k) doppel_restore \<Rightarrow> 'e list \<Rightarrow> 'k \<Rightarrow> (bytes \<Rightarrow> bytes) \<Rightarrow> bool" where
  "restores D entries session_key R \<longleftrightarrow>
     R [] = []
     \<and> (\<forall>a. valid_utf8 a \<longrightarrow> restore D entries session_key a = Inr (R a) \<and> valid_utf8 (R a))
     \<and> (\<forall>a b. clean (map (fake D) entries) a b \<longrightarrow> R (a @ b) = R a @ R b)"

definition window_ok ::
  "('e, 'k) doppel_restore \<Rightarrow> 'e list \<Rightarrow> 'k \<Rightarrow> (bytes \<Rightarrow> bytes) \<Rightarrow> bytes \<Rightarrow> bool" where
  "window_ok D entries session_key R a \<longleftrightarrow>
     restores D entries session_key R \<and> good_fakes (map (fake D) entries) \<and> valid_utf8 a"

interpretation win: restore_window R
    "safe_len (map (fake D) entries) (hold_window (map (fake D) entries))"
    "window_ok D entries session_key R"
proof unfold_locales
  fix a ext assume ok: "window_ok D entries session_key R a"
  let ?f = "map (fake D) entries"
  let ?n = "safe_len ?f (hold_window ?f) a"
  have "clean ?f (take ?n a) (drop ?n a @ ext)"
    using ok hold_window_le[of _ ?f]
    by (intro safe_len_clean[OF _ _ _ refl]) (auto simp: window_ok_def good_fakes_def list_all_iff)
  then have "R (take ?n a @ drop ?n a @ ext) = R (take ?n a) @ R (drop ?n a @ ext)"
    using ok by (simp add: window_ok_def restores_def)
  then show "R (a @ ext) = R (take ?n a) @ R (drop ?n a @ ext)"
    by (metis append_assoc append_take_drop_id)
next
  fix a assume "window_ok D entries session_key R a"
  then show "window_ok D entries session_key R (drop (safe_len (map (fake D) entries)
      (hold_window (map (fake D) entries)) a) a)"
    using valid_utf8_drop_boundary[OF _ safe_len_boundary] by (auto simp: window_ok_def)
qed (auto simp: window_ok_def restores_def valid_utf8_appendI)

subsection \<open>What a flush emits\<close>

text \<open>\<open>emits\<close>: these frames carry these texts, none of them empty. The only error there can
  be is the panic on a value that does not print.\<close>

definition emits :: "serde \<Rightarrow> (field_key \<times> string) list \<Rightarrow> bytes list \<Rightarrow> bool" where
  "emits S kts frames \<longleftrightarrow>
     list_all2 (\<lambda>(k, t) f. t \<noteq> [] \<and> build_synthetic_sse_frame S k t = Inr f) kts frames"

definition unprintable :: "serde \<Rightarrow> bool" where
  "unprintable S \<longleftrightarrow> (\<exists>v. print_json S v = None)"

definition key_text :: "field_key \<Rightarrow> (field_key \<times> string) list \<Rightarrow> bytes" where
  "key_text key kts = concat (map snd (filter (\<lambda>(k, t). k = key) kts))"

lemma emits_Nil [simp]: "emits S [] []"
  by (simp add: emits_def)

lemma emits_append: "emits S a f \<Longrightarrow> emits S b g \<Longrightarrow> emits S (a @ b) (f @ g)"
  by (simp add: emits_def list_all2_appendI)

lemma key_text_append [simp]: "key_text key (a @ b) = key_text key a @ key_text key b"
  by (simp add: key_text_def)

lemma key_text_Nil [simp]: "key_text key [] = []"
  by (simp add: key_text_def)

lemma key_text_single [simp]: "key_text key [(k, t)] = (if k = key then t else [])"
  by (simp add: key_text_def)

lemma build_synthetic_cases:
  obtains "build_synthetic_sse_frame S key t = Inl Panicked" "unprintable S"
  | f where "build_synthetic_sse_frame S key t = Inr f"
  by (cases "print_json S (synthetic_value key t)")
     (auto simp: build_synthetic_sse_frame_def json_str_def unprintable_def)

lemma restore_text_ok:
  "restores D entries session_key R \<Longrightarrow> valid_utf8 a \<Longrightarrow> restore_text D entries session_key a = Inr (R a)"
  by (auto simp: restores_def restore_text_def from_utf8_def)

lemma flush_safe_prefix_cases:
  assumes "restores D entries session_key R" and "valid_utf8 a"
    and n: "n = safe_len (map (fake D) entries) m a"
  obtains "flush_safe_prefix D S key a m entries session_key queue = Inl Panicked" "unprintable S"
  | kts fs where "flush_safe_prefix D S key a m entries session_key queue = Inr (drop n a, queue @ fs)"
      "emits S kts fs" "set (map fst kts) \<subseteq> {key}" "key_text key kts = R (take n a)"
proof -
  have v: "valid_utf8 (take n a)"
    unfolding n by (rule valid_utf8_take_boundary[OF assms(2) safe_len_boundary])
  note r = restore_text_ok[OF assms(1) v]
  consider "n = 0" | "n \<noteq> 0" "R (take n a) = []" | "n \<noteq> 0" "R (take n a) \<noteq> []" by blast
  then show thesis
  proof cases
    case 1
    with that(2)[of "[]" "[]"] assms(1) show thesis
      by (simp add: flush_safe_prefix_def flip: n) (simp add: restores_def)
  next
    case 2
    with that(2)[of "[]" "[]"] r show thesis by (simp add: flush_safe_prefix_def flip: n)
  next
    case 3
    show thesis
    proof (cases rule: build_synthetic_cases[of S key "R (take n a)"])
      case 1
      with 3 r that(1) show thesis by (simp add: flush_safe_prefix_def flip: n)
    next
      case (2 f)
      with 3 r that(2)[of "[f]" "[(key, R (take n a))]"] show thesis
        by (simp add: flush_safe_prefix_def emits_def flip: n)
    qed
  qed
qed

subsection \<open>A reference substitution\<close>

text \<open>From left to right: where a fake begins it is replaced by its original, of several the first
  in the list.\<close>

definition match_entry :: "(bytes \<times> bytes) list \<Rightarrow> bytes \<Rightarrow> (bytes \<times> bytes) option" where
  "match_entry tab s = find (\<lambda>(f, orig). f \<noteq> [] \<and> starts_with s f) tab"

lemma match_entry_Some: "match_entry tab s = Some (f, r) \<Longrightarrow> f \<noteq> [] \<and> starts_with s f \<and> (f, r) \<in> set tab"
  by (auto simp: match_entry_def find_Some_iff) (metis nth_mem)

function subst_fakes :: "(bytes \<times> bytes) list \<Rightarrow> bytes \<Rightarrow> bytes" where
  "subst_fakes tab [] = []"
| "subst_fakes tab (c # cs) =
     (case match_entry tab (c # cs) of
        Some (f, orig) \<Rightarrow> orig @ subst_fakes tab (drop (length f) (c # cs))
      | None \<Rightarrow> c # subst_fakes tab cs)"
  by pat_completeness auto
termination
  by (relation "measure (\<lambda>(tab, s). length s)")
     (auto dest!: match_entry_Some simp: starts_with_iff)

lemma clean_Cons: "clean fakes (c # a) b \<Longrightarrow> clean fakes a b"
  by (force simp: clean_def occurs_at_def dest: spec[where x = "Suc _"])

lemma clean_drop: "clean fakes a b \<Longrightarrow> clean fakes (drop n a) b"
proof (induction n arbitrary: a)
  case (Suc n)
  then show ?case by (cases a) (auto dest: clean_Cons)
qed simp

lemma starts_with_clean:
  assumes "clean fakes a b" and "f \<in> set fakes" and "a \<noteq> []"
  shows "starts_with (a @ b) f \<longleftrightarrow> starts_with a f"
proof
  assume s: "starts_with (a @ b) f"
  then have "occurs_at f 0 (a @ b)"
    by (auto simp: starts_with_iff occurs_at_def simp del: take_append) simp
  with assms have "\<not> length a < length f" by (auto simp: clean_def)
  with s show "starts_with a f" by (auto simp: starts_with_iff append_eq_append_conv2)
qed (auto simp: starts_with_iff)

lemma match_entry_clean:
  assumes "clean (map fst tab) a b" and "a \<noteq> []"
  shows "match_entry tab (a @ b) = match_entry tab a"
  unfolding match_entry_def
  by (rule find_cong[OF refl]) (use starts_with_clean[OF assms(1) _ assms(2)] in force)

lemma subst_fakes_splits: "clean (map fst tab) a b \<Longrightarrow> subst_fakes tab (a @ b) = subst_fakes tab a @ subst_fakes tab b"
proof (induction tab a rule: subst_fakes.induct)
  case (1 tab)
  then show ?case by simp
next
  case (2 tab c cs)
  have m: "match_entry tab (c # cs @ b) = match_entry tab (c # cs)"
    using match_entry_clean[OF "2.prems"] by simp
  show ?case
  proof (cases "match_entry tab (c # cs)")
    case None
    with "2.IH"(1)[OF None clean_Cons[OF "2.prems"]] m show ?thesis by simp
  next
    case (Some fr)
    obtain f r where fr: "fr = (f, r)" by (cases fr)
    from match_entry_Some[of tab "c # cs" f r] Some fr have "length f \<le> length (c # cs)"
      by (auto simp: starts_with_iff dest: arg_cong[where f = length])
    then have d: "drop (length f) (c # cs @ b) = drop (length f) (c # cs) @ b"
      using drop_append[of "length f" "c # cs" b] by simp
    from "2.IH"(2)[OF Some fr[symmetric] clean_drop[OF "2.prems"]] m Some fr
    show ?thesis by (simp add: d)
  qed
qed

text \<open>Replacing ASCII fakes by texts keeps texts well-formed.\<close>

lemma ascii_starts_with: "valid_utf8 s \<Longrightarrow> ascii f \<Longrightarrow> starts_with s f \<Longrightarrow> valid_utf8 (drop (length f) s)"
  by (auto simp: starts_with_iff valid_utf8_append[OF ascii_valid_utf8])

text \<open>Inside a sequence of more than one byte no ASCII fake begins.\<close>

lemma match_entry_high:
  "list_all ascii (map fst tab) \<Longrightarrow> 0x80 \<le> byte c \<Longrightarrow> match_entry tab (c # cs) = None"
  by (fastforce simp: match_entry_def find_None_iff list_all_iff starts_with_iff ascii_def Cons_eq_append_conv)

lemma subst_fakes_high:
  "list_all ascii (map fst tab) \<Longrightarrow> \<forall>c \<in> set a. 0x80 \<le> byte c \<Longrightarrow>
   subst_fakes tab (a @ b) = a @ subst_fakes tab b"
  by (induction a) (simp_all add: match_entry_high)

lemma valid_utf8_subst_fakes:
  assumes "list_all ascii (map fst tab)" and "list_all valid_utf8 (map snd tab)"
  shows "valid_utf8 s \<Longrightarrow> valid_utf8 (subst_fakes tab s)"
proof (induction "length s" arbitrary: s rule: less_induct)
  case less
  show ?case
  proof (cases s)
    case Nil
    then show ?thesis by simp
  next
    case (Cons c cs)
    show ?thesis
    proof (cases "match_entry tab s")
      case (Some fr)
      obtain f r where fr: "fr = (f, r)" by (cases fr)
      from match_entry_Some[of tab s f r] Some fr
      have f: "f \<noteq> []" "starts_with s f" "(f, r) \<in> set tab" by auto
      then have "ascii f" "valid_utf8 r" using assms by (auto simp: list_all_iff)
      with f have "valid_utf8 (drop (length f) s)" using less.prems ascii_starts_with by blast
      with less.hyps[of "drop (length f) s"] f Cons have "valid_utf8 (subst_fakes tab (drop (length f) s))"
        by simp
      with \<open>valid_utf8 r\<close> show ?thesis using Some fr Cons by (simp add: valid_utf8_appendI)
    next
      case None
      let ?n = "scalar_len s"
      have n: "?n \<noteq> 0" "?n \<le> length s" "valid_utf8 (drop ?n s)"
        using less.prems Cons valid_utf8_step[of s] scalar_len_le[of s] by auto
      let ?a = "take ?n s"
      have a: "scalar_len ?a = length ?a" "?a \<noteq> []"
        using n scalar_len_take[of s] by auto
      have IH: "valid_utf8 (subst_fakes tab (drop ?n s))"
        using less.hyps[of "drop ?n s"] n Cons by simp
      have "subst_fakes tab s = ?a @ subst_fakes tab (drop ?n s)"
      proof (cases "byte c < 0x80")
        case True
        with Cons have "?n = 1" using scalar_len_ascii by simp
        with None Cons show ?thesis by (simp del: scalar_len.simps)
      next
        case False
        have "\<forall>x \<in> set ?a. 0x80 \<le> byte x"
        proof
          fix x assume "x \<in> set ?a"
          moreover have "hd ?a = c" using Cons n(1) by (cases "scalar_len s") auto
          ultimately show "0x80 \<le> byte x"
            using scalar_shape[OF a] False by (auto simp: cont_def)
        qed
        from subst_fakes_high[OF assms(1) this, of "drop ?n s"] show ?thesis by simp
      qed
      with IH show ?thesis using valid_utf8_scalar_append[OF a] by simp
    qed
  qed
qed

text \<open>The library that substitutes by a table of pairs has all that is assumed.\<close>

definition table_restore :: "(bytes \<times> bytes, unit) doppel_restore" where
  "table_restore = \<lparr>fake = fst, restore = (\<lambda>tab k s. Inr (subst_fakes tab s))\<rparr>"

lemma table_restores:
  "list_all ascii (map fst tab) \<Longrightarrow> list_all valid_utf8 (map snd tab) \<Longrightarrow>
   restores table_restore tab () (subst_fakes tab)"
  by (simp add: restores_def table_restore_def subst_fakes_splits valid_utf8_subst_fakes)

subsection \<open>What the loops over the buffers do\<close>

definition cut_len ::
  "('e, 'k) doppel_restore \<Rightarrow> (field_key \<Rightarrow> bytes \<Rightarrow> nat option) \<Rightarrow> 'e list \<Rightarrow> field_key \<times> bytes \<Rightarrow> nat" where
  "cut_len D window entries ka =
     (case window (fst ka) (snd ka) of
        Some w \<Rightarrow> safe_len (map (fake D) entries) w (snd ka) | None \<Rightarrow> 0)"

definition texts_ok :: "('k \<times> bytes) list \<Rightarrow> bool" where
  "texts_ok accs \<longleftrightarrow> (\<forall>(k, a) \<in> set accs. valid_utf8 a)"

lemma flush_loop_cases:
  assumes "restores D entries session_key R" and "texts_ok accs"
  obtains "flush_loop D S window entries session_key accs queue = Inl Panicked" "unprintable S"
  | kts fs where
      "flush_loop D S window entries session_key accs queue =
         Inr (map (\<lambda>ka. (fst ka, drop (cut_len D window entries ka) (snd ka))) accs, queue @ fs)"
      "emits S kts fs" "set (map fst kts) \<subseteq> set (map fst accs)"
      "\<forall>key. key_text key kts =
         concat (map (\<lambda>ka. R (take (cut_len D window entries ka) (snd ka))) (filter (\<lambda>ka. fst ka = key) accs))"
  using assms(2)
proof (induction accs arbitrary: queue thesis)
  case Nil
  from Nil(2)[of "[]" "[]"] show thesis by simp
next
  case (Cons ka accs)
  obtain k a where ka: "ka = (k, a)" by (cases ka)
  have v: "valid_utf8 a" and rest: "texts_ok accs" using Cons.prems(3) by (auto simp: texts_ok_def ka)
  note IH = Cons.IH[OF _ _ rest]
  show thesis
  proof (cases "window k a")
    case None
    have c0: "cut_len D window entries ka = 0" by (simp add: cut_len_def ka None)
    have R0: "R [] = []" using assms(1) by (simp add: restores_def)
    show thesis
    proof (cases rule: IH[of queue])
      case 1
      then show thesis using Cons.prems(1) None by (simp add: ka)
    next
      case (2 fs kts)
      show thesis
        by (rule Cons.prems(2)[of fs kts]) (use 2 None c0 R0 in \<open>auto simp: ka\<close>)
    qed
  next
    case (Some w)
    let ?n = "safe_len (map (fake D) entries) w a"
    have cn: "cut_len D window entries ka = ?n" by (simp add: cut_len_def ka Some)
    show thesis
    proof (cases rule: flush_safe_prefix_cases[OF assms(1) v refl,
        where S = S and key = k and m = w and queue = queue])
      case 1
      then show thesis using Cons.prems(1) Some by (simp add: ka)
    next
      case (2 kts fs)
      show thesis
      proof (cases rule: IH[of "queue @ fs"])
        case 1
        then show thesis using Cons.prems(1) Some 2(1) by (simp add: ka)
      next
        case (2 fs' kts')
        have k: "key_text key kts = (if key = k then R (take ?n a) else [])" for key
        proof (cases "key = k")
          case False
          then have "filter (\<lambda>(k', t). k' = key) kts = []"
            using \<open>set (map fst kts) \<subseteq> {k}\<close> by (auto simp: filter_empty_conv)
          with False show ?thesis by (simp add: key_text_def)
        qed (use \<open>key_text k kts = R (take ?n a)\<close> in simp)
        show thesis
        proof (rule Cons.prems(2)[of "fs @ fs'" "kts @ kts'"])
          show "emits S (kts @ kts') (fs @ fs')"
            using \<open>emits S kts fs\<close> 2(2) by (rule emits_append)
          show "flush_loop D S window entries session_key (ka # accs) queue =
              Inr (map (\<lambda>ka. (fst ka, drop (cut_len D window entries ka) (snd ka))) (ka # accs), queue @ fs @ fs')"
            using \<open>flush_safe_prefix D S k a w entries session_key queue = Inr (drop ?n a, queue @ fs)\<close> 2(1) Some cn
            by (simp add: ka)
          show "set (map fst (kts @ kts')) \<subseteq> set (map fst (ka # accs))"
            using \<open>set (map fst kts) \<subseteq> {k}\<close> 2(3) by (auto simp: ka)
          show "\<forall>key. key_text key (kts @ kts') = concat (map (\<lambda>ka. R (take (cut_len D window entries ka) (snd ka)))
              (filter (\<lambda>ka. fst ka = key) (ka # accs)))"
            using k 2(4) cn by (simp add: ka)
        qed
      qed
    qed
  qed
qed

lemma texts_ok_drop:
  "texts_ok accs \<Longrightarrow> texts_ok (map (\<lambda>ka. (fst ka, drop (cut_len D window entries ka) (snd ka))) accs)"
  by (auto simp: texts_ok_def cut_len_def intro!: valid_utf8_drop_boundary safe_len_boundary split: option.split)

lemma filter_key: "distinct (map fst m) \<Longrightarrow>
   filter (\<lambda>ka. fst ka = key) m = (case map_of m key of Some a \<Rightarrow> [(key, a)] | None \<Rightarrow> [])"
proof (induction m)
  case (Cons p m)
  have "filter (\<lambda>ka. fst ka = fst p) m = []" 
    by (rule filter_False) (use Cons.prems in \<open>auto simp: image_iff\<close>)
  with Cons show ?case by (cases p) auto
qed simp

subsection \<open>One buffer from its first text to the end of the stream\<close>

text \<open>Every text is appended and the safe prefix flushed; at the end the rest is flushed with the
  window 0.\<close>

definition push_text ::
  "('e, 'k) doppel_restore \<Rightarrow> serde \<Rightarrow> field_key \<Rightarrow> 'e list \<Rightarrow> 'k \<Rightarrow> bytes \<times> bytes list \<Rightarrow> bytes
   \<Rightarrow> sse_error + bytes \<times> bytes list" where
  "push_text D S key entries session_key st t =
     flush_safe_prefix D S key (fst st @ t) (hold_window (map (fake D) entries)) entries session_key (snd st)"

definition push_texts ::
  "('e, 'k) doppel_restore \<Rightarrow> serde \<Rightarrow> field_key \<Rightarrow> 'e list \<Rightarrow> 'k \<Rightarrow> bytes list \<Rightarrow> sse_error + bytes list" where
  "push_texts D S key entries session_key ts =
     try_then (try_fold (push_text D S key entries session_key) ([], []) ts) (\<lambda>(accum, queue).
       try_then (flush_safe_prefix D S key accum 0 entries session_key queue) (\<lambda>(accum', queue'). Inr queue'))"

abbreviation code_window ::
  "('e, 'k) doppel_restore \<Rightarrow> 'e list \<Rightarrow> bytes \<Rightarrow> nat" where
  "code_window D entries \<equiv> safe_len (map (fake D) entries) (hold_window (map (fake D) entries))"

lemma push_text_pair:
  "push_text D S key entries session_key (a, queue) t =
     flush_safe_prefix D S key (a @ t) (hold_window (map (fake D) entries)) entries session_key queue"
  by (simp add: push_text_def)

lemma window_okD: "window_ok D entries session_key R a \<Longrightarrow>
    restores D entries session_key R \<and> good_fakes (map (fake D) entries) \<and> valid_utf8 a"
  by (simp add: window_ok_def)

lemma push_texts_fold_cases:
  assumes "window_ok D entries session_key R a" and "list_all (window_ok D entries session_key R) ts"
  obtains "try_fold (push_text D S key entries session_key) (a, queue) ts = Inl Panicked" "unprintable S"
  | kts fs where
      "try_fold (push_text D S key entries session_key) (a, queue) ts =
         Inr (snd (window_run R (code_window D entries) a ts), queue @ fs)"
      "emits S kts fs" "set (map fst kts) \<subseteq> {key}"
      "key_text key kts = concat (fst (window_run R (code_window D entries) a ts))"
  using assms
proof (induction ts arbitrary: a queue thesis)
  case Nil
  from Nil(2)[of "[]" "[]"] show thesis by simp
next
  case (Cons t ts)
  let ?n = "code_window D entries (a @ t)"
  have ok: "window_ok D entries session_key R (a @ t)"
    using Cons.prems(3,4) by (simp add: win.ok_append)
  note rest = win.ok_rest[OF ok]
  have ts: "list_all (window_ok D entries session_key R) ts" using Cons.prems(4) by simp
  note w = window_okD[OF ok]
  show thesis
  proof (cases rule: flush_safe_prefix_cases[OF w[THEN conjunct1] w[THEN conjunct2, THEN conjunct2] refl,
        where S = S and key = key and m = "hold_window (map (fake D) entries)" and queue = queue])
    case 1
    then show thesis using Cons.prems(1) by (simp add: push_text_pair)
  next
    case one: (2 kts fs)
    show thesis
    proof (rule Cons.IH[where queue = "queue @ fs", OF _ _ rest ts])
      assume "try_fold (push_text D S key entries session_key) (drop ?n (a @ t), queue @ fs) ts = Inl Panicked"
        "unprintable S"
      then show thesis using Cons.prems(1) one(1) by (simp add: push_text_pair del: drop_append)
    next
      fix kts' fs'
      assume fold: "try_fold (push_text D S key entries session_key) (drop ?n (a @ t), queue @ fs) ts =
          Inr (snd (window_run R (code_window D entries) (drop ?n (a @ t)) ts), (queue @ fs) @ fs')"
        and e: "emits S kts' fs'" "set (map fst kts') \<subseteq> {key}"
          "key_text key kts' = concat (fst (window_run R (code_window D entries) (drop ?n (a @ t)) ts))"
      show thesis
        by (rule Cons.prems(2)[of "fs @ fs'" "kts @ kts'"])
          (use one fold e in \<open>auto simp: push_text_pair emits_append case_prod_unfold simp del: drop_append take_append\<close>)
    qed
  qed
qed

subsection \<open>Properties\<close>

text \<open>C8: Streaming restores as much as restoring at once. Whatever pieces a text arrives in, the
  frames that are emitted for its buffer carry, put together, exactly what restoring the whole text
  gives: no fake is missed because it was spread over pieces, nothing is lost, doubled or reordered,
  and no empty frame is emitted. The only failure there can be is a JSON value that does not print.
  The fakes must be ASCII and free of overlaps.\<close>

theorem window_restores_all:
  assumes "restores D entries session_key R" and "good_fakes (map (fake D) entries)"
    and "\<forall>t \<in> set ts. valid_utf8 t"
  shows "case push_texts D S key entries session_key ts of
      Inl e \<Rightarrow> e = Panicked \<and> unprintable S
    | Inr frames \<Rightarrow> \<exists>kts. emits S kts frames \<and> set (map fst kts) \<subseteq> {key}
        \<and> key_text key kts = R (concat ts)"
proof -
  have ok: "window_ok D entries session_key R []" "list_all (window_ok D entries session_key R) ts"
    using assms by (auto simp: window_ok_def list_all_iff)
  show ?thesis
  proof (cases rule: push_texts_fold_cases[OF ok, of S key "[]"])
    case 1
    then show ?thesis by (simp add: push_texts_def)
  next
    case fold: (2 kts fs)
    let ?rest = "snd (window_run R (code_window D entries) [] ts)"
    have v: "valid_utf8 ?rest" using win.run_ok[OF ok] by (simp add: window_ok_def)
    show ?thesis
    proof (cases rule: flush_safe_prefix_cases[OF assms(1) v refl, where S = S and key = key and m = 0 and queue = fs])
      case 1
      with fold(1) show ?thesis by (simp add: push_texts_def)
    next
      case (2 kts' fs')
      have "key_text key (kts @ kts') = R (concat ts)"
        using fold(4) 2(4) win.run_total[OF ok] by simp
      moreover have "set (map fst (kts @ kts')) \<subseteq> {key}" using fold(3) 2(3) by simp
      moreover have "push_texts D S key entries session_key ts = Inr (fs @ fs')"
        using fold(1) 2(1) by (simp add: push_texts_def)
      ultimately show ?thesis using emits_append[OF fold(2) 2(2)] by fastforce
    qed
  qed
qed

definition wit_tab :: "(bytes \<times> bytes) list" where
  "wit_tab = [(''FAKE'', ''REAL'')]"

definition wit_serde :: serde where
  "wit_serde = table_serde [(''1'', synthetic_value OpenAiContent ''x''),
     (''2'', synthetic_value OpenAiContent ''REALy'')]"

lemma overlap_free_list:
  "overlap_free fakes \<longleftrightarrow>
     list_all (\<lambda>f. list_all (\<lambda>g. list_all (\<lambda>k. k < length g \<longrightarrow> drop (length f - k) f \<noteq> take k g)
       [1..<length f]) fakes) fakes"
  by (simp add: overlap_free_def list_all_iff)

lemma wit_fake_good: "good_fakes [''FAKE'']"
  by (simp add: good_fakes_def overlap_free_list upt_rec ascii_def)

lemma wit_tab_good: "good_fakes (map (fake table_restore) wit_tab)"
  using wit_fake_good by (simp add: wit_tab_def table_restore_def)

lemma wit_tab_restores: "restores table_restore wit_tab () (subst_fakes wit_tab)"
  by (rule table_restores) code_simp+

theorem window_restores_all_witness:
  "\<exists>frames kts. push_texts table_restore wit_serde OpenAiContent wit_tab () [''xFA'', ''KEy''] = Inr frames
     \<and> emits wit_serde kts frames \<and> key_text OpenAiContent kts = ''xREALy''"
proof -
  let ?p = "push_texts table_restore wit_serde OpenAiContent wit_tab () [''xFA'', ''KEy'']"
  have p: "?p \<noteq> Inl Panicked" by code_simp
  have v: "\<forall>t \<in> set [''xFA'', ''KEy'']. valid_utf8 t" by code_simp
  have s: "subst_fakes wit_tab (concat [''xFA'', ''KEy'']) = ''xREALy''" by code_simp
  from window_restores_all[OF wit_tab_restores wit_tab_good v, of wit_serde OpenAiContent] p s
  show ?thesis by (cases ?p) auto
qed

text \<open>C22: The window never cuts a fake: where \<open>flush_safe_prefix\<close> cuts a buffer, no fake that
  is in the buffer, or that is completed by whatever is appended later, lies across the cut, and the
  cut is between two characters. The fakes must be ASCII, free of overlaps and not longer than the
  window.\<close>

theorem flush_cuts_no_fake:
  assumes "good_fakes fakes" and "\<forall>f \<in> set fakes. length f \<le> m" and "valid_utf8 accum"
  shows "clean fakes (take (safe_len fakes m accum) accum) (drop (safe_len fakes m accum) accum @ later)
    \<and> valid_utf8 (take (safe_len fakes m accum) accum) \<and> valid_utf8 (drop (safe_len fakes m accum) accum)"
proof -
  have "\<forall>f \<in> set fakes. ascii f \<and> length f \<le> m" "overlap_free fakes"
    using assms by (auto simp: good_fakes_def list_all_iff)
  from safe_len_clean[OF this(2,1) assms(3) refl] show ?thesis
    using valid_utf8_take_boundary[OF assms(3) safe_len_boundary]
      valid_utf8_drop_boundary[OF assms(3) safe_len_boundary] by blast
qed

theorem flush_cuts_no_fake_witness:
  "clean [''FAKE''] (take (safe_len [''FAKE''] 4 ''xFAKEy'') ''xFAKEy'')
     (drop (safe_len [''FAKE''] 4 ''xFAKEy'') ''xFAKEy'' @ ''z'')"
proof -
  have 2: "\<forall>f \<in> set [''FAKE'']. length f \<le> 4" by simp
  have 3: "valid_utf8 ''xFAKEy''" by code_simp
  from flush_cuts_no_fake[OF wit_fake_good 2 3] show ?thesis by blast
qed

text \<open>C40: What a buffer holds back is bounded: after a flush at most twice the window and two more
  bytes stay, whatever arrived. (The module documentation promises the window itself,
  \<open>max_fake_len\<close>; a retracted target exceeds it.)\<close>

theorem flush_holds_little:
  assumes "valid_utf8 accum" and "\<forall>e \<in> set entries. length (fake D e) \<le> m" and "0 < m"
    and "flush_safe_prefix D S key accum m entries session_key queue = Inr (accum', queue')"
  shows "length accum' \<le> 2 * m + 2"
proof -
  let ?n = "safe_len (map (fake D) entries) m accum"
  have "accum' = drop ?n accum"
    using assms(4) by (auto simp: flush_safe_prefix_def Let_def result_simps split: if_splits)
  moreover have "length accum \<le> ?n + 2 * m + 2"
    by (rule safe_len_holds[OF assms(1) _ assms(3)]) (use assms(2) in simp)
  ultimately show ?thesis by simp
qed

theorem flush_holds_little_witness:
  "length (snd (push_texts table_restore wit_serde OpenAiContent wit_tab () [], ''FAKEy'')) \<le> 10
   \<and> flush_safe_prefix table_restore wit_serde OpenAiContent ''xFAKEy'' 4 wit_tab () []
       = Inr (''FAKEy'', [format_frame None ''1''])"
proof -
  have f: "flush_safe_prefix table_restore wit_serde OpenAiContent ''xFAKEy'' 4 wit_tab () []
       = Inr (''FAKEy'', [format_frame None ''1''])" by code_simp
  have v: "valid_utf8 ''xFAKEy''" by code_simp
  have w: "\<forall>e \<in> set wit_tab. length (fake table_restore e) \<le> 4" by code_simp
  from flush_holds_little[OF v w _ f] f show ?thesis by simp
qed

lemma hold_exceeds_window:
  "safe_len [''abcd''] 4 ''xxabcyyyy'' = 2 \<and> length (drop 2 ''xxabcyyyy'') = 7"
  by code_simp

text \<open>A terminal flush empties exactly the selected buffers. Their whole content is emitted,
  restored, under their keys; the other buffers and the frames already queued stay as they are.\<close>

theorem terminal_flush_is_complete:
  assumes "restores D entries session_key R" and "texts_ok accumulators" and "distinct (map fst accumulators)"
  shows "case flush_accumulators_where D S accumulators pred entries session_key queue of
      Inl e \<Rightarrow> e = Panicked \<and> unprintable S
    | Inr (accumulators', queue') \<Rightarrow>
        accumulators' = map (\<lambda>(k, a). (k, if pred k then [] else a)) accumulators
        \<and> (\<exists>kts frames. queue' = queue @ frames \<and> emits S kts frames
             \<and> (\<forall>key. key_text key kts =
                  (case map_of accumulators key of Some a \<Rightarrow> if pred key then R a else [] | None \<Rightarrow> [])))"
proof -
  let ?w = "\<lambda>key accum :: bytes. if accum = [] \<or> \<not> pred key then None else Some (0::nat)"
  have c: "cut_len D ?w entries (k, a) = (if pred k then length a else 0)" for k a
    by (simp add: cut_len_def)
  have R0: "R [] = []" using assms(1) by (simp add: restores_def)
  show ?thesis
  proof (cases rule: flush_loop_cases[OF assms(1,2), where window = ?w and S = S and queue = queue])
    case 1
    then show ?thesis by (simp add: flush_accumulators_where_def)
  next
    case (2 kts fs)
    have m: "map (\<lambda>ka. (fst ka, drop (cut_len D ?w entries ka) (snd ka))) accumulators
        = map (\<lambda>(k, a). (k, if pred k then [] else a)) accumulators"
      by (rule map_cong[OF refl]) (auto simp: c split: prod.split)
    have "key_text key kts =
        (case map_of accumulators key of Some a \<Rightarrow> if pred key then R a else [] | None \<Rightarrow> [])" for key
      using 2(4) by (auto simp: filter_key[OF assms(3)] c R0 split: option.split)
    with 2 m show ?thesis by (auto simp: flush_accumulators_where_def)
  qed
qed

theorem terminal_flush_is_complete_witness:
  "\<exists>kts frames. flush_accumulators_where table_restore wit_serde
       [(OpenAiContent, ''x''), (OpenAiRefusal, ''FAKE'')] (\<lambda>k. k = OpenAiContent) wit_tab () [] =
       Inr ([(OpenAiContent, []), (OpenAiRefusal, ''FAKE'')], frames)
     \<and> emits wit_serde kts frames \<and> key_text OpenAiContent kts = ''x''"
proof -
  let ?accs = "[(OpenAiContent, ''x''), (OpenAiRefusal, ''FAKE'')]"
  let ?f = "flush_accumulators_where table_restore wit_serde ?accs (\<lambda>k. k = OpenAiContent) wit_tab () []"
  have p: "?f \<noteq> Inl Panicked" by code_simp
  have t: "texts_ok ?accs" and d: "distinct (map fst ?accs)" by code_simp+
  have s: "subst_fakes wit_tab ''x'' = ''x''" by code_simp
  note main = terminal_flush_is_complete[OF wit_tab_restores t d, of wit_serde "\<lambda>k. k = OpenAiContent" "[]"]
  obtain accs' q where f: "?f = Inr (accs', q)" using main p by (cases ?f) auto
  from main obtain kts frames where "q = frames" "emits wit_serde kts frames"
    "key_text OpenAiContent kts = ''x''" "accs' = [(OpenAiContent, []), (OpenAiRefusal, ''FAKE'')]"
    by (auto simp: f s simp del: subst_fakes.simps dest!: spec[of _ OpenAiContent])
  with f show ?thesis by blast
qed

subsection \<open>Where it fails\<close>

text \<open>A fake that ends with its own beginning is not restored when it ends at the nominal target:
  the target is retracted into the fake, and the two halves are restored apart from each other.\<close>

lemma fake_with_border_is_missed:
  "let tab = [(''aba'', ''SECRET'')];
       S = table_serde [(''1'', synthetic_value OpenAiContent ''ab''),
                        (''2'', synthetic_value OpenAiContent ''axyz'')]
   in push_texts table_restore S OpenAiContent tab () [''abaxyz'']
        = Inr [format_frame None ''1'', format_frame None ''2'']
      \<and> subst_fakes tab ''abaxyz'' = ''SECRETxyz''"
  by code_simp

end
