(* ===== verification/SseFrames.thy ===== *)
theory SseFrames
  imports SseWindow
begin

text \<open>
  Frames and chunks of the restore stream, \<open>crates/lcp-server/src/ext/sse_restore.rs\<close>:
  \<open>process_one_frame\<close> and \<open>process_sse_chunk\<close>. The mutable variables of the source are the
  record \<open>sse_state\<close>; a function returns the new state, or the error with which the stream ends
  (the state is dropped then). Frames ready for the client are appended to \<open>output_queue\<close>.
\<close>

record ('e, 'k) sse_ctx =
  ctx_entries :: "'e list"
  ctx_session_key :: 'k
  ctx_provider :: provider
  ctx_max_fake_len :: nat

record sse_state =
  accumulators :: "(field_key \<times> bytes) list"
  raw_fragment :: bytes
  output_queue :: "bytes list"
  deferred_passthrough :: "bytes list"

definition push_back :: "bytes \<Rightarrow> sse_state \<Rightarrow> sse_state" where
  "push_back frame st = st\<lparr>output_queue := output_queue st @ [frame]\<rparr>"

subsection \<open>Non-text content of Gemini frames\<close>

definition call_extra :: "json \<Rightarrow> (string \<times> json) list" where
  "call_extra fc =
     (let with_name = (case jget fc ''name'' of Some name \<Rightarrow> om_insert ''name'' name [] | None \<Rightarrow> [])
      in case Option.bind (jget fc ''args'') as_object of
           Some args \<Rightarrow>
             let non_str = om_from (filter (\<lambda>(k, v). \<not> is_string v) args)
             in if non_str \<noteq> [] then om_insert ''args'' (JObject non_str) with_name else with_name
         | None \<Rightarrow> with_name)"

definition call_candidates :: "(string \<times> json) list \<Rightarrow> json" where
  "call_candidates fc_extra =
     JArray [jobj [(''content'', jobj [(''parts'', JArray [jobj [(''functionCall'', JObject fc_extra)]])])]]"

definition extra_of_part :: "(string \<times> json) list \<Rightarrow> json \<Rightarrow> (string \<times> json) list" where
  "extra_of_part extra part =
     (case jget part ''functionCall'' of
        Some fc \<Rightarrow>
          if call_extra fc \<noteq> [] then om_insert ''candidates'' (call_candidates (call_extra fc)) extra else extra
      | None \<Rightarrow> extra)"

definition insert_present :: "string \<Rightarrow> json \<Rightarrow> (string \<times> json) list \<Rightarrow> (string \<times> json) list" where
  "insert_present k json extra = (case jget json k of Some v \<Rightarrow> om_insert k v extra | None \<Rightarrow> extra)"

definition gemini_extra :: "json \<Rightarrow> (string \<times> json) list" where
  "gemini_extra json =
     (let extra = insert_present ''groundingMetadata'' json (insert_present ''thoughtSignature'' json [])
      in case Option.bind (jpointer json [''candidates'', ''0'', ''content'', ''parts'']) as_array of
           Some arr \<Rightarrow> foldl extra_of_part extra arr
         | None \<Rightarrow> extra)"

definition defer_gemini :: "serde \<Rightarrow> json \<Rightarrow> sse_state \<Rightarrow> sse_error + sse_state" where
  "defer_gemini S json st =
     (if gemini_extra json = [] then Inr st
      else try_then (json_str S (JObject (gemini_extra json))) (\<lambda>s.
        Inr (st\<lparr>deferred_passthrough := deferred_passthrough st @ [format_frame None s]\<rparr>)))"

subsection \<open>One frame\<close>

definition push_field :: "(field_key \<times> bytes) list \<Rightarrow> field_key \<times> string \<Rightarrow> (field_key \<times> bytes) list" where
  "push_field accs kt =
     om_insert (fst kt) ((case map_of accs (fst kt) of Some a \<Rightarrow> a | None \<Rightarrow> []) @ snd kt) accs"

definition with_flush :: "sse_state \<Rightarrow> (field_key \<times> bytes) list \<times> bytes list \<Rightarrow> sse_state" where
  "with_flush st aq = st\<lparr>accumulators := fst aq, output_queue := snd aq\<rparr>"

definition flush_where ::
  "('e, 'k) doppel_restore \<Rightarrow> serde \<Rightarrow> ('e, 'k) sse_ctx \<Rightarrow> (field_key \<Rightarrow> bool) \<Rightarrow> sse_state \<Rightarrow> sse_error + sse_state" where
  "flush_where D S ctx pred st =
     try_then (flush_accumulators_where D S (accumulators st) pred (ctx_entries ctx) (ctx_session_key ctx)
                 (output_queue st)) (\<lambda>aq. Inr (with_flush st aq))"

definition flush_everything ::
  "('e, 'k) doppel_restore \<Rightarrow> serde \<Rightarrow> ('e, 'k) sse_ctx \<Rightarrow> sse_state \<Rightarrow> sse_error + sse_state" where
  "flush_everything D S ctx st =
     try_then (flush_all_accumulators D S (accumulators st) (ctx_entries ctx) (ctx_session_key ctx)
                 (output_queue st)) (\<lambda>aq. Inr (with_flush st aq))"

definition flush_ready ::
  "('e, 'k) doppel_restore \<Rightarrow> serde \<Rightarrow> ('e, 'k) sse_ctx \<Rightarrow> sse_state \<Rightarrow> sse_error + sse_state" where
  "flush_ready D S ctx st =
     try_then (flush_loop D S (\<lambda>key accum. Some (ctx_max_fake_len ctx)) (ctx_entries ctx) (ctx_session_key ctx)
                 (accumulators st) (output_queue st)) (\<lambda>aq. Inr (with_flush st aq))"

definition drain_deferred :: "sse_state \<Rightarrow> sse_state" where
  "drain_deferred st =
     st\<lparr>output_queue := output_queue st @ deferred_passthrough st, deferred_passthrough := []\<rparr>"

definition is_anthropic_block :: "64 word \<Rightarrow> field_key \<Rightarrow> bool" where
  "is_anthropic_block n k = (case k of AnthropicDelta delta_type index \<Rightarrow> index = n | _ \<Rightarrow> False)"

definition process_terminal ::
  "('e, 'k) doppel_restore \<Rightarrow> serde \<Rightarrow> ('e, 'k) sse_ctx \<Rightarrow> terminal_scope option \<Rightarrow> sse_state \<Rightarrow> sse_error + sse_state" where
  "process_terminal D S ctx scope st =
     (case scope of
        Some (Block n) \<Rightarrow> flush_where D S ctx (is_anthropic_block n) st
      | Some Stream \<Rightarrow>
          try_then (flush_everything D S ctx st) (\<lambda>st'.
            Inr (if ctx_provider ctx = Gemini then drain_deferred st' else st'))
      | None \<Rightarrow> Inr st)"

definition process_content ::
  "('e, 'k) doppel_restore \<Rightarrow> serde \<Rightarrow> ('e, 'k) sse_ctx \<Rightarrow> (field_key \<times> string) list \<Rightarrow> json
   \<Rightarrow> sse_state \<Rightarrow> sse_error + sse_state" where
  "process_content D S ctx extracted json st =
     (let st1 = st\<lparr>accumulators := foldl push_field (accumulators st) extracted\<rparr> in
      try_then (if ctx_provider ctx = Gemini then defer_gemini S json st1 else Inr st1) (\<lambda>st2.
        flush_ready D S ctx st2))"

definition process_one_frame ::
  "('e, 'k) doppel_restore \<Rightarrow> serde \<Rightarrow> ('e, 'k) sse_ctx \<Rightarrow> bytes \<Rightarrow> sse_state \<Rightarrow> sse_error + sse_state" where
  "process_one_frame D S ctx frame st =
     (let event_type = frame_event_type frame in
      case frame_data frame of
        None \<Rightarrow> Inr (push_back frame st)
      | Some data_str \<Rightarrow>
          (case parse_json S data_str of
             None \<Rightarrow>
               try_then
                 (if str_trim data_str = ''[DONE]'' \<and> (ctx_provider ctx = OpenAi \<or> ctx_provider ctx = OpenRouter)
                  then flush_everything D S ctx st else Inr st)
                 (\<lambda>st'. Inr (push_back frame st'))
           | Some json \<Rightarrow>
               let extracted = extract_fields json (ctx_provider ctx) event_type in
               if extracted = [] then
                 try_then (process_terminal D S ctx (classify_terminal json event_type (ctx_provider ctx)) st)
                   (\<lambda>st'. Inr (push_back frame st'))
               else process_content D S ctx extracted json st))"

subsection \<open>Chunks\<close>

text \<open>The loop over the complete frames of the normalized text; the result is the unconsumed
  rest and the state.\<close>

function process_frames ::
  "(bytes \<Rightarrow> sse_state \<Rightarrow> sse_error + sse_state) \<Rightarrow> bytes \<Rightarrow> sse_state \<Rightarrow> sse_error + bytes \<times> sse_state" where
  "process_frames frame_step rest st =
     (case find_sub [LF, LF] rest of
        None \<Rightarrow> Inr (rest, st)
      | Some rel_end \<Rightarrow>
          try_then (frame_step (take (rel_end + 2) rest) st) (\<lambda>st'.
            process_frames frame_step (drop (rel_end + 2) rest) st'))"
  by pat_completeness auto
termination
  by (relation "measure (\<lambda>(g, rest, st). length rest)") (auto dest: find_sub_Some)

declare process_frames.simps [simp del]

definition process_sse_chunk ::
  "('e, 'k) doppel_restore \<Rightarrow> serde \<Rightarrow> ('e, 'k) sse_ctx \<Rightarrow> bytes \<Rightarrow> sse_state \<Rightarrow> sse_error + sse_state" where
  "process_sse_chunk D S ctx new_chunk st =
     (let raw = raw_fragment st @ new_chunk in
      case from_utf8 raw of
        Inl n \<Rightarrow> Inr (st\<lparr>raw_fragment := raw\<rparr>)
      | Inr s \<Rightarrow>
          try_then (process_frames (process_one_frame D S ctx) (replace_crlf s) st) (\<lambda>(rest, st').
            Inr (st'\<lparr>raw_fragment := rest\<rparr>)))"

text \<open>The end of the inner stream: all buffers are flushed, what Gemini frames deferred follows, and
  bytes that never became a frame come last.\<close>

definition finish_sse ::
  "('e, 'k) doppel_restore \<Rightarrow> serde \<Rightarrow> ('e, 'k) sse_ctx \<Rightarrow> sse_state \<Rightarrow> sse_error + bytes list" where
  "finish_sse D S ctx st =
     try_then (flush_everything D S ctx st) (\<lambda>st'.
       Inr (output_queue (drain_deferred st') @ (if raw_fragment st' \<noteq> [] then [raw_fragment st'] else [])))"

subsection \<open>Texts of a parsed value\<close>

text \<open>The strings of a parsed value are Rust strings, hence well-formed UTF-8.\<close>

fun json_utf8 :: "json \<Rightarrow> bool" where
  "json_utf8 (JString s) = valid_utf8 s"
| "json_utf8 (JArray vs) = list_all json_utf8 vs"
| "json_utf8 (JObject m) = list_all (\<lambda>(k, v). json_utf8 v) m"
| "json_utf8 _ = True"

definition json_strings :: "serde \<Rightarrow> bool" where
  "json_strings S \<longleftrightarrow> (\<forall>b v. parse_json S b = Some v \<longrightarrow> json_utf8 v)"

lemma json_utf8_jget: "json_utf8 v \<Longrightarrow> jget v k = Some w \<Longrightarrow> json_utf8 w"
  by (cases v) (auto simp: list_all_iff dest!: map_of_SomeD)

lemma json_utf8_jget_idx: "json_utf8 v \<Longrightarrow> jget_idx v i = Some w \<Longrightarrow> json_utf8 w"
  by (cases v) (auto simp: list_all_iff split: if_splits)

lemma json_utf8_jindex: "json_utf8 v \<Longrightarrow> json_utf8 (jindex v k)"
  by (auto simp: jindex_def intro: json_utf8_jget split: option.split)

lemma json_utf8_jpointer: "json_utf8 v \<Longrightarrow> jpointer v ts = Some w \<Longrightarrow> json_utf8 w"
proof (induction ts arbitrary: v)
  case (Cons t ts)
  then obtain u where u: "jpointer u ts = Some w"
    "jget v t = Some u \<or> (\<exists>i. jget_idx v i = Some u)"
    by (cases v) (auto simp: jpointer.simps(2) split: option.splits)
  then have "json_utf8 u" using Cons.prems(1) json_utf8_jget json_utf8_jget_idx by blast
  with Cons.IH u(1) show ?case by blast
qed simp

lemma json_utf8_as_str: "json_utf8 v \<Longrightarrow> as_str v = Some s \<Longrightarrow> valid_utf8 s"
  by (cases v) auto

lemma json_utf8_as_array: "json_utf8 v \<Longrightarrow> as_array v = Some vs \<Longrightarrow> w \<in> set vs \<Longrightarrow> json_utf8 w"
  by (cases v) (auto simp: list_all_iff)

lemma json_utf8_as_object: "json_utf8 v \<Longrightarrow> as_object v = Some m \<Longrightarrow> (k, w) \<in> set m \<Longrightarrow> json_utf8 w"
  by (cases v) (auto simp: list_all_iff)

lemma texts_ok_Nil: "texts_ok []"
  by (simp add: texts_ok_def)

lemma texts_ok_single: "valid_utf8 t \<Longrightarrow> texts_ok [(k, t)]"
  by (simp add: texts_ok_def)

lemma texts_ok_append: "texts_ok a \<Longrightarrow> texts_ok b \<Longrightarrow> texts_ok (a @ b)"
  by (auto simp: texts_ok_def)

lemma texts_ok_concat: "(\<And>x. x \<in> set xs \<Longrightarrow> texts_ok (f x)) \<Longrightarrow> texts_ok (concat (map f xs))"
  by (auto simp: texts_ok_def)

lemma texts_ok_if: "(c \<Longrightarrow> texts_ok a) \<Longrightarrow> (\<not> c \<Longrightarrow> texts_ok b) \<Longrightarrow> texts_ok (if c then a else b)"
  by simp

lemma texts_ok_option:
  "(\<And>s. x = Some s \<Longrightarrow> texts_ok (f s)) \<Longrightarrow> texts_ok (case x of Some s \<Rightarrow> f s | None \<Rightarrow> [])"
  by (cases x) (auto simp: texts_ok_Nil)

lemmas texts_ok_intros = texts_ok_Nil texts_ok_single texts_ok_append texts_ok_concat texts_ok_if texts_ok_option

lemmas utf8_dests = json_utf8_jget json_utf8_jpointer json_utf8_as_str json_utf8_as_array json_utf8_as_object

lemma extract_anthropic_utf8: "json_utf8 v \<Longrightarrow> texts_ok (extract_anthropic v)"
  unfolding extract_anthropic_def Let_def
  by (intro texts_ok_intros) (rule json_utf8_as_str, rule json_utf8_jindex, rule json_utf8_jindex; assumption)+

lemma extract_tool_call_utf8: "json_utf8 v \<Longrightarrow> texts_ok (extract_tool_call v)"
  unfolding extract_tool_call_def Let_def
  by (intro texts_ok_intros) (auto simp: bind_eq_Some_conv intro: utf8_dests)

lemma extract_chat_delta_utf8: "json_utf8 v \<Longrightarrow> texts_ok (extract_chat_delta v)"
  unfolding extract_chat_delta_def
  by (intro texts_ok_intros) (auto simp: bind_eq_Some_conv intro: utf8_dests extract_tool_call_utf8)

lemma extract_openai_utf8: "json_utf8 v \<Longrightarrow> texts_ok (extract_openai v ev)"
proof -
  assume v: "json_utf8 v"
  have r: "texts_ok (extract_responses_api v et)" for et
    unfolding extract_responses_api_def
    by (intro texts_ok_intros) (use v in \<open>auto simp: bind_eq_Some_conv intro: utf8_dests\<close>)
  have d: "texts_ok (case jpointer v p of Some delta \<Rightarrow> extract_chat_delta delta | None \<Rightarrow> [])" for p
    by (intro texts_ok_option extract_chat_delta_utf8) (rule json_utf8_jpointer[OF v])
  show ?thesis using r d by (cases ev) (simp_all add: extract_openai_def)
qed

lemma extract_gemini_part_utf8: "json_utf8 v \<Longrightarrow> texts_ok (extract_gemini_part i v)"
  unfolding extract_gemini_part_def
  by (intro texts_ok_intros) (auto simp: bind_eq_Some_conv intro!: texts_ok_intros intro: utf8_dests)

lemma extract_gemini_utf8: "json_utf8 v \<Longrightarrow> texts_ok (extract_gemini v)"
  unfolding extract_gemini_def
  by (intro texts_ok_intros)
     (auto simp: bind_eq_Some_conv in_set_enumerate_eq intro!: extract_gemini_part_utf8
        intro: json_utf8_as_array[OF json_utf8_jpointer _ nth_mem])

lemma extract_fields_utf8: "json_utf8 v \<Longrightarrow> texts_ok (extract_fields v p ev)"
  by (cases p) (simp_all add: extract_anthropic_utf8 extract_openai_utf8 extract_gemini_utf8)

subsection \<open>What a frame is for the stream\<close>

datatype frame_class =
    Passes
  | Ends "field_key \<Rightarrow> bool" bool
  | Carries "(field_key \<times> string) list" json

text \<open>\<open>Ends\<close> says which buffers are flushed before the frame, and whether the deferred Gemini
  content follows them.\<close>

definition class_of_scope :: "provider \<Rightarrow> terminal_scope option \<Rightarrow> frame_class" where
  "class_of_scope p scope =
     (case scope of
        None \<Rightarrow> Passes
      | Some (Block n) \<Rightarrow> Ends (is_anthropic_block n) False
      | Some Stream \<Rightarrow> Ends (\<lambda>k. True) (p = Gemini))"

definition frame_class :: "serde \<Rightarrow> provider \<Rightarrow> bytes \<Rightarrow> frame_class" where
  "frame_class S p frame =
     (case frame_data frame of
        None \<Rightarrow> Passes
      | Some d \<Rightarrow>
          (case parse_json S d of
             None \<Rightarrow> if str_trim d = ''[DONE]'' \<and> (p = OpenAi \<or> p = OpenRouter) then Ends (\<lambda>k. True) False
                     else Passes
           | Some json \<Rightarrow>
               if extract_fields json p (frame_event_type frame) = []
               then class_of_scope p (classify_terminal json (frame_event_type frame) p)
               else Carries (extract_fields json p (frame_event_type frame)) json))"

lemma flush_everything_where: "flush_everything D S ctx st = flush_where D S ctx (\<lambda>k. True) st"
  by (simp add: flush_everything_def flush_all_accumulators_def flush_where_def)

lemma process_one_frame_class:
  "process_one_frame D S ctx frame st =
     (case frame_class S (ctx_provider ctx) frame of
        Passes \<Rightarrow> Inr (push_back frame st)
      | Ends pred drain \<Rightarrow>
          try_then (flush_where D S ctx pred st) (\<lambda>st'.
            Inr (push_back frame (if drain then drain_deferred st' else st')))
      | Carries flds json \<Rightarrow> process_content D S ctx flds json st)"
proof (cases "frame_data frame")
  case None
  then show ?thesis by (simp add: process_one_frame_def frame_class_def)
next
  case (Some d)
  let ?ev = "frame_event_type frame" and ?p = "ctx_provider ctx"
  show ?thesis
  proof (cases "parse_json S d")
    case None
    with Some show ?thesis
      by (auto simp: process_one_frame_def frame_class_def flush_everything_where)
  next
    case json: (Some v)
    have t: "try_then (process_terminal D S ctx scope st) (\<lambda>st'. Inr (push_back frame st')) =
        (case class_of_scope ?p scope of
           Passes \<Rightarrow> Inr (push_back frame st)
         | Ends pred drain \<Rightarrow>
             try_then (flush_where D S ctx pred st) (\<lambda>st'.
               Inr (push_back frame (if drain then drain_deferred st' else st')))
         | Carries flds json \<Rightarrow> process_content D S ctx flds json st)" for scope
      by (auto simp: process_terminal_def class_of_scope_def flush_everything_where try_then_assoc
          split: option.split terminal_scope.split)
    show ?thesis
      using Some json t by (simp add: process_one_frame_def frame_class_def Let_def)
  qed
qed

lemma frame_class_texts:
  assumes "json_strings S" and "frame_class S p frame = Carries flds json"
  shows "texts_ok flds \<and> flds \<noteq> []"
proof -
  from assms(2) obtain d where d: "frame_data frame = Some d" "parse_json S d = Some json"
    "flds = extract_fields json p (frame_event_type frame)" "flds \<noteq> []"
    by (auto simp: frame_class_def class_of_scope_def split: option.splits if_splits terminal_scope.splits)
  with assms(1) show ?thesis using extract_fields_utf8 by (auto simp: json_strings_def)
qed

subsection \<open>What the client receives\<close>

text \<open>The frames of the output are restored text of a buffer, frames of the upstream as they are,
  and deferred Gemini content.\<close>

datatype out_item =
    Restored field_key string
  | Passed bytes
  | Deferred json

fun renders_as :: "serde \<Rightarrow> out_item \<Rightarrow> bytes \<Rightarrow> bool" where
  "renders_as S (Restored k t) f \<longleftrightarrow> t \<noteq> [] \<and> build_synthetic_sse_frame S k t = Inr f"
| "renders_as S (Passed g) f \<longleftrightarrow> f = g"
| "renders_as S (Deferred v) f \<longleftrightarrow> (\<exists>s. print_json S v = Some s \<and> f = format_frame None s)"

definition renders :: "serde \<Rightarrow> out_item list \<Rightarrow> bytes list \<Rightarrow> bool" where
  "renders S items frames \<longleftrightarrow> list_all2 (renders_as S) items frames"

fun item_text :: "field_key \<Rightarrow> out_item \<Rightarrow> string" where
  "item_text key (Restored k t) = (if k = key then t else [])"
| "item_text key _ = []"

fun item_passed :: "out_item \<Rightarrow> bytes list" where
  "item_passed (Passed f) = [f]"
| "item_passed _ = []"

fun item_deferred :: "out_item \<Rightarrow> json list" where
  "item_deferred (Deferred v) = [v]"
| "item_deferred _ = []"

definition out_text :: "field_key \<Rightarrow> out_item list \<Rightarrow> string" where
  "out_text key items = concat (map (item_text key) items)"

definition passed_of :: "out_item list \<Rightarrow> bytes list" where
  "passed_of items = concat (map item_passed items)"

definition deferred_of :: "out_item list \<Rightarrow> json list" where
  "deferred_of items = concat (map item_deferred items)"

lemmas item_defs = out_text_def passed_of_def deferred_of_def

lemma out_text_append [simp]: "out_text key (a @ b) = out_text key a @ out_text key b"
  by (simp add: out_text_def)

lemma passed_of_append [simp]: "passed_of (a @ b) = passed_of a @ passed_of b"
  by (simp add: passed_of_def)

lemma deferred_of_append [simp]: "deferred_of (a @ b) = deferred_of a @ deferred_of b"
  by (simp add: deferred_of_def)

lemma items_Nil [simp]: "out_text key [] = []" "passed_of [] = []" "deferred_of [] = []" "renders S [] []"
  by (simp_all add: item_defs renders_def)

lemma items_Passed [simp]: "out_text key [Passed f] = []" "passed_of [Passed f] = [f]" "deferred_of [Passed f] = []"
    "renders S [Passed f] [g] \<longleftrightarrow> g = f"
  by (simp_all add: item_defs renders_def)

lemma items_Deferred [simp]: "out_text key (map Deferred vs) = []" "passed_of (map Deferred vs) = []"
    "deferred_of (map Deferred vs) = vs"
  by (induction vs) (simp_all add: item_defs)

lemma renders_append: "renders S a f \<Longrightarrow> renders S b g \<Longrightarrow> renders S (a @ b) (f @ g)"
  by (simp add: renders_def list_all2_appendI)

lemma emits_renders:
  assumes "emits S kts fs"
  shows "renders S (map (\<lambda>(k, t). Restored k t) kts) fs
    \<and> out_text key (map (\<lambda>(k, t). Restored k t) kts) = key_text key kts
    \<and> passed_of (map (\<lambda>(k, t). Restored k t) kts) = []
    \<and> deferred_of (map (\<lambda>(k, t). Restored k t) kts) = []"
proof -
  have "renders S (map (\<lambda>(k, t). Restored k t) kts) fs"
    using assms by (auto simp: emits_def renders_def list_all2_map1 elim!: list_all2_mono)
  moreover have "out_text key (map (\<lambda>(k, t). Restored k t) kts) = key_text key kts"
    by (induction kts) (auto simp: item_defs key_text_def)
  moreover have "passed_of (map (\<lambda>(k, t). Restored k t) kts) = [] \<and> deferred_of (map (\<lambda>(k, t). Restored k t) kts) = []"
    by (induction kts) (auto simp: item_defs)
  ultimately show ?thesis by blast
qed

text \<open>The buffer of a key; a key without a buffer has the empty one.\<close>

definition buffer_of :: "field_key \<Rightarrow> (field_key \<times> bytes) list \<Rightarrow> bytes" where
  "buffer_of key accs = (case map_of accs key of Some a \<Rightarrow> a | None \<Rightarrow> [])"

lemma push_field_buffer: "buffer_of key (push_field accs kt) = buffer_of key accs @ key_text key [kt]"
  by (cases kt) (simp add: buffer_of_def push_field_def)

lemma push_fields_buffer: "buffer_of key (foldl push_field accs kts) = buffer_of key accs @ key_text key kts"
proof (induction kts arbitrary: accs)
  case (Cons kt kts)
  then show ?case using key_text_append[of key "[kt]" kts] by (simp add: push_field_buffer)
qed simp

lemma push_fields_sorted: "om_sorted accs \<Longrightarrow> om_sorted (foldl push_field accs kts)"
  by (induction kts arbitrary: accs) (simp_all add: push_field_def om_sorted_insert)

lemma buffer_ok: "texts_ok accs \<Longrightarrow> valid_utf8 (buffer_of key accs)"
  by (auto simp: buffer_of_def texts_ok_def split: option.split dest!: map_of_SomeD)

lemma texts_ok_insert:
  assumes "texts_ok accs" and "valid_utf8 b" and "set m \<subseteq> insert (k, b) (set accs)"
  shows "texts_ok m"
  unfolding texts_ok_def
proof (rule ballI)
  fix x assume "x \<in> set m"
  with assms(3) have "x = (k, b) \<or> x \<in> set accs" by blast
  with assms(1,2) show "case x of (k, a) \<Rightarrow> valid_utf8 a" by (cases x) (auto simp: texts_ok_def)
qed

lemma push_fields_ok: "texts_ok accs \<Longrightarrow> texts_ok kts \<Longrightarrow> texts_ok (foldl push_field accs kts)"
proof (induction kts arbitrary: accs)
  case (Cons kt kts)
  let ?b = "buffer_of (fst kt) accs @ snd kt"
  have "valid_utf8 (snd kt)" using Cons.prems(2) by (cases kt) (simp add: texts_ok_def)
  then have b: "valid_utf8 ?b" by (rule valid_utf8_appendI[OF buffer_ok[OF Cons.prems(1)]])
  have "push_field accs kt = om_insert (fst kt) ?b accs" by (simp add: push_field_def buffer_of_def)
  then have "set (push_field accs kt) \<subseteq> insert (fst kt, ?b) (set accs)"
    using set_om_insert[of "fst kt" ?b accs] by simp
  from texts_ok_insert[OF Cons.prems(1) b this] have "texts_ok (push_field accs kt)" .
  moreover have "texts_ok kts" using Cons.prems(2) by (simp add: texts_ok_def)
  ultimately show ?case using Cons.IH by simp
qed simp

text \<open>One loop over the buffers, in these terms.\<close>

lemma flush_loop_items:
  assumes "restores D entries session_key R" and "texts_ok accs" and "om_sorted accs"
  obtains "flush_loop D S window entries session_key accs queue = Inl Panicked" "unprintable S"
  | items fs accs' where "flush_loop D S window entries session_key accs queue = Inr (accs', queue @ fs)"
      "renders S items fs" "passed_of items = []" "deferred_of items = []" "texts_ok accs'" "om_sorted accs'"
      "\<And>key. out_text key items = R (take (cut_len D window entries (key, buffer_of key accs)) (buffer_of key accs))"
      "\<And>key. buffer_of key accs' = drop (cut_len D window entries (key, buffer_of key accs)) (buffer_of key accs)"
proof (cases rule: flush_loop_cases[OF assms(1,2), of S window queue])
  case 1
  then show thesis by (rule that(1))
next
  case (2 kts fs)
  let ?accs' = "map (\<lambda>ka. (fst ka, drop (cut_len D window entries ka) (snd ka))) accs"
  let ?items = "map (\<lambda>(k, t). Restored k t) kts"
  have R0: "R [] = []" using assms(1) by (simp add: restores_def)
  have d: "distinct (map fst accs)" using assms(3) by (rule om_sorted_distinct)
  note e = emits_renders[OF 2(2)]
  show thesis
  proof (rule that(2)[of ?accs' fs ?items])
    show "om_sorted ?accs'" using assms(3) by (simp add: om_sorted_def comp_def)
    show "texts_ok ?accs'" using assms(2) by (rule texts_ok_drop)
    show "out_text key ?items = R (take (cut_len D window entries (key, buffer_of key accs)) (buffer_of key accs))" for key
      using e 2(4) by (auto simp: filter_key[OF d] buffer_of_def R0 split: option.split)
    show "buffer_of key ?accs' = drop (cut_len D window entries (key, buffer_of key accs)) (buffer_of key accs)" for key
      by (induction accs) (auto simp: buffer_of_def)
  qed (use e 2(1) in auto)
qed

subsection \<open>The specification of a stream of frames\<close>

text \<open>What a client is to receive for a key: text that was terminated is restored as a whole, text
  after the last terminal is still open.\<close>

fun expect_step :: "(bytes \<Rightarrow> bytes) \<Rightarrow> serde \<Rightarrow> provider \<Rightarrow> field_key \<Rightarrow> bytes \<times> bytes \<Rightarrow> bytes \<Rightarrow> bytes \<times> bytes" where
  "expect_step R S p key (closed, opened) frame =
     (case frame_class S p frame of
        Passes \<Rightarrow> (closed, opened)
      | Ends pred drain \<Rightarrow> if pred key then (closed @ R opened, []) else (closed, opened)
      | Carries flds json \<Rightarrow> (closed, opened @ key_text key flds))"

definition expect :: "(bytes \<Rightarrow> bytes) \<Rightarrow> serde \<Rightarrow> provider \<Rightarrow> field_key \<Rightarrow> bytes list \<Rightarrow> bytes \<times> bytes" where
  "expect R S p key frames = foldl (expect_step R S p key) ([], []) frames"

definition expected_text :: "(bytes \<Rightarrow> bytes) \<Rightarrow> serde \<Rightarrow> provider \<Rightarrow> field_key \<Rightarrow> bytes list \<Rightarrow> bytes" where
  "expected_text R S p key frames = fst (expect R S p key frames) @ R (snd (expect R S p key frames))"

definition carries :: "serde \<Rightarrow> provider \<Rightarrow> bytes \<Rightarrow> bool" where
  "carries S p frame \<longleftrightarrow> (case frame_class S p frame of Carries flds json \<Rightarrow> True | _ \<Rightarrow> False)"

definition frame_extras :: "serde \<Rightarrow> provider \<Rightarrow> bytes \<Rightarrow> json list" where
  "frame_extras S p frame =
     (case frame_class S p frame of
        Carries flds json \<Rightarrow>
          if p = Gemini \<and> gemini_extra json \<noteq> [] then [JObject (gemini_extra json)] else []
      | _ \<Rightarrow> [])"

definition ctx_ok :: "('e, 'k) doppel_restore \<Rightarrow> serde \<Rightarrow> ('e, 'k) sse_ctx \<Rightarrow> (bytes \<Rightarrow> bytes) \<Rightarrow> bool" where
  "ctx_ok D S ctx R \<longleftrightarrow>
     restores D (ctx_entries ctx) (ctx_session_key ctx) R \<and> good_fakes (map (fake D) (ctx_entries ctx))
     \<and> json_strings S \<and> ctx_max_fake_len ctx = hold_window (map (fake D) (ctx_entries ctx))"

definition stream_inv ::
  "serde \<Rightarrow> ('e, 'k) sse_ctx \<Rightarrow> (bytes \<Rightarrow> bytes) \<Rightarrow> bytes list \<Rightarrow> sse_state \<Rightarrow> out_item list \<Rightarrow> json list \<Rightarrow> bool" where
  "stream_inv S ctx R frames st items vs \<longleftrightarrow>
     texts_ok (accumulators st) \<and> om_sorted (accumulators st)
     \<and> renders S items (output_queue st) \<and> renders S (map Deferred vs) (deferred_passthrough st)
     \<and> passed_of items = filter (\<lambda>f. \<not> carries S (ctx_provider ctx) f) frames
     \<and> deferred_of items @ vs = concat (map (frame_extras S (ctx_provider ctx)) frames)
     \<and> (\<forall>key ext. fst (expect R S (ctx_provider ctx) key frames) @ R (snd (expect R S (ctx_provider ctx) key frames) @ ext)
          = out_text key items @ R (buffer_of key (accumulators st) @ ext))"

definition sse_start :: "bytes \<Rightarrow> sse_state" where
  "sse_start raw = \<lparr>accumulators = [], raw_fragment = raw, output_queue = [], deferred_passthrough = []\<rparr>"

lemma stream_inv_start: "stream_inv S ctx R [] (sse_start raw) [] []"
  by (simp add: stream_inv_def sse_start_def texts_ok_def expect_def buffer_of_def)

lemma expect_snoc: "expect R S p key (frames @ [f]) = expect_step R S p key (expect R S p key frames) f"
  by (simp add: expect_def)

lemma expect_snoc_Passes:
  "frame_class S p f = Passes \<Longrightarrow> expect R S p key (frames @ [f]) = expect R S p key frames"
  by (cases "expect R S p key frames") (simp add: expect_snoc)

lemma expect_snoc_Ends:
  "frame_class S p f = Ends pred drain \<Longrightarrow> expect R S p key (frames @ [f]) =
     (if pred key then (fst (expect R S p key frames) @ R (snd (expect R S p key frames)), [])
      else expect R S p key frames)"
  by (cases "expect R S p key frames") (simp add: expect_snoc)

lemma expect_snoc_Carries:
  "frame_class S p f = Carries flds json \<Longrightarrow> expect R S p key (frames @ [f]) =
     (fst (expect R S p key frames), snd (expect R S p key frames) @ key_text key flds)"
  by (cases "expect R S p key frames") (simp add: expect_snoc)

subsection \<open>Every frame keeps the invariant\<close>

text \<open>A flush of selected buffers.\<close>

lemma flush_where_items:
  assumes "ctx_ok D S ctx R" and "texts_ok (accumulators st)" and "om_sorted (accumulators st)"
  obtains "flush_where D S ctx pred st = Inl Panicked" "unprintable S"
  | items fs st' where "flush_where D S ctx pred st = Inr st'"
      "output_queue st' = output_queue st @ fs" "deferred_passthrough st' = deferred_passthrough st"
      "raw_fragment st' = raw_fragment st"
      "renders S items fs" "passed_of items = []" "deferred_of items = []"
      "texts_ok (accumulators st')" "om_sorted (accumulators st')"
      "\<And>key. out_text key items = (if pred key then R (buffer_of key (accumulators st)) else [])"
      "\<And>key. buffer_of key (accumulators st') = (if pred key then [] else buffer_of key (accumulators st))"
proof -
  let ?w = "\<lambda>key accum :: bytes. if accum = [] \<or> \<not> pred key then None else Some (0::nat)"
  have r: "restores D (ctx_entries ctx) (ctx_session_key ctx) R" using assms(1) by (simp add: ctx_ok_def)
  then have R0: "R [] = []" by (simp add: restores_def)
  have c: "cut_len D ?w (ctx_entries ctx) (k, a) = (if pred k then length a else 0)" for k a
    by (simp add: cut_len_def)
  show thesis
  proof (cases rule: flush_loop_items[OF r assms(2,3), of S ?w "output_queue st"])
    case 1
    then show thesis using that(1) by (simp add: flush_where_def flush_accumulators_where_def)
  next
    case (2 items fs accs')
    show thesis
      by (rule that(2)[of "with_flush st (accs', output_queue st @ fs)" fs items])
        (use 2 in \<open>auto simp: flush_where_def flush_accumulators_where_def with_flush_def c R0\<close>)
  qed
qed

text \<open>The flush of the safe prefixes.\<close>

lemma flush_ready_items:
  assumes "ctx_ok D S ctx R" and "texts_ok (accumulators st)" and "om_sorted (accumulators st)"
  obtains "flush_ready D S ctx st = Inl Panicked" "unprintable S"
  | items fs st' where "flush_ready D S ctx st = Inr st'"
      "output_queue st' = output_queue st @ fs" "deferred_passthrough st' = deferred_passthrough st"
      "raw_fragment st' = raw_fragment st"
      "renders S items fs" "passed_of items = []" "deferred_of items = []"
      "texts_ok (accumulators st')" "om_sorted (accumulators st')"
      "\<And>key ext. R (buffer_of key (accumulators st) @ ext)
         = out_text key items @ R (buffer_of key (accumulators st') @ ext)"
proof -
  let ?w = "\<lambda>key accum :: bytes. Some (ctx_max_fake_len ctx)"
  have r: "restores D (ctx_entries ctx) (ctx_session_key ctx) R" using assms(1) by (simp add: ctx_ok_def)
  have c: "cut_len D ?w (ctx_entries ctx) (k, a) = code_window D (ctx_entries ctx) a" for k a
    using assms(1) by (simp add: cut_len_def ctx_ok_def)
  have ok: "window_ok D (ctx_entries ctx) (ctx_session_key ctx) R (buffer_of key (accumulators st))" for key
    using assms(1) buffer_ok[OF assms(2)] by (simp add: window_ok_def ctx_ok_def)
  show thesis
  proof (cases rule: flush_loop_items[OF r assms(2,3), of S ?w "output_queue st"])
    case 1
    then show thesis using that(1) by (simp add: flush_ready_def)
  next
    case (2 items fs accs')
    show thesis
      by (rule that(2)[of "with_flush st (accs', output_queue st @ fs)" fs items])
        (use 2 win.cut_splits[OF ok] in \<open>auto simp: flush_ready_def with_flush_def c\<close>)
  qed
qed

lemma inv_passes:
  assumes "stream_inv S ctx R frames st items vs" and "frame_class S (ctx_provider ctx) f = Passes"
  shows "stream_inv S ctx R (frames @ [f]) (push_back f st) (items @ [Passed f]) vs"
  using assms
  by (auto simp: stream_inv_def push_back_def expect_snoc_Passes carries_def frame_extras_def
      intro!: renders_append)

lemma inv_ends:
  assumes "ctx_ok D S ctx R" and inv: "stream_inv S ctx R frames st items vs"
    and cl: "frame_class S (ctx_provider ctx) f = Ends pred drain"
  obtains "process_one_frame D S ctx f st = Inl Panicked" "unprintable S"
  | items' vs' st' where "process_one_frame D S ctx f st = Inr st'" "raw_fragment st' = raw_fragment st"
      "stream_inv S ctx R (frames @ [f]) st' items' vs'"
proof -
  have a: "texts_ok (accumulators st)" "om_sorted (accumulators st)" using inv by (auto simp: stream_inv_def)
  have R0: "R [] = []" using assms(1) by (simp add: ctx_ok_def restores_def)
  show thesis
  proof (cases rule: flush_where_items[OF assms(1) a, of pred])
    case 1
    then show thesis using that(1) cl by (simp add: process_one_frame_class)
  next
    case (2 new fs st')
    let ?items = "items @ new @ (if drain then map Deferred vs else []) @ [Passed f]"
    let ?st = "push_back f (if drain then drain_deferred st' else st')"
    have ren: "renders S ?items (output_queue ?st)"
      using inv 2 by (auto simp: stream_inv_def push_back_def drain_deferred_def simp flip: append_assoc
          intro!: renders_append)
    have "fst (expect R S (ctx_provider ctx) key (frames @ [f])) @ R (snd (expect R S (ctx_provider ctx) key (frames @ [f])) @ ext)
        = out_text key ?items @ R (buffer_of key (accumulators ?st) @ ext)" for key ext
    proof -
      have i: "fst (expect R S (ctx_provider ctx) key frames) @ R (snd (expect R S (ctx_provider ctx) key frames) @ e)
        = out_text key items @ R (buffer_of key (accumulators st) @ e)" for e
        using inv by (simp add: stream_inv_def)
      have b: "buffer_of key (accumulators ?st) = (if pred key then [] else buffer_of key (accumulators st))"
        using 2(11) by (simp add: push_back_def drain_deferred_def)
      show ?thesis
        using i[of "[]"] i[of ext] 2(10)[of key] by (simp add: expect_snoc_Ends[OF cl] b)
    qed
    then have "stream_inv S ctx R (frames @ [f]) ?st ?items (if drain then [] else vs)"
      using inv 2 ren cl
      by (auto simp: stream_inv_def carries_def frame_extras_def push_back_def drain_deferred_def)
    moreover have "process_one_frame D S ctx f st = Inr ?st"
      using cl 2(1) by (simp add: process_one_frame_class)
    moreover have "raw_fragment ?st = raw_fragment st" using 2(4) by (simp add: push_back_def drain_deferred_def)
    ultimately show thesis using that(2) by blast
  qed
qed

lemma defer_gemini_cases:
  obtains "defer_gemini S json st = Inl Panicked" "gemini_extra json \<noteq> []" "print_json S (JObject (gemini_extra json)) = None"
  | fs where "defer_gemini S json st = Inr (st\<lparr>deferred_passthrough := deferred_passthrough st @ fs\<rparr>)"
      "renders S (map Deferred (if gemini_extra json \<noteq> [] then [JObject (gemini_extra json)] else [])) fs"
proof (cases "gemini_extra json = [] \<or> (\<exists>s. print_json S (JObject (gemini_extra json)) = Some s)")
  case True
  then show thesis
  proof
    assume "gemini_extra json = []"
    then show thesis using that(2)[of "[]"] by (simp add: defer_gemini_def)
  next
    assume "\<exists>s. print_json S (JObject (gemini_extra json)) = Some s"
    then obtain s where s: "print_json S (JObject (gemini_extra json)) = Some s" by blast
    show thesis
    proof (cases "gemini_extra json = []")
      case True
      then show thesis using that(2)[of "[]"] by (simp add: defer_gemini_def)
    next
      case False
      then show thesis using that(2)[of "[format_frame None s]"] s
        by (simp add: defer_gemini_def json_str_def renders_def)
    qed
  qed
next
  case False
  then show thesis using that(1) by (simp add: defer_gemini_def json_str_def)
qed

lemma inv_carries:
  assumes ok: "ctx_ok D S ctx R" and inv: "stream_inv S ctx R frames st items vs"
    and cl: "frame_class S (ctx_provider ctx) f = Carries flds json"
  obtains "process_one_frame D S ctx f st = Inl Panicked" "unprintable S"
  | items' vs' st' where "process_one_frame D S ctx f st = Inr st'" "raw_fragment st' = raw_fragment st"
      "stream_inv S ctx R (frames @ [f]) st' items' vs'"
proof -
  let ?p = "ctx_provider ctx"
  let ?st1 = "st\<lparr>accumulators := foldl push_field (accumulators st) flds\<rparr>"
  let ?new = "frame_extras S ?p f"
  have js: "json_strings S" using ok by (simp add: ctx_ok_def)
  have "texts_ok flds" using frame_class_texts[OF js cl] by blast
  then have a: "texts_ok (accumulators ?st1)" "om_sorted (accumulators ?st1)"
    using inv push_fields_ok push_fields_sorted by (auto simp: stream_inv_def)
  have p: "process_one_frame D S ctx f st =
      try_then (if ?p = Gemini then defer_gemini S json ?st1 else Inr ?st1) (\<lambda>st2. flush_ready D S ctx st2)"
    using cl by (simp add: process_one_frame_class process_content_def)
  have "(if ?p = Gemini then defer_gemini S json ?st1 else Inr ?st1) = Inl Panicked \<and> unprintable S \<or>
    (\<exists>ds. (if ?p = Gemini then defer_gemini S json ?st1 else Inr ?st1)
        = Inr (?st1\<lparr>deferred_passthrough := deferred_passthrough st @ ds\<rparr>)
      \<and> renders S (map Deferred ?new) ds)"
  proof (cases "?p = Gemini")
    case True
    have new: "?new = (if gemini_extra json \<noteq> [] then [JObject (gemini_extra json)] else [])"
      using cl True by (simp add: frame_extras_def)
    show ?thesis
    proof (cases rule: defer_gemini_cases[where S = S and json = json and st = ?st1])
      case 1
      with True show ?thesis by (auto simp: unprintable_def)
    next
      case (2 fs)
      with True new show ?thesis by auto
    qed
  next
    case False
    then show ?thesis using cl by (auto simp: frame_extras_def intro!: exI[of _ "[]"])
  qed
  then show thesis
  proof (elim disjE exE conjE)
    assume "(if ?p = Gemini then defer_gemini S json ?st1 else Inr ?st1) = Inl Panicked" "unprintable S"
    then show thesis using that(1) p by simp
  next
    fix ds
    let ?st2 = "?st1\<lparr>deferred_passthrough := deferred_passthrough st @ ds\<rparr>"
    assume d: "(if ?p = Gemini then defer_gemini S json ?st1 else Inr ?st1) = Inr ?st2"
      and ds: "renders S (map Deferred ?new) ds"
    have a2: "texts_ok (accumulators ?st2)" "om_sorted (accumulators ?st2)" using a by simp_all
    show thesis
    proof (cases rule: flush_ready_items[OF ok a2])
      case 1
      then show thesis using that(1) p d by simp
    next
      case (2 out fs st')
      have e: "fst (expect R S ?p key (frames @ [f])) @ R (snd (expect R S ?p key (frames @ [f])) @ ext)
        = out_text key (items @ out) @ R (buffer_of key (accumulators st') @ ext)" for key ext
      proof -
        have "fst (expect R S ?p key frames) @ R (snd (expect R S ?p key frames) @ key_text key flds @ ext)
          = out_text key items @ R (buffer_of key (accumulators st) @ key_text key flds @ ext)"
          using inv by (simp add: stream_inv_def)
        also have "R (buffer_of key (accumulators st) @ key_text key flds @ ext) = R (buffer_of key (accumulators ?st2) @ ext)"
          by (simp add: push_fields_buffer)
        also have "\<dots> = out_text key out @ R (buffer_of key (accumulators st') @ ext)" by (rule 2(10))
        finally show ?thesis by (simp add: expect_snoc_Carries[OF cl])
      qed
      have "stream_inv S ctx R (frames @ [f]) st' (items @ out) (vs @ ?new)"
        using inv 2 e ds cl
        by (auto simp: stream_inv_def carries_def simp flip: append_assoc intro: renders_append)
      moreover have "process_one_frame D S ctx f st = Inr st'" using p d 2(1) by simp
      moreover have "raw_fragment st' = raw_fragment st" using 2(4) by simp
      ultimately show thesis using that(2) by blast
    qed
  qed
qed

lemma inv_step:
  assumes "ctx_ok D S ctx R" and "stream_inv S ctx R frames st items vs"
  obtains "process_one_frame D S ctx f st = Inl Panicked" "unprintable S"
  | items' vs' st' where "process_one_frame D S ctx f st = Inr st'" "raw_fragment st' = raw_fragment st"
      "stream_inv S ctx R (frames @ [f]) st' items' vs'"
proof (cases "frame_class S (ctx_provider ctx) f")
  case Passes
  then show thesis using that(2)[OF _ _ inv_passes[OF assms(2) Passes]]
    by (simp add: process_one_frame_class push_back_def)
next
  case (Ends pred drain)
  then show thesis by (rule inv_ends[OF assms]) (use that in auto)
next
  case (Carries flds json)
  then show thesis by (rule inv_carries[OF assms]) (use that in auto)
qed

lemma frames_keep_inv:
  assumes ok: "ctx_ok D S ctx R" and "stream_inv S ctx R frames st items vs"
  obtains "try_fold (\<lambda>st f. process_one_frame D S ctx f st) st fs = Inl Panicked" "unprintable S"
  | items' vs' st' where "try_fold (\<lambda>st f. process_one_frame D S ctx f st) st fs = Inr st'"
      "raw_fragment st' = raw_fragment st" "stream_inv S ctx R (frames @ fs) st' items' vs'"
  using assms(2)
proof (induction fs arbitrary: frames st items vs thesis)
  case Nil
  then show thesis by simp
next
  case (Cons f fs)
  show thesis
  proof (rule inv_step[OF ok Cons.prems(3), of f])
    assume "process_one_frame D S ctx f st = Inl Panicked" "unprintable S"
    then show thesis using Cons.prems(1) by simp
  next
    fix items' vs' st'
    assume st': "process_one_frame D S ctx f st = Inr st'" "raw_fragment st' = raw_fragment st"
      and inv': "stream_inv S ctx R (frames @ [f]) st' items' vs'"
    show thesis
    proof (rule Cons.IH[OF _ _ inv'])
      assume "try_fold (\<lambda>st f. process_one_frame D S ctx f st) st' fs = Inl Panicked" "unprintable S"
      then show thesis using Cons.prems(1) st' by simp
    next
      fix st'' items'' vs''
      assume "try_fold (\<lambda>st f. process_one_frame D S ctx f st) st' fs = Inr st''"
        "raw_fragment st'' = raw_fragment st'" "stream_inv S ctx R ((frames @ [f]) @ fs) st'' items'' vs''"
      then show thesis using Cons.prems(2)[of st'' items'' vs''] st' by simp
    qed
  qed
qed

subsection \<open>Splitting a text into frames\<close>

function frames_of :: "bytes \<Rightarrow> bytes list \<times> bytes" where
  "frames_of s =
     (case find_sub [LF, LF] s of
        None \<Rightarrow> ([], s)
      | Some i \<Rightarrow> (case frames_of (drop (i + 2) s) of (fs, r) \<Rightarrow> (take (i + 2) s # fs, r)))"
  by pat_completeness auto
termination
  by (relation "measure length") (auto dest: find_sub_Some)

declare frames_of.simps [simp del]

lemma process_frames_fold:
  "process_frames g s st =
     try_then (try_fold (\<lambda>st f. g f st) st (fst (frames_of s))) (\<lambda>st'. Inr (snd (frames_of s), st'))"
proof (induction s arbitrary: st rule: frames_of.induct)
  case (1 s)
  show ?case
  proof (cases "find_sub [LF, LF] s")
    case None
    then show ?thesis by (simp add: process_frames.simps[of g s] frames_of.simps[of s])
  next
    case (Some i)
    have "process_frames g s st = try_then (g (take (i + 2) s) st) (\<lambda>st'. process_frames g (drop (i + 2) s) st')"
      using Some by (simp add: process_frames.simps[of g s])
    also have "\<dots> = try_then (g (take (i + 2) s) st) (\<lambda>st'.
        try_then (try_fold (\<lambda>st f. g f st) st' (fst (frames_of (drop (i + 2) s))))
          (\<lambda>st'. Inr (snd (frames_of (drop (i + 2) s)), st')))"
      using "1.IH"[OF Some] by (intro try_then_cong) auto
    finally show ?thesis
      using Some by (simp add: frames_of.simps[of s] case_prod_unfold try_then_assoc)
  qed
qed

lemma frames_of_concat: "concat (fst (frames_of s)) @ snd (frames_of s) = s"
proof (induction s rule: frames_of.induct)
  case (1 s)
  show ?case
  proof (cases "find_sub [LF, LF] s")
    case None
    then show ?thesis by (simp add: frames_of.simps[of s])
  next
    case (Some i)
    with "1.IH"[OF Some] show ?thesis by (simp add: frames_of.simps[of s] case_prod_unfold)
  qed
qed

lemma take_frame: "find_sub [LF, LF] s = Some i \<Longrightarrow> take (i + 2) s = take i s @ [LF, LF]"
proof -
  assume "find_sub [LF, LF] s = Some i"
  from find_sub_Some[OF this] have "take 2 (drop i s) = [LF, LF]" by (simp add: numeral_2_eq_2)
  then show ?thesis by (simp only: take_add)
qed

lemma frames_of_last: "f \<in> set (fst (frames_of s)) \<Longrightarrow> f \<noteq> [] \<and> last f = LF"
proof (induction s rule: frames_of.induct)
  case (1 s)
  show ?case
  proof (cases "find_sub [LF, LF] s")
    case None
    with "1.prems" show ?thesis by (simp add: frames_of.simps[of s])
  next
    case (Some i)
    note take_frame[OF Some]
    with Some "1.IH"[OF Some] "1.prems" show ?thesis
      by (auto simp: frames_of.simps[of s] case_prod_unfold)
  qed
qed

lemma starts_with_append: "starts_with x p \<Longrightarrow> starts_with (x @ y) p"
  by (auto simp: starts_with_iff)

lemma find_sub_append: "find_sub p x = Some i \<Longrightarrow> find_sub p (x @ y) = Some i"
proof (induction p x arbitrary: i rule: find_sub.induct)
  case (1 p)
  then show ?case by (cases y) (auto split: if_splits)
next
  case (2 p c cs)
  show ?case
  proof (cases "starts_with (c # cs) p")
    case True
    then show ?thesis using "2.prems" starts_with_append[OF True, of y] by simp
  next
    case False
    with "2.prems" obtain j where j: "find_sub p cs = Some j" "i = Suc j" by auto
    have "\<not> starts_with (c # cs @ y) p"
    proof
      assume "starts_with (c # cs @ y) p"
      then have "take (length p) (c # cs @ y) = p" by (auto simp: starts_with_iff)
      moreover have "length p \<le> length cs" using find_sub_Some[OF j(1)] by simp
      ultimately have "take (length p) (c # cs) = p" by (cases p) simp_all
      then show False using False by (metis append_take_drop_id starts_with_iff)
    qed
    with "2.IH"[OF False j(1)] j(2) show ?thesis by simp
  qed
qed

lemma frames_of_append:
  "frames_of (x @ y) = (fst (frames_of x) @ fst (frames_of (snd (frames_of x) @ y)), snd (frames_of (snd (frames_of x) @ y)))"
proof (induction x rule: frames_of.induct)
  case (1 x)
  show ?case
  proof (cases "find_sub [LF, LF] x")
    case None
    then show ?thesis by (simp add: frames_of.simps[of x])
  next
    case (Some i)
    have "i + 2 \<le> length x" using find_sub_Some[OF Some] by simp
    then have d: "take (i + 2) (x @ y) = take (i + 2) x" "drop (i + 2) (x @ y) = drop (i + 2) x @ y" by simp_all
    show ?thesis
      using "1.IH"[OF Some] find_sub_append[OF Some, of y] Some
      by (simp add: frames_of.simps[of x] frames_of.simps[of "x @ y"] d case_prod_unfold del: take_append drop_append add_2_eq_Suc')
  qed
qed

lemma snd_frames_of_idem: "frames_of (snd (frames_of s)) = ([], snd (frames_of s))"
proof (induction s rule: frames_of.induct)
  case (1 s)
  show ?case
  proof (cases "find_sub [LF, LF] s")
    case None
    then show ?thesis by (simp add: frames_of.simps[of s])
  next
    case (Some i)
    with "1.IH"[OF Some] show ?thesis by (simp add: frames_of.simps[of s] case_prod_unfold)
  qed
qed

text \<open>The frames of a text are frames of any text that goes on differently after them.\<close>

lemma frames_of_frames: "frames_of (concat (fst (frames_of s)) @ w) = (fst (frames_of s) @ fst (frames_of w), snd (frames_of w))"
proof (induction s rule: frames_of.induct)
  case (1 s)
  show ?case
  proof (cases "find_sub [LF, LF] s")
    case None
    then show ?thesis by (simp add: frames_of.simps[of s])
  next
    case (Some i)
    let ?t = "concat (fst (frames_of (drop (i + 2) s))) @ w"
    have l: "i + 2 \<le> length s" using find_sub_Some[OF Some] by simp
    have f: "find_sub [LF, LF] (take (i + 2) s @ ?t) = Some i"
    proof -
      note s = take_frame[OF Some, symmetric]
      have "find_sub [LF, LF] (take i s @ [LF, LF]) = Some i"
      proof (cases "find_sub [LF, LF] (take (i + 2) s)")
        case None
        then have "\<not> starts_with (drop i (take (i + 2) s)) [LF, LF]" using l by (simp add: find_sub_None_iff)
        moreover have "drop i (take (i + 2) s) = [LF, LF]" using l by (simp only: take_frame[OF Some]) simp
        ultimately show ?thesis by (simp add: starts_with_iff)
      next
        case (Some j)
        from find_sub_append[OF this, of "drop (i + 2) s"] \<open>find_sub [LF, LF] s = Some i\<close> Some s
        show ?thesis by simp
      qed
      then show ?thesis using find_sub_append s by metis
    qed
    then show ?thesis
      using "1.IH"[OF Some] Some l
      by (simp add: frames_of.simps[of s] frames_of.simps[of "take (i + 2) s @ ?t"] case_prod_unfold del: add_2_eq_Suc')
  qed
qed

subsection \<open>Line ends\<close>

abbreviation cr_cr_lf :: bytes where
  "cr_cr_lf \<equiv> [CR, CR, LF]"

lemma replace_crlf_other: "c \<noteq> CR \<Longrightarrow> replace_crlf (c # s) = c # replace_crlf s"
  by (cases s) auto

lemma replace_crlf_cr: "\<not> starts_with s [LF] \<Longrightarrow> replace_crlf (CR # s) = CR # replace_crlf s"
  by (cases s) (auto simp: starts_with_Cons)

lemma replace_crlf_crlf: "replace_crlf (CR # LF # s) = LF # replace_crlf s"
  by simp

text \<open>Induction along the normalization: a pair that is replaced, or one byte that stays.\<close>

lemma crlf_induct [case_names Nil Pair Byte]:
  assumes "P []" and "\<And>s. P s \<Longrightarrow> P (CR # LF # s)"
    and "\<And>c s. \<not> (c = CR \<and> starts_with s [LF]) \<Longrightarrow> P s \<Longrightarrow> P (c # s)"
  shows "P s"
proof (induction s rule: length_induct)
  case (1 s)
  show ?case
  proof (cases s)
    case Nil
    then show ?thesis using assms(1) by simp
  next
    case (Cons c t)
    show ?thesis
    proof (cases "c = CR \<and> starts_with t [LF]")
      case True
      then obtain u where "t = LF # u" by (auto simp: starts_with_iff)
      with True Cons 1 assms(2) show ?thesis by simp
    next
      case False
      with Cons 1 assms(3) show ?thesis by simp
    qed
  qed
qed

lemma replace_crlf_byte:
  "\<not> (c = CR \<and> starts_with s [LF]) \<Longrightarrow> replace_crlf (c # s) = c # replace_crlf s"
  by (cases "c = CR") (simp_all add: replace_crlf_other replace_crlf_cr)

lemma replace_starts_lf:
  assumes "\<not> starts_with s [CR, LF]" and "starts_with (replace_crlf s @ z) [LF]"
  shows "starts_with (s @ z) [LF]"
proof (cases s)
  case Nil
  with assms(2) show ?thesis by simp
next
  case (Cons c t)
  with assms(1) have "\<not> (c = CR \<and> starts_with t [LF])" by (simp add: starts_with_Cons)
  from replace_crlf_byte[OF this] Cons assms(2) show ?thesis by (simp add: starts_with_Cons)
qed

text \<open>Normalizing a text in two steps is normalizing it at once, when it has no line end with two
  carriage returns.\<close>

lemma replace_crlf_twice: "\<not> sublist cr_cr_lf (a @ z) \<Longrightarrow> replace_crlf (replace_crlf a @ z) = replace_crlf (a @ z)"
proof (induction a rule: crlf_induct)
  case (Byte c s)
  have sub: "\<not> sublist cr_cr_lf (s @ z)" using Byte.prems by (simp add: sublist_Cons_right)
  show ?case
  proof (cases "c = CR \<and> starts_with (replace_crlf s @ z) [LF]")
    case False
    have n: "\<not> (c = CR \<and> starts_with (s @ z) [LF])"
    proof
      assume a: "c = CR \<and> starts_with (s @ z) [LF]"
      with Byte.hyps have "s = []" by (cases s) (auto simp: starts_with_Cons)
      with a False show False by simp
    qed
    from replace_crlf_byte[OF n] replace_crlf_byte[OF False] Byte.IH[OF sub] replace_crlf_byte[OF Byte.hyps]
    show ?thesis by simp
  next
    case True
    show ?thesis
    proof (cases "starts_with s [CR, LF]")
      case True
      then obtain u where "s = CR # LF # u" by (auto simp: starts_with_iff)
      with \<open>c = CR \<and> starts_with (replace_crlf s @ z) [LF]\<close> Byte.prems show ?thesis
        by (auto simp: sublist_Cons_right)
    next
      case False
      with True have "starts_with (s @ z) [LF]" using replace_starts_lf by blast
      with True Byte.hyps have "s = []" by (cases s) (auto simp: starts_with_Cons)
      with True show ?thesis by simp
    qed
  qed
qed (auto simp: sublist_Cons_right replace_crlf_other)

lemma replace_crlf_free: "\<not> sublist cr_cr_lf (a @ z) \<Longrightarrow> \<not> sublist cr_cr_lf (replace_crlf a @ z)"
proof (induction a rule: crlf_induct)
  case (Pair s)
  then show ?case by (auto simp: sublist_Cons_right)
next
  case (Byte c s)
  have sub: "\<not> sublist cr_cr_lf (s @ z)" and pre: "\<not> prefix cr_cr_lf (c # s @ z)"
    using Byte.prems by (auto simp: sublist_Cons_right)
  have "\<not> prefix cr_cr_lf (c # replace_crlf s @ z)"
  proof
    assume "prefix cr_cr_lf (c # replace_crlf s @ z)"
    then have c: "c = CR" and w: "starts_with (replace_crlf s @ z) [CR, LF]"
      by (auto simp: prefix_def starts_with_iff)
    show False
    proof (cases s rule: replace_crlf.cases)
      case 1
      with c w pre show False by (auto simp: prefix_def starts_with_iff)
    next
      case (2 d)
      with c w pre show False by (auto simp: prefix_def starts_with_iff)
    next
      case (3 d e u)
      show False
      proof (cases "d = CR \<and> e = LF")
        case True
        with 3 w show False by (simp add: starts_with_Cons)
      next
        case False
        with 3 w have d: "d = CR" and lf: "starts_with (replace_crlf (e # u) @ z) [LF]"
          by (auto simp: starts_with_Cons)
        have "\<not> starts_with (e # u) [CR, LF]"
        proof
          assume "starts_with (e # u) [CR, LF]"
          then have "prefix cr_cr_lf (s @ z)" using 3 d by (auto simp: starts_with_iff)
          with sub show False by (auto simp: sublist_Cons_right dest: prefix_imp_sublist)
        qed
        with lf have "starts_with ((e # u) @ z) [LF]" using replace_starts_lf by blast
        then have "e = LF" by (simp add: starts_with_Cons)
        with d False show False by simp
      qed
    qed
  qed
  with Byte.IH[OF sub] show ?case
    by (simp add: replace_crlf_byte[OF Byte.hyps] sublist_Cons_right)
qed simp

lemma valid_utf8_cr: "valid_utf8 (c # s) \<longleftrightarrow> valid_utf8 s" if "c = CR \<or> c = LF"
  using that by (auto simp: valid_utf8_Cons_ascii)

lemma replace_crlf_append_valid: "valid_utf8 a \<Longrightarrow> valid_utf8 (replace_crlf a)"
proof (induction rule: valid_utf8_induct)
  case (Scalar a b)
  show ?case
  proof (cases "length a = 1")
    case True
    then obtain c where a: "a = [c]" by (cases a) auto
    have "byte c < 0x80" using scalar_shape[OF Scalar.hyps(1,2)] a by auto
    then have c: "valid_utf8 (c # s) \<longleftrightarrow> valid_utf8 s" for s by (rule valid_utf8_Cons_ascii)
    show ?thesis
    proof (cases "c = CR \<and> starts_with b [LF]")
      case True
      then obtain u where u: "b = LF # u" by (auto simp: starts_with_iff)
      with Scalar.IH show ?thesis using True a by (simp add: replace_crlf_other)
    next
      case False
      with Scalar.IH show ?thesis using a c by (simp add: replace_crlf_byte)
    qed
  next
    case False
    have "c \<noteq> CR" if "c \<in> set a" for c
      using that scalar_shape[OF Scalar.hyps(1,2)] False by (auto simp: cont_def)
    then have "replace_crlf (a @ b) = a @ replace_crlf b"
      by (induction a) (simp_all add: replace_crlf_other)
    with Scalar show ?thesis by (simp add: valid_utf8_scalar_append)
  qed
qed simp

subsection \<open>Chunks do not matter\<close>

lemma frames_last_lf: "fst (frames_of s) \<noteq> [] \<Longrightarrow> last (concat (fst (frames_of s))) = LF"
proof -
  assume ne: "fst (frames_of s) \<noteq> []"
  have "concat fs \<noteq> [] \<and> last (concat fs) = LF" if "fs \<noteq> []" "\<forall>f \<in> set fs. f \<noteq> [] \<and> last f = LF" for fs :: "bytes list"
    using that by (induction fs rule: rev_induct) auto
  then show ?thesis using ne frames_of_last by blast
qed

lemma rest_valid: "valid_utf8 s \<Longrightarrow> valid_utf8 (snd (frames_of s))"
proof -
  assume v: "valid_utf8 s"
  let ?a = "concat (fst (frames_of s))" and ?r = "snd (frames_of s)"
  have s: "s = ?a @ ?r" by (simp add: frames_of_concat)
  show ?thesis
  proof (cases "fst (frames_of s) = [] \<or> ?r = []")
    case True
    then show ?thesis using v s by (metis concat.simps(1) append_Nil valid_utf8_Nil)
  next
    case False
    then have a: "?a \<noteq> []" and l: "last ?a = LF"
      using frames_last_lf frames_of_last[of _ s] by (auto simp: neq_Nil_conv)
    have i: "Suc (length ?a - 1) = length ?a" "length ?a < length s"
      using a False arg_cong[OF s, of length] by auto
    have "s ! (length ?a - 1) = LF" using a l by (subst s) (simp add: nth_append last_conv_nth)
    then have "\<not> cont (s ! length ?a)"
      using valid_utf8_after_ascii[OF v, of "length ?a - 1"] i by simp
    then have "is_char_boundary s (length ?a)" using i by (simp add: is_char_boundary_def)
    from valid_utf8_drop_boundary[OF v this] show ?thesis by (metis s append_eq_conv_conj)
  qed
qed

lemma replace_after_lf:
  "\<not> sublist [CR, LF] a \<Longrightarrow> (a = [] \<or> last a = LF) \<Longrightarrow> replace_crlf (a @ w) = a @ replace_crlf w"
proof (induction a)
  case (Cons c a)
  have sub: "\<not> sublist [CR, LF] a" "\<not> (c = CR \<and> starts_with a [LF])"
    using Cons.prems(1) by (auto simp: sublist_Cons_right starts_with_iff)
  have l: "a = [] \<or> last a = LF" using Cons.prems(2) by (cases "a = []") auto
  have "\<not> (c = CR \<and> starts_with (a @ w) [LF])"
  proof (cases "a = []")
    case True
    with Cons.prems(2) show ?thesis by simp
  next
    case False
    with sub(2) show ?thesis by (cases a) (auto simp: starts_with_Cons)
  qed
  from replace_crlf_byte[OF this] Cons.IH[OF sub(1) l] show ?case by simp
qed simp

lemma replace_crlf_no_crlf: "\<not> sublist cr_cr_lf s \<Longrightarrow> \<not> sublist [CR, LF] (replace_crlf s)"
proof (induction s rule: crlf_induct)
  case (Byte c s)
  have sub: "\<not> sublist cr_cr_lf s" using Byte.prems by (simp add: sublist_Cons_right)
  have "\<not> (c = CR \<and> starts_with (replace_crlf s) [LF])"
  proof
    assume a: "c = CR \<and> starts_with (replace_crlf s) [LF]"
    have "\<not> starts_with s [CR, LF]"
      using Byte.prems a by (auto simp: starts_with_iff sublist_Cons_right)
    with a replace_starts_lf[of s "[]"] have "starts_with s [LF]" by simp
    with Byte.hyps a show False by blast
  qed
  then have "\<not> prefix [CR, LF] (c # replace_crlf s)" by (auto simp: prefix_def starts_with_iff)
  with Byte.IH[OF sub] show ?case by (simp add: replace_crlf_byte[OF Byte.hyps] sublist_Cons_right)
qed (auto simp: sublist_Cons_right replace_crlf_other)

text \<open>What is left of a text, continued, has the frames the whole has after the first ones.\<close>

lemma frames_continue:
  assumes "\<not> sublist cr_cr_lf (a @ z)"
  defines "r \<equiv> snd (frames_of (replace_crlf a))"
  shows "frames_of (replace_crlf (a @ z)) =
      (fst (frames_of (replace_crlf a)) @ fst (frames_of (replace_crlf (r @ z))), snd (frames_of (replace_crlf (r @ z))))"
    and "\<not> sublist cr_cr_lf (r @ z)"
proof -
  let ?f = "fst (frames_of (replace_crlf a))"
  have a: "replace_crlf a = concat ?f @ r" by (simp add: r_def frames_of_concat)
  have "\<not> sublist cr_cr_lf a" using assms(1) sublist_appendI[of a "[]" z] sublist_order.order_trans by fastforce
  then have "\<not> sublist [CR, LF] (concat ?f @ r)" using replace_crlf_no_crlf a by metis
  then have nf: "\<not> sublist [CR, LF] (concat ?f)"
    using sublist_appendI[of "concat ?f" "[]" r] sublist_order.order_trans by fastforce
  have l: "concat ?f = [] \<or> last (concat ?f) = LF" 
    using frames_last_lf[of "replace_crlf a"] by (cases "?f = []") simp_all
  have "replace_crlf (a @ z) = replace_crlf ((concat ?f @ r) @ z)"
    using replace_crlf_twice[OF assms(1)] a by simp
  also have "\<dots> = concat ?f @ replace_crlf (r @ z)" using replace_after_lf[OF nf l, of "r @ z"] by simp
  finally show "frames_of (replace_crlf (a @ z)) =
      (?f @ fst (frames_of (replace_crlf (r @ z))), snd (frames_of (replace_crlf (r @ z))))"
    by (simp add: frames_of_frames)
  have "\<not> sublist cr_cr_lf (concat ?f @ r @ z)"
    using replace_crlf_free[OF assms(1)] a by (metis append_assoc)
  then show "\<not> sublist cr_cr_lf (r @ z)"
    using sublist_appendI[of "r @ z" "concat ?f" "[]"] sublist_order.order_trans by fastforce
qed

definition run_frames ::
  "('e, 'k) doppel_restore \<Rightarrow> serde \<Rightarrow> ('e, 'k) sse_ctx \<Rightarrow> sse_state \<Rightarrow> bytes list \<Rightarrow> sse_error + sse_state" where
  "run_frames D S ctx st fs = try_fold (\<lambda>st f. process_one_frame D S ctx f st) st fs"

definition run_chunks ::
  "('e, 'k) doppel_restore \<Rightarrow> serde \<Rightarrow> ('e, 'k) sse_ctx \<Rightarrow> sse_state \<Rightarrow> bytes list \<Rightarrow> sse_error + sse_state" where
  "run_chunks D S ctx st cs = try_fold (\<lambda>st c. process_sse_chunk D S ctx c st) st cs"

text \<open>The frames do not look at the fragment.\<close>

definition with_raw :: "bytes \<Rightarrow> sse_state \<Rightarrow> sse_state" where
  "with_raw u st = st\<lparr>raw_fragment := u\<rparr>"

lemma with_raw_sel [simp]:
  "accumulators (with_raw u st) = accumulators st" "output_queue (with_raw u st) = output_queue st"
  "deferred_passthrough (with_raw u st) = deferred_passthrough st" "raw_fragment (with_raw u st) = u"
  "with_raw v (with_raw u st) = with_raw v st" "push_back f (with_raw u st) = with_raw u (push_back f st)"
  "drain_deferred (with_raw u st) = with_raw u (drain_deferred st)"
  "with_flush (with_raw u st) aq = with_raw u (with_flush st aq)"
  "with_raw u st\<lparr>accumulators := a\<rparr> = with_raw u (st\<lparr>accumulators := a\<rparr>)"
  "with_raw u st\<lparr>deferred_passthrough := d\<rparr> = with_raw u (st\<lparr>deferred_passthrough := d\<rparr>)"
  by (simp_all add: with_raw_def push_back_def drain_deferred_def with_flush_def)

lemma flush_where_raw:
  "flush_where D S ctx pred (with_raw u st) = try_then (flush_where D S ctx pred st) (\<lambda>st'. Inr (with_raw u st'))"
  by (simp add: flush_where_def try_then_assoc)

lemma flush_ready_raw:
  "flush_ready D S ctx (with_raw u st) = try_then (flush_ready D S ctx st) (\<lambda>st'. Inr (with_raw u st'))"
  by (simp add: flush_ready_def try_then_assoc)

lemma defer_gemini_raw:
  "defer_gemini S json (with_raw u st) = try_then (defer_gemini S json st) (\<lambda>st'. Inr (with_raw u st'))"
  by (simp add: defer_gemini_def try_then_assoc)

lemma process_one_frame_raw:
  "process_one_frame D S ctx f (with_raw u st) =
     try_then (process_one_frame D S ctx f st) (\<lambda>st'. Inr (with_raw u st'))"
proof (cases "frame_class S (ctx_provider ctx) f")
  case Passes
  then show ?thesis by (simp add: process_one_frame_class)
next
  case (Ends pred drain)
  then show ?thesis by (auto simp: process_one_frame_class flush_where_raw try_then_assoc intro!: try_then_cong)
next
  case (Carries flds json)
  then show ?thesis
    by (auto simp: process_one_frame_class process_content_def Let_def defer_gemini_raw flush_ready_raw
        try_then_assoc intro!: try_then_cong)
qed

lemma run_frames_raw:
  "run_frames D S ctx (with_raw u st) fs = try_then (run_frames D S ctx st fs) (\<lambda>st'. Inr (with_raw u st'))"
proof (induction fs arbitrary: st)
  case (Cons f fs)
  then show ?case
    by (auto simp: run_frames_def process_one_frame_raw try_then_assoc intro!: try_then_cong)
qed (simp add: run_frames_def)

lemma run_frames_append:
  "run_frames D S ctx st (fs @ gs) = try_then (run_frames D S ctx st fs) (\<lambda>st'. run_frames D S ctx st' gs)"
  by (simp add: run_frames_def try_fold_append)

lemma process_sse_chunk_frames:
  "valid_utf8 (raw_fragment st @ c) \<Longrightarrow> process_sse_chunk D S ctx c st =
     try_then (run_frames D S ctx st (fst (frames_of (replace_crlf (raw_fragment st @ c))))) (\<lambda>st'.
       Inr (with_raw (snd (frames_of (replace_crlf (raw_fragment st @ c)))) st'))"
  by (simp add: process_sse_chunk_def from_utf8_def process_frames_fold run_frames_def try_then_assoc Let_def with_raw_def)

lemma run_chunks_at_once:
  assumes "cs \<noteq> []" and "valid_utf8 (raw_fragment st @ concat cs)"
    and "\<not> sublist cr_cr_lf (raw_fragment st @ concat cs)"
  shows "run_chunks D S ctx st cs = process_sse_chunk D S ctx (concat cs) st"
  using assms
proof (induction cs arbitrary: st)
  case Nil
  then show ?case by simp
next
  case (Cons c cs)
  let ?u = "raw_fragment st"
  show ?case
  proof (cases "cs = []")
    case True
    then show ?thesis by (simp add: run_chunks_def)
  next
    case False
    show ?thesis
    proof (cases "valid_utf8 (?u @ c)")
      case invalid: False
      have "process_sse_chunk D S ctx c st = Inr (with_raw (?u @ c) st)"
        using invalid by (simp add: process_sse_chunk_def from_utf8_def with_raw_def)
      then have "run_chunks D S ctx st (c # cs) = run_chunks D S ctx (with_raw (?u @ c) st) cs"
        by (simp add: run_chunks_def)
      also have "\<dots> = process_sse_chunk D S ctx (concat cs) (with_raw (?u @ c) st)"
        using Cons.IH[of "with_raw (?u @ c) st"] False Cons.prems by simp
      also have "\<dots> = process_sse_chunk D S ctx (concat (c # cs)) st"
        using Cons.prems(2)
        by (simp add: process_sse_chunk_frames run_frames_raw try_then_assoc)
      finally show ?thesis .
    next
      case valid: True
      let ?Z = "concat cs"
      let ?fs = "fst (frames_of (replace_crlf (?u @ c)))" and ?r = "snd (frames_of (replace_crlf (?u @ c)))"
      have crlf: "\<not> sublist cr_cr_lf ((?u @ c) @ ?Z)" using Cons.prems(3) by simp
      note cont = frames_continue[OF crlf]
      have vZ: "valid_utf8 ?Z" using Cons.prems(2) valid_utf8_append[OF valid] by simp
      have vr: "valid_utf8 (?r @ ?Z)"
        by (rule valid_utf8_appendI[OF rest_valid[OF replace_crlf_append_valid[OF valid]] vZ])
      have chunk: "process_sse_chunk D S ctx c st =
          try_then (run_frames D S ctx st ?fs) (\<lambda>st'. Inr (with_raw ?r st'))"
        by (rule process_sse_chunk_frames[OF valid])
      have rest: "run_chunks D S ctx (with_raw ?r st') cs =
          try_then (run_frames D S ctx st' (fst (frames_of (replace_crlf (?r @ ?Z))))) (\<lambda>st''.
            Inr (with_raw (snd (frames_of (replace_crlf (?r @ ?Z)))) st''))" for st'
        using Cons.IH[OF False, of "with_raw ?r st'"] vr cont(2)
        by (simp add: process_sse_chunk_frames run_frames_raw try_then_assoc)
      have "run_chunks D S ctx st (c # cs) =
          try_then (run_frames D S ctx st ?fs) (\<lambda>st'.
            try_then (run_frames D S ctx st' (fst (frames_of (replace_crlf (?r @ ?Z))))) (\<lambda>st''.
              Inr (with_raw (snd (frames_of (replace_crlf (?r @ ?Z)))) st'')))"
        by (simp add: run_chunks_def chunk try_then_assoc) (simp add: rest flip: run_chunks_def)
      also have "\<dots> = process_sse_chunk D S ctx (concat (c # cs)) st"
        using process_sse_chunk_frames[of st "c @ ?Z" D S ctx] Cons.prems(2) cont(1)
        by (simp add: run_frames_append try_then_assoc)
      finally show ?thesis .
    qed
  qed
qed

subsection \<open>The end of the stream\<close>

lemma renders_Deferred_append:
  "renders S items q \<Longrightarrow> renders S (map Deferred vs) ds \<Longrightarrow> renders S (items @ map Deferred vs) (q @ ds)"
  by (rule renders_append)

lemma finish_items:
  assumes ok: "ctx_ok D S ctx R" and inv: "stream_inv S ctx R frames st items vs"
  obtains "finish_sse D S ctx st = Inl Panicked" "unprintable S"
  | items' out where
      "finish_sse D S ctx st = Inr (out @ (if raw_fragment st \<noteq> [] then [raw_fragment st] else []))"
      "renders S items' out"
      "\<And>key. out_text key items' = expected_text R S (ctx_provider ctx) key frames"
      "passed_of items' = filter (\<lambda>f. \<not> carries S (ctx_provider ctx) f) frames"
      "deferred_of items' = concat (map (frame_extras S (ctx_provider ctx)) frames)"
proof -
  have a: "texts_ok (accumulators st)" "om_sorted (accumulators st)" using inv by (auto simp: stream_inv_def)
  show thesis
  proof (cases rule: flush_where_items[OF ok a, of "\<lambda>k. True"])
    case 1
    then show thesis using that(1) by (simp add: finish_sse_def flush_everything_where)
  next
    case (2 new fs st')
    let ?items = "(items @ new) @ map Deferred vs"
    show thesis
    proof (rule that(2)[of "(output_queue st @ fs) @ deferred_passthrough st" ?items])
      show "renders S ?items ((output_queue st @ fs) @ deferred_passthrough st)"
        using inv 2 by (auto simp: stream_inv_def intro!: renders_append)
      show "out_text key ?items = expected_text R S (ctx_provider ctx) key frames" for key
      proof -
        have "fst (expect R S (ctx_provider ctx) key frames) @ R (snd (expect R S (ctx_provider ctx) key frames) @ [])
          = out_text key items @ R (buffer_of key (accumulators st) @ [])"
          using inv unfolding stream_inv_def by blast
        then show ?thesis using 2(10)[of key] 2(11)[of key] by (simp add: expected_text_def)
      qed
    qed (use inv 2 in \<open>auto simp: stream_inv_def finish_sse_def flush_everything_where drain_deferred_def\<close>)
  qed
qed

definition sse_output ::
  "('e, 'k) doppel_restore \<Rightarrow> serde \<Rightarrow> ('e, 'k) sse_ctx \<Rightarrow> bytes \<Rightarrow> sse_error + bytes list" where
  "sse_output D S ctx raw =
     try_then (process_sse_chunk D S ctx raw (sse_start [])) (finish_sse D S ctx)"

lemma stream_inv_with_raw: "stream_inv S ctx R frames (with_raw u st) items vs \<longleftrightarrow> stream_inv S ctx R frames st items vs"
  by (simp add: stream_inv_def)

lemma sse_output_items:
  assumes ok: "ctx_ok D S ctx R" and v: "valid_utf8 raw" and fr: "frames_of (replace_crlf raw) = (frames, rest)"
  obtains "sse_output D S ctx raw = Inl Panicked" "unprintable S"
  | items out where "sse_output D S ctx raw = Inr (out @ (if rest \<noteq> [] then [rest] else []))"
      "renders S items out"
      "\<And>key. out_text key items = expected_text R S (ctx_provider ctx) key frames"
      "passed_of items = filter (\<lambda>f. \<not> carries S (ctx_provider ctx) f) frames"
      "deferred_of items = concat (map (frame_extras S (ctx_provider ctx)) frames)"
proof -
  have c: "process_sse_chunk D S ctx raw (sse_start []) =
      try_then (run_frames D S ctx (sse_start []) frames) (\<lambda>st'. Inr (with_raw rest st'))"
    using process_sse_chunk_frames[of "sse_start []" raw D S ctx] v fr by (simp add: sse_start_def)
  show thesis
  proof (rule frames_keep_inv[OF ok stream_inv_start, of "[]" frames])
    assume "try_fold (\<lambda>st f. process_one_frame D S ctx f st) (sse_start []) frames = Inl Panicked" "unprintable S"
    then show thesis using that(1) c by (simp add: sse_output_def run_frames_def)
  next
    fix st' items' vs'
    assume r: "try_fold (\<lambda>st f. process_one_frame D S ctx f st) (sse_start []) frames = Inr st'"
      and inv: "stream_inv S ctx R ([] @ frames) st' items' vs'"
    have inv': "stream_inv S ctx R frames (with_raw rest st') items' vs'"
      using inv by (simp add: stream_inv_with_raw)
    have o: "sse_output D S ctx raw = finish_sse D S ctx (with_raw rest st')"
      using r c by (simp add: sse_output_def run_frames_def)
    show thesis
      by (rule finish_items[OF ok inv']) (use o that in auto)
  qed
qed

subsection \<open>Properties\<close>

definition wit_chat :: serde where
  "wit_chat = table_serde [(''a'', synthetic_value OpenAiContent ''xFA''), (''b'', synthetic_value OpenAiContent ''KEy''),
     (''1'', synthetic_value OpenAiContent ''x''), (''2'', synthetic_value OpenAiContent ''REALy'')]"

definition wit_ctx :: "(bytes \<times> bytes, unit) sse_ctx" where
  "wit_ctx = \<lparr>ctx_entries = wit_tab, ctx_session_key = (), ctx_provider = OpenAi, ctx_max_fake_len = 4\<rparr>"

definition wit_raw :: bytes where
  "wit_raw = ''data: a'' @ [CR, LF, CR, LF] @ ''data: b'' @ [LF, LF] @ ''data: [DONE]'' @ [LF, LF]"

lemma wit_chat_strings: "json_strings wit_chat"
proof -
  have "list_all json_utf8 (map (\<lambda>t. synthetic_value OpenAiContent t) [''xFA'', ''KEy'', ''x'', ''REALy''])"
    by code_simp
  then show ?thesis by (auto simp: json_strings_def wit_chat_def table_serde_def split: if_splits)
qed

lemma wit_ctx_ok: "ctx_ok table_restore wit_chat wit_ctx (subst_fakes wit_tab)"
  using wit_tab_restores wit_tab_good wit_chat_strings
  by (simp add: ctx_ok_def wit_ctx_def hold_window_def) (simp add: wit_tab_def table_restore_def)

definition wit_frames :: "bytes list" where
  "wit_frames = [''data: a'' @ [LF, LF], ''data: b'' @ [LF, LF], ''data: [DONE]'' @ [LF, LF]]"

lemma wit_raw_frames: "frames_of (replace_crlf wit_raw) = (wit_frames, [])"
  by code_simp

lemma wit_raw_valid: "valid_utf8 wit_raw"
  by code_simp

text \<open>C10: Terminal ordering. When a frame ends a block or the stream, the buffers it ends are
  emitted first, completely and restored, then for Gemini what was deferred, then the frame itself as
  it came; the buffers it does not end, and what is queued already, are left as they are.\<close>

theorem terminal_follows_its_text:
  assumes "ctx_ok D S ctx R" and "texts_ok (accumulators st)" and "om_sorted (accumulators st)"
    and "frame_class S (ctx_provider ctx) f = Ends pred drain"
  shows "case process_one_frame D S ctx f st of
      Inl e \<Rightarrow> e = Panicked \<and> unprintable S
    | Inr st' \<Rightarrow>
        (\<exists>items fs. output_queue st' = output_queue st @ fs @ (if drain then deferred_passthrough st else []) @ [f]
           \<and> renders S items fs \<and> passed_of items = []
           \<and> (\<forall>key. out_text key items = (if pred key then R (buffer_of key (accumulators st)) else [])))
        \<and> (\<forall>key. buffer_of key (accumulators st') = (if pred key then [] else buffer_of key (accumulators st)))"
proof (cases rule: flush_where_items[OF assms(1-3), of pred])
  case 1
  then show ?thesis using assms(4) by (simp add: process_one_frame_class)
next
  case (2 items fs st')
  then show ?thesis using assms(4)
    by (auto simp: process_one_frame_class push_back_def drain_deferred_def intro!: exI[of _ items])
qed

theorem terminal_follows_its_text_witness:
  "\<exists>fs. map_sum id output_queue (process_one_frame table_restore wit_chat wit_ctx (''data: [DONE]'' @ [LF, LF])
     ((sse_start [])\<lparr>accumulators := [(OpenAiContent, ''x'')]\<rparr>)) = Inr (fs @ [''data: [DONE]'' @ [LF, LF]])"
proof -
  let ?st = "(sse_start [])\<lparr>accumulators := [(OpenAiContent, ''x'')]\<rparr>" and ?f = "''data: [DONE]'' @ [LF, LF]"
  let ?p = "process_one_frame table_restore wit_chat wit_ctx ?f ?st"
  have t: "texts_ok (accumulators ?st)" "om_sorted (accumulators ?st)" by code_simp+
  have d: "frame_data ?f = Some ''[DONE]''" "parse_json wit_chat ''[DONE]'' = None" "str_trim ''[DONE]'' = ''[DONE]''"
    by code_simp+
  then have c: "frame_class wit_chat (ctx_provider wit_ctx) ?f = Ends (\<lambda>k. True) False"
    by (simp add: frame_class_def wit_ctx_def)
  have p: "?p \<noteq> Inl Panicked" by code_simp
  from terminal_follows_its_text[OF wit_ctx_ok t c] p show ?thesis
    by (cases ?p) (auto simp: sse_start_def)
qed

text \<open>C11: The division of the stream into chunks does not matter. Feeding the chunks one by one
  leaves the same buffers, queue and fragment, or the same error, as feeding their concatenation at
  once, wherever they were cut, in the middle of a character, of a line end or of a frame, as long as
  the whole is UTF-8 and has no line end with two carriage returns.\<close>

theorem chunking_does_not_matter:
  assumes "cs \<noteq> []" and "valid_utf8 (raw_fragment st @ concat cs)"
    and "\<not> sublist cr_cr_lf (raw_fragment st @ concat cs)"
  shows "run_chunks D S ctx st cs = process_sse_chunk D S ctx (concat cs) st"
  using assms by (rule run_chunks_at_once)

theorem chunking_does_not_matter_witness:
  "run_chunks table_restore wit_chat wit_ctx (sse_start []) (map (\<lambda>c. [c]) wit_raw)
     = process_sse_chunk table_restore wit_chat wit_ctx wit_raw (sse_start [])"
proof -
  have c: "concat (map (\<lambda>c. [c]) s) = s" for s :: bytes by (induction s) auto
  have 1: "map (\<lambda>c. [c]) wit_raw \<noteq> []" by (simp add: wit_raw_def)
  have 2: "valid_utf8 (raw_fragment (sse_start []) @ concat (map (\<lambda>c. [c]) wit_raw))"
    using wit_raw_valid by (simp add: c sse_start_def)
  have 3: "\<not> sublist cr_cr_lf (raw_fragment (sse_start []) @ concat (map (\<lambda>c. [c]) wit_raw))"
    by (simp add: c sse_start_def) (simp add: wit_raw_def sublist_Cons_right)
  from chunking_does_not_matter[OF 1 2 3] show ?thesis by (simp add: c)
qed

subsection \<open>What gets lost\<close>

text \<open>An empty \<open>reasoning_content\<close> or \<open>refusal\<close> is taken for text, other than an empty
  \<open>content\<close>: the frame is consumed and the finish reason beside it never reaches the client.\<close>

lemma finish_reason_beside_empty_refusal_is_lost:
  "let v = jobj [(''choices'', JArray [jobj [(''delta'', jobj [(''refusal'', JString [])]),
                                            (''finish_reason'', JString ''stop'')]])];
       w = jobj [(''choices'', JArray [jobj [(''delta'', jobj [(''content'', JString [])]),
                                            (''finish_reason'', JString ''stop'')]])];
       S = table_serde [(''v'', v), (''w'', w)]; f = ''data: v'' @ [LF, LF]; g = ''data: w'' @ [LF, LF]
   in map_sum id output_queue (process_one_frame table_restore S wit_ctx f (sse_start [])) = Inr []
      \<and> sse_output table_restore S wit_ctx f = Inr []
      \<and> sse_output table_restore S wit_ctx g = Inr [g]"
  by code_simp

text \<open>Of several function calls in one Gemini frame only the last one's name is deferred.\<close>

lemma last_function_call_wins:
  "let call = (\<lambda>name. jobj [(''functionCall'', jobj [(''name'', JString name), (''args'', jobj [(''n'', JBool True)])])]);
       v = jobj [(''candidates'', JArray [jobj [(''content'', jobj [(''parts'', JArray [call ''f'', call ''g''])])]])]
   in gemini_extra v = [(''candidates'', call_candidates [(''args'', JObject [(''n'', JBool True)]), (''name'', JString ''g'')])]"
  by code_simp

text \<open>A line end with two carriage returns is normalized differently when a chunk ends inside it.\<close>

lemma cr_cr_lf_depends_on_chunks:
  "map_sum id raw_fragment (run_chunks table_restore wit_chat wit_ctx (sse_start []) [[CR, CR, LF], [CHR ''x'']]) = Inr (LF # ''x'')
   \<and> map_sum id raw_fragment (run_chunks table_restore wit_chat wit_ctx (sse_start []) [[CR, CR, LF, CHR ''x'']]) = Inr (CR # LF # ''x'')"
  by code_simp

end
