(* ===== verification/SseStream.thy ===== *)
theory SseStream
  imports SseFrames
begin

text \<open>
  The stream wrapper, \<open>crates/lcp-server/src/ext/sse_restore.rs\<close>: \<open>SseRestoreStream\<close>, the
  state machine of its \<open>poll_next\<close>, and \<open>restore_non_sse\<close>.

  The inner stream is the list of what its next polls answer: not ready, a chunk, an error, or a
  panic; the empty list is the end of the stream. One turn of the loop of \<open>poll_next\<close> is \<open>poll_step\<close>: it goes on
  (\<open>None\<close>) or answers. \<open>mem::replace\<close> leaves \<open>Done\<close> behind, which is what the state is after
  every answer that does not put another state back. \<open>doppel::restore_stream\<close> on the buffered
  bytes of a non-SSE response is a parameter: how often its future is not ready, and the error or the
  items it yields.
\<close>

datatype inner_event =
    Pend
  | Chunk bytes
  | Fail string
  | Abort

record ('e, 'k) doppel_bytes =
  restore_stream :: "'e list \<Rightarrow> 'k \<Rightarrow> bytes \<Rightarrow> string + (string + bytes) list"
  restore_polls :: "'e list \<Rightarrow> 'k \<Rightarrow> bytes \<Rightarrow> nat"

datatype poll =
    Pending
  | Ready "(sse_error + bytes) option"

datatype ('e, 'k) machine =
    Detecting "inner_event list" "('e, 'k) sse_ctx"
  | CollectingNonSse "inner_event list" bytes "'e list" 'k
  | Processing nat "sse_error + bytes list"
  | StreamingSse "inner_event list" "('e, 'k) sse_ctx" sse_state
  | Emitting "bytes list"
  | Done

definition sse_restore_new ::
  "('e, 'k) doppel_restore \<Rightarrow> inner_event list \<Rightarrow> 'e list \<Rightarrow> 'k \<Rightarrow> provider \<Rightarrow> ('e, 'k) machine" where
  "sse_restore_new D inner entries session_key p =
     Detecting inner \<lparr>ctx_entries = entries, ctx_session_key = session_key, ctx_provider = p,
       ctx_max_fake_len = hold_window (map (fake D) entries)\<rparr>"

definition restore_non_sse :: "('e, 'k) doppel_bytes \<Rightarrow> bytes \<Rightarrow> 'e list \<Rightarrow> 'k \<Rightarrow> sse_error + bytes list" where
  "restore_non_sse B raw entries session_key =
     (case restore_stream B entries session_key raw of
        Inl e \<Rightarrow> Inl (RestoreError e)
      | Inr items \<Rightarrow>
          try_map (\<lambda>chunk. case chunk of Inl e \<Rightarrow> Inl (RestoreError e) | Inr bytes \<Rightarrow> Inr bytes) items)"

subsection \<open>One turn of the loop\<close>

definition poll_detecting ::
  "inner_event list \<Rightarrow> ('e, 'k) sse_ctx \<Rightarrow> poll option \<times> ('e, 'k) machine" where
  "poll_detecting inner ctx =
     (case inner of
        [] \<Rightarrow> (Some (Ready None), Done)
      | Pend # inner' \<Rightarrow> (Some Pending, Detecting inner' ctx)
      | Fail e # inner' \<Rightarrow> (Some (Ready (Some (Inl (StreamError e)))), Done)
      | Abort # inner' \<Rightarrow> (Some (Ready (Some (Inl Panicked))), Done)
      | Chunk chunk # inner' \<Rightarrow>
          if chunk = [] then (None, Detecting inner' ctx)
          else if is_sse_first_chunk chunk then (None, StreamingSse inner' ctx (sse_start chunk))
          else (None, CollectingNonSse inner' chunk (ctx_entries ctx) (ctx_session_key ctx)))"

definition poll_collecting ::
  "('e, 'k) doppel_bytes \<Rightarrow> inner_event list \<Rightarrow> bytes \<Rightarrow> 'e list \<Rightarrow> 'k \<Rightarrow> poll option \<times> ('e, 'k) machine" where
  "poll_collecting B inner raw_buf entries session_key =
     (case inner of
        [] \<Rightarrow> (None, Processing (restore_polls B entries session_key raw_buf)
                       (restore_non_sse B raw_buf entries session_key))
      | Pend # inner' \<Rightarrow> (Some Pending, CollectingNonSse inner' raw_buf entries session_key)
      | Fail e # inner' \<Rightarrow> (Some (Ready (Some (Inl (StreamError e)))), Done)
      | Abort # inner' \<Rightarrow> (Some (Ready (Some (Inl Panicked))), Done)
      | Chunk chunk # inner' \<Rightarrow> (None, CollectingNonSse inner' (raw_buf @ chunk) entries session_key))"

definition poll_processing :: "nat \<Rightarrow> sse_error + bytes list \<Rightarrow> poll option \<times> ('e, 'k) machine" where
  "poll_processing n res =
     (case n of
        Suc n' \<Rightarrow> (Some Pending, Processing n' res)
      | 0 \<Rightarrow> (case res of
                Inr queue \<Rightarrow> (None, Emitting queue)
              | Inl e \<Rightarrow> (Some (Ready (Some (Inl e))), Done)))"

definition poll_inner ::
  "('e, 'k) doppel_restore \<Rightarrow> serde \<Rightarrow> inner_event list \<Rightarrow> ('e, 'k) sse_ctx \<Rightarrow> sse_state
   \<Rightarrow> poll option \<times> ('e, 'k) machine" where
  "poll_inner D S inner ctx st =
     (case inner of
        [] \<Rightarrow> (case finish_sse D S ctx st of
                 Inl e \<Rightarrow> (Some (Ready (Some (Inl e))), Done)
               | Inr queue \<Rightarrow> (None, Emitting queue))
      | Pend # inner' \<Rightarrow> (Some Pending, StreamingSse inner' ctx st)
      | Fail e # inner' \<Rightarrow> (Some (Ready (Some (Inl (StreamError e)))), Done)
      | Abort # inner' \<Rightarrow> (Some (Ready (Some (Inl Panicked))), Done)
      | Chunk chunk # inner' \<Rightarrow>
          (case process_sse_chunk D S ctx chunk st of
             Inl e \<Rightarrow> (Some (Ready (Some (Inl e))), Done)
           | Inr st' \<Rightarrow> (None, StreamingSse inner' ctx st')))"

definition poll_streaming ::
  "('e, 'k) doppel_restore \<Rightarrow> serde \<Rightarrow> inner_event list \<Rightarrow> ('e, 'k) sse_ctx \<Rightarrow> sse_state
   \<Rightarrow> poll option \<times> ('e, 'k) machine" where
  "poll_streaming D S inner ctx st =
     (case output_queue st of
        bytes # queue \<Rightarrow> (Some (Ready (Some (Inr bytes))), StreamingSse inner ctx (st\<lparr>output_queue := queue\<rparr>))
      | [] \<Rightarrow>
          if raw_fragment st \<noteq> [] then
            (case process_sse_chunk D S ctx [] st of
               Inl e \<Rightarrow> (Some (Ready (Some (Inl e))), Done)
             | Inr st' \<Rightarrow>
                 if output_queue st' \<noteq> [] then (None, StreamingSse inner ctx st')
                 else poll_inner D S inner ctx st')
          else poll_inner D S inner ctx st)"

definition poll_emitting :: "bytes list \<Rightarrow> poll option \<times> ('e, 'k) machine" where
  "poll_emitting queue =
     (case queue of
        bytes # queue' \<Rightarrow>
          (Some (Ready (Some (Inr bytes))), if queue' \<noteq> [] then Emitting queue' else Done)
      | [] \<Rightarrow> (Some (Ready None), Done))"

fun poll_step ::
  "('e, 'k) doppel_restore \<Rightarrow> ('e, 'k) doppel_bytes \<Rightarrow> serde \<Rightarrow> ('e, 'k) machine \<Rightarrow> poll option \<times> ('e, 'k) machine" where
  "poll_step D B S (Detecting inner ctx) = poll_detecting inner ctx"
| "poll_step D B S (CollectingNonSse inner raw_buf entries session_key) =
     poll_collecting B inner raw_buf entries session_key"
| "poll_step D B S (Processing n res) = poll_processing n res"
| "poll_step D B S (StreamingSse inner ctx st) = poll_streaming D S inner ctx st"
| "poll_step D B S (Emitting queue) = poll_emitting queue"
| "poll_step D B S Done = (Some (Ready None), Done)"

subsection \<open>Frames only append to the queue\<close>

definition shift_queue :: "bytes list \<Rightarrow> sse_state \<Rightarrow> sse_state" where
  "shift_queue q st = st\<lparr>output_queue := q @ output_queue st\<rparr>"

lemma shift_queue_sel [simp]:
  "accumulators (shift_queue q st) = accumulators st" "output_queue (shift_queue q st) = q @ output_queue st"
  "deferred_passthrough (shift_queue q st) = deferred_passthrough st" "raw_fragment (shift_queue q st) = raw_fragment st"
  "push_back f (shift_queue q st) = shift_queue q (push_back f st)"
  "drain_deferred (shift_queue q st) = shift_queue q (drain_deferred st)"
  "with_raw u (shift_queue q st) = shift_queue q (with_raw u st)"
  "with_flush (shift_queue q st) (a, q @ q') = shift_queue q (with_flush st (a, q'))"
  "shift_queue q st\<lparr>accumulators := a\<rparr> = shift_queue q (st\<lparr>accumulators := a\<rparr>)"
  "shift_queue q st\<lparr>deferred_passthrough := d\<rparr> = shift_queue q (st\<lparr>deferred_passthrough := d\<rparr>)"
  by (simp_all add: shift_queue_def push_back_def drain_deferred_def with_raw_def with_flush_def)

lemma flush_safe_prefix_shift:
  "flush_safe_prefix D S key a m entries session_key (q @ queue) =
     try_then (flush_safe_prefix D S key a m entries session_key queue) (\<lambda>(a', q'). Inr (a', q @ q'))"
  by (auto simp: flush_safe_prefix_def Let_def try_then_assoc intro!: try_then_cong)

lemma flush_loop_shift:
  "flush_loop D S window entries session_key accs (q @ queue) =
     try_then (flush_loop D S window entries session_key accs queue) (\<lambda>(a', q'). Inr (a', q @ q'))"
proof (induction accs arbitrary: queue)
  case (Cons ka accs)
  obtain k a where ka: "ka = (k, a)" by (cases ka)
  show ?case
  proof (cases "window k a")
    case None
    then show ?thesis by (simp add: ka Cons try_then_assoc case_prod_unfold)
  next
    case (Some w)
    then show ?thesis
      by (simp add: ka Cons flush_safe_prefix_shift try_then_assoc case_prod_unfold)
  qed
qed simp

lemma flush_where_shift:
  "flush_where D S ctx pred (shift_queue q st) =
     try_then (flush_where D S ctx pred st) (\<lambda>st'. Inr (shift_queue q st'))"
  by (simp add: flush_where_def flush_accumulators_where_def flush_loop_shift try_then_assoc case_prod_unfold)

lemma flush_ready_shift:
  "flush_ready D S ctx (shift_queue q st) = try_then (flush_ready D S ctx st) (\<lambda>st'. Inr (shift_queue q st'))"
  by (simp add: flush_ready_def flush_loop_shift try_then_assoc case_prod_unfold)

lemma defer_gemini_shift:
  "defer_gemini S json (shift_queue q st) = try_then (defer_gemini S json st) (\<lambda>st'. Inr (shift_queue q st'))"
  by (simp add: defer_gemini_def try_then_assoc)

lemma process_one_frame_shift:
  "process_one_frame D S ctx f (shift_queue q st) =
     try_then (process_one_frame D S ctx f st) (\<lambda>st'. Inr (shift_queue q st'))"
proof (cases "frame_class S (ctx_provider ctx) f")
  case Passes
  then show ?thesis by (simp add: process_one_frame_class)
next
  case (Ends pred drain)
  then show ?thesis by (auto simp: process_one_frame_class flush_where_shift try_then_assoc intro!: try_then_cong)
next
  case (Carries flds json)
  then show ?thesis
    by (auto simp: process_one_frame_class process_content_def Let_def defer_gemini_shift flush_ready_shift
        try_then_assoc intro!: try_then_cong)
qed

lemma run_frames_shift:
  "run_frames D S ctx (shift_queue q st) fs = try_then (run_frames D S ctx st fs) (\<lambda>st'. Inr (shift_queue q st'))"
proof (induction fs arbitrary: st)
  case (Cons f fs)
  then show ?case
    by (auto simp: run_frames_def process_one_frame_shift try_then_assoc intro!: try_then_cong)
qed (simp add: run_frames_def)

lemma process_sse_chunk_cases:
  "process_sse_chunk D S ctx c st =
     (if valid_utf8 (raw_fragment st @ c)
      then try_then (run_frames D S ctx st (fst (frames_of (replace_crlf (raw_fragment st @ c))))) (\<lambda>st'.
             Inr (with_raw (snd (frames_of (replace_crlf (raw_fragment st @ c)))) st'))
      else Inr (with_raw (raw_fragment st @ c) st))"
proof (cases "valid_utf8 (raw_fragment st @ c)")
  case True
  then show ?thesis by (simp add: process_sse_chunk_frames[OF True])
next
  case False
  then show ?thesis by (simp add: process_sse_chunk_def from_utf8_def with_raw_def)
qed

lemma process_sse_chunk_shift:
  "process_sse_chunk D S ctx c (shift_queue q st) =
     try_then (process_sse_chunk D S ctx c st) (\<lambda>st'. Inr (shift_queue q st'))"
  by (simp add: process_sse_chunk_cases run_frames_shift try_then_assoc)

lemma finish_sse_shift:
  "finish_sse D S ctx (shift_queue q st) = try_then (finish_sse D S ctx st) (\<lambda>out. Inr (q @ out))"
  by (auto simp: finish_sse_def flush_everything_where flush_where_shift try_then_assoc intro!: try_then_cong)

subsection \<open>The loop ends\<close>

text \<open>A turn that goes on consumes an event, or leaves a phase, or takes frames out of the
  fragment, or takes a frame out of the queue.\<close>

fun machine_rank :: "('e, 'k) machine \<Rightarrow> nat \<times> nat \<times> nat \<times> nat" where
  "machine_rank (Detecting inner ctx) = (length inner, 4, 0, 0)"
| "machine_rank (CollectingNonSse inner raw entries key) = (length inner, 3, 0, 0)"
| "machine_rank (Processing n res) = (0, 2, n, 0)"
| "machine_rank (StreamingSse inner ctx st) = (length inner, 3, length (raw_fragment st), length (output_queue st))"
| "machine_rank (Emitting queue) = (0, 1, 0, length queue)"
| "machine_rank Done = (0, 0, 0, 0)"

definition machine_less :: "(('e, 'k) machine \<times> ('e, 'k) machine) set" where
  "machine_less = inv_image (less_than <*lex*> less_than <*lex*> less_than <*lex*> less_than) machine_rank"

lemma wf_machine_less: "wf machine_less"
  by (simp add: machine_less_def wf_inv_image wf_lex_prod)

lemma replace_crlf_length: "length (replace_crlf s) \<le> length s"
  by (induction s rule: crlf_induct) (simp_all add: replace_crlf_byte)

lemma run_frames_queue:
  "run_frames D S ctx st [] = Inr st"
  by (simp add: run_frames_def)

text \<open>Parsing the fragment again never makes it longer, and makes it shorter when a frame was found.\<close>

lemma reparse_shorter:
  assumes "process_sse_chunk D S ctx [] st = Inr st'"
  shows "length (raw_fragment st') \<le> length (raw_fragment st)"
    and "output_queue st' \<noteq> output_queue st \<Longrightarrow> length (raw_fragment st') < length (raw_fragment st)"
proof -
  let ?s = "replace_crlf (raw_fragment st)"
  have c: "concat (fst (frames_of ?s)) @ snd (frames_of ?s) = ?s" by (rule frames_of_concat)
  then have l: "length (concat (fst (frames_of ?s))) + length (snd (frames_of ?s)) \<le> length (raw_fragment st)"
    using replace_crlf_length[of "raw_fragment st"] by (metis length_append)
  show "length (raw_fragment st') \<le> length (raw_fragment st)"
    using assms l by (auto simp: process_sse_chunk_cases result_simps split: if_splits)
  assume q: "output_queue st' \<noteq> output_queue st"
  have "fst (frames_of ?s) \<noteq> []"
    using assms q by (auto simp: process_sse_chunk_cases run_frames_queue split: if_splits)
  then have "concat (fst (frames_of ?s)) \<noteq> []" using frames_of_last[of _ ?s] by (auto simp: neq_Nil_conv)
  then have "0 < length (concat (fst (frames_of ?s)))" by simp
  moreover have "length (raw_fragment st') = length (snd (frames_of ?s))"
    using assms q by (auto simp: process_sse_chunk_cases result_simps split: if_splits)
  ultimately show "length (raw_fragment st') < length (raw_fragment st)" using l by linarith
qed

lemma poll_inner_less:
  "fst (poll_inner D S inner ctx st') \<noteq> Some (Ready None) \<Longrightarrow>
   length (raw_fragment st') \<le> length (raw_fragment st) \<Longrightarrow>
   (snd (poll_inner D S inner ctx st'), StreamingSse inner ctx st) \<in> machine_less"
  by (auto simp: poll_inner_def machine_less_def split: list.splits inner_event.splits sum.splits)

lemma poll_step_less:
  assumes "fst (poll_step D B S m) \<noteq> Some (Ready None)"
  shows "(snd (poll_step D B S m), m) \<in> machine_less"
proof (cases m)
  case (StreamingSse inner ctx st)
  show ?thesis
  proof (cases "output_queue st")
    case (Cons b q)
    then show ?thesis by (simp add: StreamingSse poll_streaming_def machine_less_def)
  next
    case Nil
    show ?thesis
    proof (cases "raw_fragment st = []")
      case True
      with Nil assms show ?thesis
        using poll_inner_less[of D S inner ctx st st] by (simp add: StreamingSse poll_streaming_def)
    next
      case False
      show ?thesis
      proof (cases "process_sse_chunk D S ctx [] st")
        case (Inl e)
        with Nil False show ?thesis by (auto simp: StreamingSse poll_streaming_def machine_less_def)
      next
        case (Inr st')
        note r = reparse_shorter[OF Inr]
        show ?thesis
        proof (cases "output_queue st' = []")
          case True
          with Nil False Inr assms r(1) show ?thesis
            using poll_inner_less[of D S inner ctx st' st] by (simp add: StreamingSse poll_streaming_def)
        next
          case q: False
          with Nil r(2) have "length (raw_fragment st') < length (raw_fragment st)" by simp
          with Nil False Inr q show ?thesis by (simp add: StreamingSse poll_streaming_def machine_less_def)
        qed
      qed
    qed
  qed
qed (use assms in \<open>auto simp: poll_detecting_def poll_collecting_def poll_processing_def poll_emitting_def
       machine_less_def split: list.splits inner_event.splits nat.splits sum.splits if_splits\<close>)

lemma poll_step_goes_on: "(None, m') = poll_step D B S m \<Longrightarrow> (m', m) \<in> machine_less"
  using poll_step_less[of D B S m] by (cases "poll_step D B S m") simp

text \<open>\<open>poll_next\<close>: the loop, until a turn answers.\<close>

function poll_next ::
  "('e, 'k) doppel_restore \<Rightarrow> ('e, 'k) doppel_bytes \<Rightarrow> serde \<Rightarrow> ('e, 'k) machine \<Rightarrow> poll \<times> ('e, 'k) machine" where
  "poll_next D B S m =
     (case poll_step D B S m of
        (Some answer, m') \<Rightarrow> (answer, m')
      | (None, m') \<Rightarrow> poll_next D B S m')"
  by pat_completeness auto
termination
  by (relation "inv_image machine_less (\<lambda>(D, B, S, m). m)")
     (auto simp: wf_machine_less intro: poll_step_goes_on sym)

declare poll_next.simps [simp del]

lemma trans_machine_less: "(a, b) \<in> machine_less \<Longrightarrow> (b, c) \<in> machine_less \<Longrightarrow> (a, c) \<in> machine_less"
  unfolding machine_less_def by (meson trans_inv_image trans_lex_prod trans_less_than transD)

lemma poll_next_less:
  "fst (poll_next D B S m) \<noteq> Ready None \<Longrightarrow> (snd (poll_next D B S m), m) \<in> machine_less"
proof (induction D B S m rule: poll_next.induct)
  case (1 D B S m)
  show ?case
  proof (cases "poll_step D B S m")
    case (Pair a m')
    show ?thesis
    proof (cases a)
      case None
      then have n: "poll_next D B S m = poll_next D B S m'"
        using Pair poll_next.simps[of D B S m] by simp
      have "(m', m) \<in> machine_less" using poll_step_less[of D B S m] Pair None by simp
      moreover have "(snd (poll_next D B S m'), m') \<in> machine_less"
        using 1(1)[OF Pair[symmetric] None] "1.prems" n by simp
      ultimately show ?thesis using trans_machine_less n by metis
    next
      case (Some ans)
      then show ?thesis
        using poll_step_less[of D B S m] Pair "1.prems" by (simp add: poll_next.simps[of D B S m])
    qed
  qed
qed

lemma poll_next_goes_on: "(a, m') = poll_next D B S m \<Longrightarrow> a \<noteq> Ready None \<Longrightarrow> (m', m) \<in> machine_less"
  using poll_next_less[of D B S m] by (cases "poll_next D B S m") simp

text \<open>What a consumer receives that polls until the stream ends.\<close>

function stream_items ::
  "('e, 'k) doppel_restore \<Rightarrow> ('e, 'k) doppel_bytes \<Rightarrow> serde \<Rightarrow> ('e, 'k) machine \<Rightarrow> (sse_error + bytes) list" where
  "stream_items D B S m =
     (case poll_next D B S m of
        (Ready None, m') \<Rightarrow> []
      | (Ready (Some item), m') \<Rightarrow> item # stream_items D B S m'
      | (Pending, m') \<Rightarrow> stream_items D B S m')"
  by pat_completeness auto
termination
  by (relation "inv_image machine_less (\<lambda>(D, B, S, m). m)")
     (auto simp: wf_machine_less intro: poll_next_goes_on sym)

declare stream_items.simps [simp del]

text \<open>Turn by turn.\<close>

lemma stream_items_step:
  "stream_items D B S m =
     (case poll_step D B S m of
        (None, m') \<Rightarrow> stream_items D B S m'
      | (Some Pending, m') \<Rightarrow> stream_items D B S m'
      | (Some (Ready None), m') \<Rightarrow> []
      | (Some (Ready (Some item)), m') \<Rightarrow> item # stream_items D B S m')"
proof (cases "poll_step D B S m")
  case (Pair a m')
  show ?thesis
  proof (cases a)
    case None
    have "poll_next D B S m = poll_next D B S m'"
      by (simp add: poll_next.simps[of D B S m] Pair None)
    then have "stream_items D B S m = stream_items D B S m'"
      by (simp add: stream_items.simps[of D B S m] stream_items.simps[of D B S m'])
    then show ?thesis by (simp add: Pair None)
  next
    case (Some ans)
    have "poll_next D B S m = (ans, m')" by (simp add: poll_next.simps[of D B S m] Pair Some)
    then show ?thesis
      by (simp add: stream_items.simps[of D B S m] Pair Some split: poll.split option.split)
  qed
qed

subsection \<open>What the stream yields\<close>

lemma stream_items_Done: "stream_items D B S Done = []"
  by (simp add: stream_items_step[of D B S Done])

lemma stream_items_Emitting: "stream_items D B S (Emitting queue) = map Inr queue"
proof (induction queue)
  case Nil
  then show ?case by (simp add: stream_items_step[of D B S "Emitting []"] poll_emitting_def)
next
  case (Cons b queue)
  then show ?case
    by (simp add: stream_items_step[of D B S "Emitting (b # queue)"] poll_emitting_def stream_items_Done)
qed

fun chunk_of :: "inner_event \<Rightarrow> bytes list" where
  "chunk_of (Chunk c) = [c]"
| "chunk_of _ = []"

definition chunks_of :: "inner_event list \<Rightarrow> bytes list" where
  "chunks_of inner = concat (map chunk_of inner)"

fun is_fail :: "inner_event \<Rightarrow> bool" where
  "is_fail (Fail e) = True"
| "is_fail Abort = True"
| "is_fail _ = False"

lemma chunks_of_simps [simp]:
  "chunks_of [] = []" "chunks_of (Pend # inner) = chunks_of inner" "chunks_of (Fail e # inner) = chunks_of inner"
  "chunks_of (Abort # inner) = chunks_of inner"
  "chunks_of (Chunk c # inner) = c # chunks_of inner"
  by (simp_all add: chunks_of_def)

text \<open>The outcome of a consumed stream: all frames, or some frames and an error.\<close>

definition outcome :: "sse_error + bytes list \<Rightarrow> (sse_error + bytes) list \<Rightarrow> bool" where
  "outcome r items \<longleftrightarrow>
     (case r of Inr out \<Rightarrow> items = map Inr out | Inl e \<Rightarrow> \<exists>out. items = map Inr out @ [Inl e])"

lemma outcome_shift: "outcome r items \<Longrightarrow> outcome (try_then r (\<lambda>out. Inr (q @ out))) (map Inr q @ items)"
  by (cases r) (auto simp: outcome_def, metis append_assoc map_append)

definition rest_output ::
  "('e, 'k) doppel_restore \<Rightarrow> serde \<Rightarrow> ('e, 'k) sse_ctx \<Rightarrow> bytes \<Rightarrow> sse_state \<Rightarrow> sse_error + bytes list" where
  "rest_output D S ctx c st = try_then (process_sse_chunk D S ctx c st) (finish_sse D S ctx)"

lemma rest_output_shift:
  "rest_output D S ctx c (shift_queue q st) = try_then (rest_output D S ctx c st) (\<lambda>out. Inr (q @ out))"
  by (simp add: rest_output_def process_sse_chunk_shift finish_sse_shift try_then_assoc)

text \<open>Feeding a first part and then the rest.\<close>

definition feedable :: "bytes \<Rightarrow> bool" where
  "feedable b \<longleftrightarrow> valid_utf8 b \<and> \<not> sublist cr_cr_lf b"

lemma rest_output_split:
  "feedable (raw_fragment st @ c @ z) \<Longrightarrow> rest_output D S ctx (c @ z) st =
     try_then (process_sse_chunk D S ctx c st) (\<lambda>st'. rest_output D S ctx z st')"
proof -
  assume "feedable (raw_fragment st @ c @ z)"
  then have "process_sse_chunk D S ctx (c @ z) st =
      try_then (process_sse_chunk D S ctx c st) (\<lambda>st'. process_sse_chunk D S ctx z st')"
    using run_chunks_at_once[of "[c, z]" st D S ctx] by (simp add: feedable_def run_chunks_def)
  then show ?thesis by (simp add: rest_output_def try_then_assoc)
qed

lemma feedable_rest:
  assumes "feedable (raw_fragment st @ c @ z)" and "process_sse_chunk D S ctx c st = Inr st'"
  shows "feedable (raw_fragment st' @ z)"
proof (cases "valid_utf8 (raw_fragment st @ c)")
  case True
  have "raw_fragment st' = snd (frames_of (replace_crlf (raw_fragment st @ c)))"
    using assms(2) True by (auto simp: process_sse_chunk_cases result_simps)
  moreover have "valid_utf8 z" using assms(1) valid_utf8_append[OF True] by (simp add: feedable_def)
  ultimately show ?thesis
    using frames_continue(2)[of "raw_fragment st @ c" z] assms(1)
      rest_valid[OF replace_crlf_append_valid[OF True]] by (simp add: feedable_def valid_utf8_appendI)
next
  case False
  then show ?thesis using assms by (auto simp: process_sse_chunk_cases)
qed

definition step_items ::
  "('e, 'k) doppel_restore \<Rightarrow> ('e, 'k) doppel_bytes \<Rightarrow> serde \<Rightarrow> poll option \<times> ('e, 'k) machine \<Rightarrow> (sse_error + bytes) list" where
  "step_items D B S am =
     (case am of
        (None, m') \<Rightarrow> stream_items D B S m'
      | (Some Pending, m') \<Rightarrow> stream_items D B S m'
      | (Some (Ready None), m') \<Rightarrow> []
      | (Some (Ready (Some item)), m') \<Rightarrow> item # stream_items D B S m')"

lemma stream_items_poll: "stream_items D B S m = step_items D B S (poll_step D B S m)"
  by (simp add: step_items_def stream_items_step[of D B S m])

lemma step_items_simps [simp]:
  "step_items D B S (None, m) = stream_items D B S m"
  "step_items D B S (Some Pending, m) = stream_items D B S m"
  "step_items D B S (Some (Ready None), m) = []"
  "step_items D B S (Some (Ready (Some item)), m) = item # stream_items D B S m"
  by (simp_all add: step_items_def)

text \<open>A stream of chunks that is never interrupted yields what its concatenation yields. The
  induction is over the turns; these are its cases.\<close>

definition yields ::
  "('e, 'k) doppel_restore \<Rightarrow> ('e, 'k) doppel_bytes \<Rightarrow> serde \<Rightarrow> ('e, 'k) sse_ctx \<Rightarrow> inner_event list \<Rightarrow> sse_state \<Rightarrow> bool" where
  "yields D B S ctx inner st \<longleftrightarrow>
     (list_all (\<lambda>e. \<not> is_fail e) inner \<and> feedable (raw_fragment st @ concat (chunks_of inner)) \<longrightarrow>
        outcome (rest_output D S ctx (concat (chunks_of inner)) st) (stream_items D B S (StreamingSse inner ctx st)))"

lemma outcome_Inl: "outcome (Inl e) [Inl e]"
  by (simp add: outcome_def)

lemma poll_inner_outcome:
  assumes "list_all (\<lambda>e. \<not> is_fail e) inner" and "feedable (raw_fragment st @ concat (chunks_of inner))"
    and "inner = [] \<Longrightarrow> rest_output D S ctx [] st = finish_sse D S ctx st"
    and IH: "\<And>inner' st'. length inner' < length inner \<Longrightarrow> yields D B S ctx inner' st'"
  shows "outcome (rest_output D S ctx (concat (chunks_of inner)) st) (step_items D B S (poll_inner D S inner ctx st))"
proof (cases inner)
  case Nil
  show ?thesis
    using assms(3)[OF Nil]
    by (cases "finish_sse D S ctx st")
       (auto simp: Nil poll_inner_def outcome_def stream_items_Done stream_items_Emitting)
next
  case (Cons ev inner')
  then have l: "length inner' < length inner" by simp
  show ?thesis
  proof (cases ev)
    case Pend
    with IH[OF l, of st] assms(1,2) show ?thesis by (simp add: Cons poll_inner_def yields_def)
  next
    case (Chunk c)
    have f: "feedable (raw_fragment st @ c @ concat (chunks_of inner'))" using assms(2) by (simp add: Cons Chunk)
    note split = rest_output_split[OF f, of D S ctx]
    show ?thesis
    proof (cases "process_sse_chunk D S ctx c st")
      case (Inl e)
      with split show ?thesis by (simp add: Cons Chunk poll_inner_def stream_items_Done outcome_Inl)
    next
      case (Inr st')
      with IH[OF l, of st'] feedable_rest[OF f Inr] assms(1) split show ?thesis
        by (simp add: Cons Chunk poll_inner_def yields_def)
    qed
  next
    case (Fail e)
    with assms(1) show ?thesis by (simp add: Cons)
  next
    case Abort
    with assms(1) show ?thesis by (simp add: Cons)
  qed
qed

lemma process_empty_idle: "raw_fragment st = [] \<Longrightarrow> process_sse_chunk D S ctx [] st = Inr st"
  by (simp add: process_sse_chunk_cases frames_of.simps run_frames_queue with_raw_def)

lemma yields_pop:
  assumes "output_queue st = b # q" and "yields D B S ctx inner (st\<lparr>output_queue := q\<rparr>)"
  shows "yields D B S ctx inner st"
  unfolding yields_def
proof
  let ?st = "st\<lparr>output_queue := q\<rparr>" and ?z = "concat (chunks_of inner)"
  assume a: "list_all (\<lambda>e. \<not> is_fail e) inner \<and> feedable (raw_fragment st @ ?z)"
  have sh: "st = shift_queue [b] ?st" by (simp add: shift_queue_def flip: assms(1))
  have i: "outcome (rest_output D S ctx ?z ?st) (stream_items D B S (StreamingSse inner ctx ?st))"
    using assms(2) a by (simp add: yields_def)
  have "stream_items D B S (StreamingSse inner ctx st) = map Inr [b] @ stream_items D B S (StreamingSse inner ctx ?st)"
    by (simp add: stream_items_poll[of D B S "StreamingSse inner ctx st"] poll_streaming_def assms(1))
  then show "outcome (rest_output D S ctx ?z st) (stream_items D B S (StreamingSse inner ctx st))"
    using outcome_shift[OF i, of "[b]"] by (subst sh, subst rest_output_shift) simp
qed

lemma yields_poll:
  assumes "output_queue st = []" and "raw_fragment st = []"
    and "\<And>inner' st'. length inner' < length inner \<Longrightarrow> yields D B S ctx inner' st'"
  shows "yields D B S ctx inner st"
  unfolding yields_def
proof
  assume "list_all (\<lambda>e. \<not> is_fail e) inner \<and> feedable (raw_fragment st @ concat (chunks_of inner))"
  then have "outcome (rest_output D S ctx (concat (chunks_of inner)) st) (step_items D B S (poll_inner D S inner ctx st))"
    by (intro poll_inner_outcome assms(3)) (auto simp: rest_output_def process_empty_idle[OF assms(2)])
  then show "outcome (rest_output D S ctx (concat (chunks_of inner)) st) (stream_items D B S (StreamingSse inner ctx st))"
    by (simp add: stream_items_poll[of D B S "StreamingSse inner ctx st"] poll_streaming_def assms(1,2))
qed

lemma yields_parse:
  assumes q: "output_queue st = []" and r: "raw_fragment st \<noteq> []"
    and shorter: "\<And>inner' st'. length inner' < length inner \<Longrightarrow> yields D B S ctx inner' st'"
    and parsed: "\<And>st'. length (raw_fragment st') < length (raw_fragment st) \<Longrightarrow> yields D B S ctx inner st'"
  shows "yields D B S ctx inner st"
  unfolding yields_def
proof
  let ?z = "concat (chunks_of inner)"
  assume a: "list_all (\<lambda>e. \<not> is_fail e) inner \<and> feedable (raw_fragment st @ ?z)"
  then have fd: "feedable (raw_fragment st @ [] @ ?z)" by simp
  note split = rest_output_split[OF fd, of D S ctx]
  note items = stream_items_poll[of D B S "StreamingSse inner ctx st"]
  show "outcome (rest_output D S ctx ?z st) (stream_items D B S (StreamingSse inner ctx st))"
  proof (cases "process_sse_chunk D S ctx [] st")
    case (Inl e)
    with split q r show ?thesis by (simp add: items poll_streaming_def stream_items_Done outcome_Inl)
  next
    case (Inr st')
    have fd': "feedable (raw_fragment st' @ ?z)" by (rule feedable_rest[OF fd Inr])
    have eq: "rest_output D S ctx ?z st = rest_output D S ctx ?z st'" using split Inr by simp
    show ?thesis
    proof (cases "output_queue st' = []")
      case True
      have idle: "rest_output D S ctx [] st' = finish_sse D S ctx st'" if n: "inner = []"
      proof -
        have "run_chunks D S ctx st [[], []] = process_sse_chunk D S ctx [] st"
          using run_chunks_at_once[of "[[], []]" st D S ctx] fd n by (simp add: feedable_def)
        then show ?thesis using Inr by (simp add: run_chunks_def rest_output_def)
      qed
      from poll_inner_outcome[OF _ fd' idle shorter] a show ?thesis
        using q r Inr True eq by (simp add: items poll_streaming_def)
    next
      case False
      with parsed[OF reparse_shorter(2)[OF Inr]] q a fd' show ?thesis
        using r Inr eq by (simp add: items poll_streaming_def yields_def)
    qed
  qed
qed

lemma streaming_yields: "yields D B S ctx inner st"
proof -
  have "\<forall>inner st. m = StreamingSse inner ctx st \<longrightarrow> yields D B S ctx inner st" for m
  proof (induction m rule: wf_induct_rule[OF wf_machine_less])
    case (1 m)
    show ?case
    proof (intro allI impI)
      fix inner st assume m: "m = StreamingSse inner ctx st"
      have IH: "(StreamingSse inner' ctx st', StreamingSse inner ctx st) \<in> machine_less \<Longrightarrow> yields D B S ctx inner' st'"
        for inner' st' using 1 m by blast
      show "yields D B S ctx inner st"
      proof (cases "output_queue st")
        case (Cons b q)
        show ?thesis by (rule yields_pop[OF Cons], rule IH) (simp add: machine_less_def Cons)
      next
        case Nil
        show ?thesis
        proof (cases "raw_fragment st = []")
          case True
          show ?thesis by (rule yields_poll[OF Nil True], rule IH) (simp add: machine_less_def)
        next
          case False
          show ?thesis by (rule yields_parse[OF Nil False]) (rule IH, simp add: machine_less_def)+
        qed
      qed
    qed
  qed
  then show ?thesis by blast
qed

subsection \<open>Detection\<close>

definition first_chunk :: "inner_event list \<Rightarrow> bytes option" where
  "first_chunk inner = find (\<lambda>c. c \<noteq> []) (chunks_of inner)"

lemma first_chunk_simps [simp]:
  "first_chunk [] = None" "first_chunk (Pend # inner) = first_chunk inner" "first_chunk (Fail e # inner) = first_chunk inner"
  "first_chunk (Abort # inner) = first_chunk inner"
  "first_chunk (Chunk c # inner) = (if c \<noteq> [] then Some c else first_chunk inner)"
  by (simp_all add: first_chunk_def)

lemma detecting_Nil: "stream_items D B S (Detecting [] ctx) = step_items D B S (poll_detecting [] ctx)"
  by (simp add: stream_items_poll[of D B S "Detecting [] ctx"])

lemma detecting_Cons:
  "stream_items D B S (Detecting (ev # inner) ctx) = step_items D B S (poll_detecting (ev # inner) ctx)"
  by (simp add: stream_items_poll[of D B S "Detecting (ev # inner) ctx"])

lemma collecting_Nil:
  "stream_items D B S (CollectingNonSse [] raw es k) = step_items D B S (poll_collecting B [] raw es k)"
  by (simp add: stream_items_poll[of D B S "CollectingNonSse [] raw es k"])

lemma collecting_Cons:
  "stream_items D B S (CollectingNonSse (ev # inner) raw es k) = step_items D B S (poll_collecting B (ev # inner) raw es k)"
  by (simp add: stream_items_poll[of D B S "CollectingNonSse (ev # inner) raw es k"])

lemma processing_0: "stream_items D B S (Processing 0 res) = step_items D B S (poll_processing 0 res)"
  by (simp add: stream_items_poll[of D B S "Processing 0 res"])

lemma processing_Suc: "stream_items D B S (Processing (Suc n) res) = step_items D B S (poll_processing (Suc n) res)"
  by (simp add: stream_items_poll[of D B S "Processing (Suc n) res"])

lemma sse_start_raw: "sse_start c = with_raw c (sse_start [])"
  by (simp add: sse_start_def with_raw_def)

lemma rest_output_start: "rest_output D S ctx z (sse_start c) = sse_output D S ctx (c @ z)"
  by (subst sse_start_raw)
     (simp add: rest_output_def sse_output_def process_sse_chunk_cases run_frames_raw try_then_assoc,
      simp add: sse_start_def with_raw_def)

lemma detecting_sse:
  "list_all (\<lambda>e. \<not> is_fail e) inner \<Longrightarrow> first_chunk inner = Some c \<Longrightarrow> is_sse_first_chunk c \<Longrightarrow>
   feedable (concat (chunks_of inner)) \<Longrightarrow>
   outcome (sse_output D S ctx (concat (chunks_of inner))) (stream_items D B S (Detecting inner ctx))"
proof (induction inner)
  case Nil
  then show ?case by simp
next
  case (Cons ev inner)
  show ?case
  proof (cases ev)
    case Pend
    with Cons show ?thesis by (simp add: detecting_Cons poll_detecting_def)
  next
    case (Chunk d)
    show ?thesis
    proof (cases "d = []")
      case True
      with Cons Chunk show ?thesis by (simp add: detecting_Cons poll_detecting_def)
    next
      case False
      with Cons Chunk have "outcome (rest_output D S ctx (concat (chunks_of inner)) (sse_start d))
          (stream_items D B S (StreamingSse inner ctx (sse_start d)))"
        using streaming_yields[of D B S ctx inner "sse_start d"] by (simp add: yields_def sse_start_def)
      with Cons.prems Chunk False show ?thesis
        by (simp add: detecting_Cons poll_detecting_def rest_output_start)
    qed
  next
    case (Fail e)
    with Cons.prems show ?thesis by simp
  next
    case Abort
    with Cons.prems show ?thesis by simp
  qed
qed

lemma processing_items: "stream_items D B S (Processing n res) = (case res of Inr q \<Rightarrow> map Inr q | Inl e \<Rightarrow> [Inl e])"
proof (induction n)
  case 0
  show ?case
    by (cases res) (simp_all add: processing_0 poll_processing_def
        stream_items_Done stream_items_Emitting)
next
  case (Suc n)
  then show ?case by (simp add: processing_Suc poll_processing_def)
qed

lemma collecting_items:
  "list_all (\<lambda>e. \<not> is_fail e) inner \<Longrightarrow> stream_items D B S (CollectingNonSse inner raw es k) =
     (case restore_non_sse B (raw @ concat (chunks_of inner)) es k of Inr q \<Rightarrow> map Inr q | Inl e \<Rightarrow> [Inl e])"
proof (induction inner arbitrary: raw)
  case Nil
  then show ?case
    by (simp add: collecting_Nil poll_collecting_def processing_items)
next
  case (Cons ev inner)
  then show ?case
    by (cases ev) (simp_all add: collecting_Cons poll_collecting_def)
qed

lemma detecting_non_sse:
  "list_all (\<lambda>e. \<not> is_fail e) inner \<Longrightarrow> first_chunk inner = Some c \<Longrightarrow> \<not> is_sse_first_chunk c \<Longrightarrow>
   stream_items D B S (Detecting inner ctx) =
     (case restore_non_sse B (concat (chunks_of inner)) (ctx_entries ctx) (ctx_session_key ctx) of
        Inr q \<Rightarrow> map Inr q | Inl e \<Rightarrow> [Inl e])"
proof (induction inner)
  case (Cons ev inner)
  then show ?case
    by (cases ev) (auto simp: detecting_Cons poll_detecting_def collecting_items split: if_splits)
qed simp

lemma detecting_nothing:
  "list_all (\<lambda>e. \<not> is_fail e) inner \<Longrightarrow> first_chunk inner = None \<Longrightarrow> stream_items D B S (Detecting inner ctx) = []"
proof (induction inner)
  case Nil
  then show ?case by (simp add: detecting_Nil poll_detecting_def)
next
  case (Cons ev inner)
  then show ?case
    by (cases ev) (auto simp: detecting_Cons poll_detecting_def split: if_splits)
qed

subsection \<open>Errors are last\<close>

fun pending_events :: "('e, 'k) machine \<Rightarrow> inner_event list" where
  "pending_events (Detecting inner ctx) = inner"
| "pending_events (CollectingNonSse inner raw entries key) = inner"
| "pending_events (StreamingSse inner ctx st) = inner"
| "pending_events _ = []"

lemma poll_step_error: "poll_step D B S m = (Some (Ready (Some (Inl e))), m') \<Longrightarrow> m' = Done"
  by (cases m) (auto simp: poll_detecting_def poll_collecting_def poll_processing_def poll_emitting_def
      poll_streaming_def poll_inner_def split: list.splits inner_event.splits nat.splits sum.splits if_splits)

lemma poll_step_end: "poll_step D B S m = (Some (Ready None), m') \<Longrightarrow> m' = Done \<and> pending_events m = []"
  by (cases m) (auto simp: poll_detecting_def poll_collecting_def poll_processing_def poll_emitting_def
      poll_streaming_def poll_inner_def split: list.splits inner_event.splits nat.splits sum.splits if_splits)

text \<open>A failure of the inner stream is still to come, or this turn reports an error.\<close>

lemma poll_step_fail:
  assumes "poll_step D B S m = (a, m')" and "\<exists>e \<in> set (pending_events m). is_fail e"
    and "\<nexists>e. a = Some (Ready (Some (Inl e)))"
  shows "\<exists>e \<in> set (pending_events m'). is_fail e"
  using assms
  by (cases m) (auto simp: poll_detecting_def poll_collecting_def poll_processing_def poll_emitting_def
      poll_streaming_def poll_inner_def split: list.splits inner_event.splits nat.splits sum.splits if_splits)

lemma items_error_last:
  "(\<exists>out. stream_items D B S m = map Inr out) \<or> (\<exists>out e. stream_items D B S m = map Inr out @ [Inl e])"
proof (induction m rule: wf_induct_rule[OF wf_machine_less])
  case (1 m)
  obtain a m' where p: "poll_step D B S m = (a, m')" by (cases "poll_step D B S m")
  have items: "stream_items D B S m = step_items D B S (a, m')" by (simp add: stream_items_poll[of D B S m] p)
  have IH: "a \<noteq> Some (Ready None) \<Longrightarrow>
    (\<exists>out. stream_items D B S m' = map Inr out) \<or> (\<exists>out e. stream_items D B S m' = map Inr out @ [Inl e])"
    using 1 poll_step_less[of D B S m] p by simp
  consider "a = None" | "a = Some Pending" | "a = Some (Ready None)" | e where "a = Some (Ready (Some (Inl e)))"
    | b where "a = Some (Ready (Some (Inr b)))"
    by (metis option.exhaust poll.exhaust sum.exhaust)
  then show ?case
  proof cases
    case (4 e)
    with poll_step_error[of D B S m e m'] p have "m' = Done" by simp
    with 4 have "stream_items D B S m = map Inr [] @ [Inl e]" by (simp add: items stream_items_Done)
    then show ?thesis by blast
  next
    case (5 b)
    from IH 5 consider out where "stream_items D B S m' = map Inr out"
      | out e where "stream_items D B S m' = map Inr out @ [Inl e]" by blast
    then show ?thesis
    proof cases
      case (1 out)
      with 5 have "stream_items D B S m = map Inr (b # out)" by (simp add: items)
      then show ?thesis by blast
    next
      case (2 out e)
      with 5 have "stream_items D B S m = map Inr (b # out) @ [Inl e]" by (simp add: items)
      then show ?thesis by blast
    qed
  qed (use IH items in auto)
qed

lemma fail_gives_error: "\<exists>e \<in> set (pending_events m). is_fail e \<Longrightarrow> \<exists>e. Inl e \<in> set (stream_items D B S m)"
proof (induction m rule: wf_induct_rule[OF wf_machine_less])
  case (1 m)
  obtain a m' where p: "poll_step D B S m = (a, m')" by (cases "poll_step D B S m")
  have items: "stream_items D B S m = step_items D B S (a, m')" by (simp add: stream_items_poll[of D B S m] p)
  show ?case
  proof (cases "\<exists>e. a = Some (Ready (Some (Inl e)))")
    case True
    then show ?thesis by (auto simp: items)
  next
    case False
    from poll_step_fail[OF p "1.prems" False] have f: "\<exists>e \<in> set (pending_events m'). is_fail e" .
    have n: "a \<noteq> Some (Ready None)" using poll_step_end[of D B S m m'] p "1.prems" by auto
    then have "(m', m) \<in> machine_less" using poll_step_less[of D B S m] p by simp
    from "1.IH"[OF this f] obtain e where e: "Inl e \<in> set (stream_items D B S m')" by blast
    consider "a = None" | "a = Some Pending" | b where "a = Some (Ready (Some (Inr b)))"
      using False n by (metis option.exhaust poll.exhaust sum.exhaust)
    then show ?thesis using e by cases (auto simp: items)
  qed
qed

subsection \<open>The polls of the restored stream\<close>

text \<open>Boxed as a \<open>ResponseStream\<close>, the stream is again what its polls answer. The messages are
  those of the \<open>io::Error\<close> values; that of a UTF-8 error is a parameter.\<close>

fun item_event :: "(nat \<Rightarrow> string) \<Rightarrow> sse_error + bytes \<Rightarrow> inner_event" where
  "item_event utf8_message (Inr b) = Chunk b"
| "item_event utf8_message (Inl (StreamError e)) = Fail e"
| "item_event utf8_message (Inl (RestoreError e)) = Fail e"
| "item_event utf8_message (Inl (NonUtf8Restored n)) = Fail (''restore produced non-UTF8: '' @ utf8_message n)"
| "item_event utf8_message (Inl Panicked) = Abort"

function stream_polls ::
  "(nat \<Rightarrow> string) \<Rightarrow> ('e, 'k) doppel_restore \<Rightarrow> ('e, 'k) doppel_bytes \<Rightarrow> serde \<Rightarrow> ('e, 'k) machine
   \<Rightarrow> inner_event list" where
  "stream_polls um D B S m =
     (case poll_next D B S m of
        (Ready None, m') \<Rightarrow> []
      | (Ready (Some item), m') \<Rightarrow> item_event um item # stream_polls um D B S m'
      | (Pending, m') \<Rightarrow> Pend # stream_polls um D B S m')"
  by pat_completeness auto
termination
  by (relation "inv_image machine_less (\<lambda>(um, D, B, S, m). m)")
     (auto simp: wf_machine_less intro: poll_next_goes_on sym)

declare stream_polls.simps [simp del]

lemma item_event_not_Pend [simp]: "item_event um item \<noteq> Pend"
  by (cases "(um, item)" rule: item_event.cases) simp_all

lemma stream_polls_items:
  "filter (\<lambda>ev. ev \<noteq> Pend) (stream_polls um D B S m) = map (item_event um) (stream_items D B S m)"
proof (induction um D B S m rule: stream_polls.induct)
  case (1 um D B S m)
  show ?case
  proof (cases "poll_next D B S m")
    case (Pair a m')
    show ?thesis
    proof (cases a)
      case Pending
      with 1(1)[OF Pair[symmetric]] Pair show ?thesis
        by (simp add: stream_polls.simps[of um D B S m] stream_items.simps[of D B S m])
    next
      case (Ready r)
      with 1(2)[OF Pair[symmetric]] Pair show ?thesis
        by (cases r) (simp_all add: stream_polls.simps[of um D B S m] stream_items.simps[of D B S m])
    qed
  qed
qed

lemma chunks_of_filter: "chunks_of (filter (\<lambda>ev. ev \<noteq> Pend) inner) = chunks_of inner"
proof (induction inner)
  case (Cons ev inner)
  then show ?case by (cases ev) simp_all
qed simp

lemma chunks_of_map_Chunk [simp]: "chunks_of (map Chunk out) = out"
  by (induction out) simp_all

lemma item_event_Inl_fail: "is_fail (item_event um (Inl x))"
  by (cases x) simp_all

lemma stream_polls_complete:
  assumes "stream_items D B S m = map Inr out"
  shows "chunks_of (stream_polls um D B S m) = out" and "list_all (\<lambda>ev. \<not> is_fail ev) (stream_polls um D B S m)"
proof -
  have f: "filter (\<lambda>ev. ev \<noteq> Pend) (stream_polls um D B S m) = map Chunk out"
    using assms by (simp add: stream_polls_items comp_def)
  then show "chunks_of (stream_polls um D B S m) = out"
    using chunks_of_filter[of "stream_polls um D B S m"] by simp
  have "\<not> is_fail ev" if "ev \<in> set (stream_polls um D B S m)" for ev
  proof (cases "ev = Pend")
    case False
    with that have "ev \<in> set (filter (\<lambda>ev. ev \<noteq> Pend) (stream_polls um D B S m))" by simp
    then show ?thesis unfolding f by auto
  qed simp
  then show "list_all (\<lambda>ev. \<not> is_fail ev) (stream_polls um D B S m)" by (simp add: list_all_iff)
qed

lemma stream_polls_fail:
  assumes "Inl x \<in> set (stream_items D B S m)"
  shows "\<exists>ev \<in> set (stream_polls um D B S m). is_fail ev"
proof -
  from assms have "item_event um (Inl x) \<in> set (filter (\<lambda>ev. ev \<noteq> Pend) (stream_polls um D B S m))"
    unfolding stream_polls_items by force
  then show ?thesis using item_event_Inl_fail[of um x] by auto
qed

text \<open>The whole way of an event stream, for the property below and for the extension that uses it.\<close>

lemma restored_stream:
  assumes "restores D entries session_key R" and "good_fakes (map (fake D) entries)" and "json_strings S"
    and "list_all (\<lambda>e. \<not> is_fail e) inner" and "first_chunk inner = Some c" and "is_sse_first_chunk c"
    and "valid_utf8 (concat (chunks_of inner))" and "\<not> sublist cr_cr_lf (concat (chunks_of inner))"
    and "frames_of (replace_crlf (concat (chunks_of inner))) = (frames, rest)"
  shows "(\<exists>items out.
        stream_items D B S (sse_restore_new D inner entries session_key p)
          = map Inr (out @ (if rest \<noteq> [] then [rest] else []))
        \<and> renders S items out
        \<and> (\<forall>key. out_text key items = expected_text R S p key frames)
        \<and> passed_of items = filter (\<lambda>f. \<not> carries S p f) frames
        \<and> deferred_of items = concat (map (frame_extras S p) frames))
    \<or> (unprintable S \<and> (\<exists>out. stream_items D B S (sse_restore_new D inner entries session_key p)
                                 = map Inr out @ [Inl Panicked]))"
proof -
  let ?ctx = "\<lparr>ctx_entries = entries, ctx_session_key = session_key, ctx_provider = p,
       ctx_max_fake_len = hold_window (map (fake D) entries)\<rparr>"
  have ok: "ctx_ok D S ?ctx R" using assms(1-3) by (simp add: ctx_ok_def)
  have o: "outcome (sse_output D S ?ctx (concat (chunks_of inner)))
      (stream_items D B S (sse_restore_new D inner entries session_key p))"
    using detecting_sse[OF assms(4-6)] assms(7,8) by (simp add: feedable_def sse_restore_new_def)
  show ?thesis
  proof (rule sse_output_items[OF ok assms(7,9)])
    assume "sse_output D S ?ctx (concat (chunks_of inner)) = Inl Panicked" "unprintable S"
    then show ?thesis using o by (simp add: outcome_def)
  next
    fix items out
    assume "sse_output D S ?ctx (concat (chunks_of inner)) = Inr (out @ (if rest \<noteq> [] then [rest] else []))"
      and i: "renders S items out"
        "\<And>key. out_text key items = expected_text R S (ctx_provider ?ctx) key frames"
        "passed_of items = filter (\<lambda>f. \<not> carries S (ctx_provider ?ctx) f) frames"
        "deferred_of items = concat (map (frame_extras S (ctx_provider ?ctx)) frames)"
    then have "stream_items D B S (sse_restore_new D inner entries session_key p)
        = map Inr (out @ (if rest \<noteq> [] then [rest] else []))"
      using o by (simp add: outcome_def)
    with i show ?thesis by (intro disjI1 exI[of _ items] exI[of _ out]) simp
  qed
qed

subsection \<open>Properties\<close>


definition wit_bytes :: "(bytes \<times> bytes, unit) doppel_bytes" where
  "wit_bytes = \<lparr>restore_stream = (\<lambda>tab k s. Inr [Inr (subst_fakes tab s)]), restore_polls = (\<lambda>tab k s. 2)\<rparr>"

definition wit_inner :: "inner_event list" where
  "wit_inner = [Pend, Chunk [], Chunk (take 9 wit_raw), Pend, Chunk (take 5 (drop 9 wit_raw)), Chunk (drop 14 wit_raw)]"

lemma wit_items:
  "stream_items table_restore wit_bytes wit_chat (sse_restore_new table_restore wit_inner wit_tab () OpenAi)
     = map Inr [format_frame None ''1'', format_frame None ''2'', ''data: [DONE]'' @ [LF, LF]]"
  by code_simp

lemma wit_inner_raw: "concat (chunks_of wit_inner) = wit_raw"
  by code_simp


text \<open>A response that does not look like an event stream is restored as one buffer: the client
  receives exactly what \<open>doppel\<close>'s byte stream yields for the concatenation of all chunks, or only
  its error, however the chunks were cut.\<close>

theorem non_sse_is_restored_at_once:
  assumes "list_all (\<lambda>e. \<not> is_fail e) inner" and "first_chunk inner = Some c" and "\<not> is_sse_first_chunk c"
  shows "stream_items D B S (sse_restore_new D inner entries session_key p) =
     (case restore_non_sse B (concat (chunks_of inner)) entries session_key of
        Inr q \<Rightarrow> map Inr q | Inl e \<Rightarrow> [Inl e])"
  unfolding sse_restore_new_def by (subst detecting_non_sse[OF assms]) simp

theorem non_sse_is_restored_at_once_witness:
  "stream_items table_restore wit_bytes wit_chat
     (sse_restore_new table_restore [Chunk ''{FA'', Pend, Chunk ''KE}''] wit_tab () OpenAi) = [Inr ''{REAL}'']"
proof -
  have 1: "list_all (\<lambda>e. \<not> is_fail e) [Chunk ''{FA'', Pend, Chunk ''KE}'']" by simp
  have 2: "first_chunk [Chunk ''{FA'', Pend, Chunk ''KE}''] = Some ''{FA''" by simp
  have 3: "\<not> is_sse_first_chunk ''{FA''" by code_simp
  have r: "restore_non_sse wit_bytes (concat (chunks_of [Chunk ''{FA'', Pend, Chunk ''KE}''])) wit_tab () = Inr [''{REAL}'']"
    by code_simp
  from non_sse_is_restored_at_once[OF 1 2 3, of table_restore wit_bytes wit_chat wit_tab "()" OpenAi] r
  show ?thesis by simp
qed

text \<open>C23: A failing response never ends like a complete one. The stream is finite, an error is its
  last item, and when the inner stream fails before its end the client's last item is an error, so
  that a consumer that saw no error has seen everything.\<close>

theorem failure_ends_with_an_error:
  assumes "e \<in> set inner" and "is_fail e"
  shows "\<exists>out x. stream_items D B S (sse_restore_new D inner entries session_key p) = map Inr out @ [Inl x]"
proof -
  let ?items = "stream_items D B S (sse_restore_new D inner entries session_key p)"
  have "\<exists>x. Inl x \<in> set ?items"
    by (rule fail_gives_error) (use assms in \<open>auto simp: sse_restore_new_def\<close>)
  then have "\<nexists>out. ?items = map Inr out" by auto
  with items_error_last[of D B S "sse_restore_new D inner entries session_key p"] show ?thesis by blast
qed

theorem failure_ends_with_an_error_witness:
  "\<exists>out x. stream_items table_restore wit_bytes wit_chat
     (sse_restore_new table_restore [Chunk ''data: a'', Fail ''reset'', Chunk ''x''] wit_tab () OpenAi) = map Inr out @ [Inl x]"
  by (rule failure_ends_with_an_error[where e = "Fail ''reset''"]) simp_all

text \<open>After its end or an error the stream is fused: it is in the state \<open>Done\<close>, and every
  further poll answers that it has ended.\<close>

theorem stream_is_fused:
  assumes "poll_next D B S m = (Ready None, m') \<or> poll_next D B S m = (Ready (Some (Inl e)), m')"
  shows "m' = Done \<and> poll_next D B S m' = (Ready None, Done)"
proof -
  have "poll_next D B S m = (a, m') \<Longrightarrow> a = Ready None \<or> a = Ready (Some (Inl e)) \<Longrightarrow> m' = Done" for a
  proof (induction D B S m rule: poll_next.induct)
    case (1 D B S m)
    obtain b m1 where p: "poll_step D B S m = (b, m1)" by (cases "poll_step D B S m")
    show ?case
    proof (cases b)
      case None
      then show ?thesis using "1.IH"[OF p[symmetric] None] "1.prems" p
        by (simp add: poll_next.simps[of D B S m])
    next
      case (Some ans)
      then show ?thesis using "1.prems" p poll_step_end[of D B S m m1] poll_step_error[of D B S m e m1]
        by (auto simp: poll_next.simps[of D B S m])
    qed
  qed
  with assms have "m' = Done" by blast
  then show ?thesis by (simp add: poll_next.simps[of D B S Done])
qed

theorem stream_is_fused_witness:
  "poll_next table_restore wit_bytes wit_chat (snd (poll_next table_restore wit_bytes wit_chat
     (Detecting [Fail ''reset'', Chunk ''x''] wit_ctx))) = (Ready None, Done)"
proof -
  have p: "poll_next table_restore wit_bytes wit_chat (Detecting [Fail ''reset'', Chunk ''x''] wit_ctx)
      = (Ready (Some (Inl (StreamError ''reset''))), Done)"
    by (simp add: poll_next.simps poll_detecting_def)
  from stream_is_fused[OF disjI2[OF p]] p show ?thesis by simp
qed

text \<open>How often the stream can still answer that it is not ready: once for every such answer of the
  inner stream, and, for a response restored as a whole, of the future that restores it.\<close>

fun wait_budget :: "('e, 'k) doppel_bytes \<Rightarrow> ('e, 'k) machine \<Rightarrow> nat" where
  "wait_budget B (Detecting inner ctx) =
     count_list inner Pend + restore_polls B (ctx_entries ctx) (ctx_session_key ctx) (concat (chunks_of inner))"
| "wait_budget B (CollectingNonSse inner raw entries key) =
     count_list inner Pend + restore_polls B entries key (raw @ concat (chunks_of inner))"
| "wait_budget B (Processing n res) = n"
| "wait_budget B (StreamingSse inner ctx st) = count_list inner Pend"
| "wait_budget B m = 0"

lemma wait_budget_step:
  assumes "poll_step D B S m = (a, m')"
  shows "wait_budget B m' + (if a = Some Pending then 1 else 0) \<le> wait_budget B m"
  using assms
  by (cases m) (auto simp: poll_detecting_def poll_collecting_def poll_processing_def poll_emitting_def
      poll_streaming_def poll_inner_def split: list.splits inner_event.splits nat.splits sum.splits if_splits)

lemma wait_budget_next:
  "poll_next D B S m = (a, m') \<Longrightarrow> wait_budget B m' + (if a = Pending then 1 else 0) \<le> wait_budget B m"
proof (induction D B S m rule: poll_next.induct)
  case (1 D B S m)
  obtain b m1 where p: "poll_step D B S m = (b, m1)" by (cases "poll_step D B S m")
  show ?case
  proof (cases b)
    case None
    with "1.IH"[OF p[symmetric] None] "1.prems" p wait_budget_step[OF p] show ?thesis
      by (simp add: poll_next.simps[of D B S m])
  next
    case (Some ans)
    with "1.prems" p wait_budget_step[OF p] show ?thesis by (simp add: poll_next.simps[of D B S m] split: if_splits)
  qed
qed

lemma stream_polls_pendings: "count_list (stream_polls um D B S m) Pend \<le> wait_budget B m"
proof (induction um D B S m rule: stream_polls.induct)
  case (1 um D B S m)
  obtain a m' where p: "poll_next D B S m = (a, m')" by (cases "poll_next D B S m")
  note b = wait_budget_next[OF p]
  show ?case
  proof (cases a)
    case Pending
    with 1(1)[OF p[symmetric]] p b show ?thesis by (simp add: stream_polls.simps[of um D B S m])
  next
    case (Ready r)
    with 1(2)[OF p[symmetric]] p b show ?thesis
      by (cases r) (auto simp: stream_polls.simps[of um D B S m])
  qed
qed

definition polled :: "('e, 'k) doppel_restore \<Rightarrow> ('e, 'k) doppel_bytes \<Rightarrow> serde \<Rightarrow> nat \<Rightarrow> ('e, 'k) machine \<Rightarrow> ('e, 'k) machine" where
  "polled D B S n m = ((\<lambda>m. snd (poll_next D B S m)) ^^ n) m"

lemma polled_Suc: "polled D B S (Suc n) m = polled D B S n (snd (poll_next D B S m))"
  by (simp add: polled_def funpow_Suc_right del: funpow.simps)

lemma stream_ends_after_polls: "fst (poll_next D B S (polled D B S (length (stream_polls um D B S m)) m)) = Ready None"
proof (induction um D B S m rule: stream_polls.induct)
  case (1 um D B S m)
  obtain a m' where p: "poll_next D B S m = (a, m')" by (cases "poll_next D B S m")
  show ?case
  proof (cases a)
    case Pending
    with 1(1)[OF p[symmetric]] p show ?thesis by (simp add: stream_polls.simps[of um D B S m] polled_Suc)
  next
    case (Ready r)
    with 1(2)[OF p[symmetric]] p show ?thesis
      by (cases r) (simp_all add: stream_polls.simps[of um D B S m] polled_Suc polled_def[of _ _ _ 0])
  qed
qed

lemma length_pend_split: "length xs = length (filter (\<lambda>e. e \<noteq> Pend) xs) + count_list xs Pend"
  by (induction xs) auto


text \<open>The turns of the loop that one poll takes.\<close>

function poll_turns ::
  "('e, 'k) doppel_restore \<Rightarrow> ('e, 'k) doppel_bytes \<Rightarrow> serde \<Rightarrow> ('e, 'k) machine \<Rightarrow> nat" where
  "poll_turns D B S m =
     (case poll_step D B S m of
        (Some answer, m') \<Rightarrow> 1
      | (None, m') \<Rightarrow> Suc (poll_turns D B S m'))"
  by pat_completeness auto
termination
  by (relation "inv_image machine_less (\<lambda>(D, B, S, m). m)")
     (auto simp: wf_machine_less intro: poll_step_goes_on sym)

declare poll_turns.simps [simp del]

fun turn_budget :: "('e, 'k) machine \<Rightarrow> nat" where
  "turn_budget (Detecting inner ctx) = 2 * length inner + 3"
| "turn_budget (CollectingNonSse inner raw entries key) = 2 * length inner + 3"
| "turn_budget (Processing n res) = 2"
| "turn_budget (StreamingSse inner ctx st) = 2 * length inner + (if output_queue st = [] then 3 else 1)"
| "turn_budget m = 1"

lemma turn_budget_step:
  assumes "poll_step D B S m = (a, m')"
  shows "Suc (if a = None then turn_budget m' else 2 * length (pending_events m')) \<le> turn_budget m"
  using assms
  by (cases m) (auto simp: poll_detecting_def poll_collecting_def poll_processing_def poll_emitting_def
      poll_streaming_def poll_inner_def split: list.splits inner_event.splits nat.splits sum.splits if_splits)

lemma poll_turns_budget:
  "poll_turns D B S m + 2 * length (pending_events (snd (poll_next D B S m))) \<le> turn_budget m"
proof (induction D B S m rule: poll_next.induct)
  case (1 D B S m)
  obtain a m' where p: "poll_step D B S m = (a, m')" by (cases "poll_step D B S m")
  show ?case
  proof (cases a)
    case None
    with "1.IH"[OF p[symmetric] None] p turn_budget_step[OF p] show ?thesis
      by (simp add: poll_next.simps[of D B S m] poll_turns.simps[of D B S m])
  next
    case (Some ans)
    with p turn_budget_step[OF p] show ?thesis
      by (simp add: poll_next.simps[of D B S m] poll_turns.simps[of D B S m])
  qed
qed

text \<open>C31: One poll does not spin. Whatever state the stream is in, a poll answers after at most two
  turns of its loop for every event it takes from the inner stream, and three more.\<close>

theorem poll_takes_few_turns:
  "poll_turns D B S m \<le> 2 * (length (pending_events m) - length (pending_events (snd (poll_next D B S m)))) + 3"
proof -
  have "turn_budget m \<le> 2 * length (pending_events m) + 3" by (cases m) simp_all
  with poll_turns_budget[of D B S m] show ?thesis by linarith
qed

end
