(* ===== verification/Extensions.thy ===== *)
theory Extensions
  imports SseStream
begin

text \<open>
  The extension pipeline, \<open>crates/lcp-server/src/extensions.rs\<close>: the state an extension carries
  from its second to its third hook, the context and the three hooks of an extension with their
  default bodies, and the three phases of the pipeline.

  An extension is a record of its hooks, as a trait object is. A hook that returns
  \<open>Result<_, anyhow::Error>\<close> answers an error message or its value; its future is awaited on the
  spot, so the record holds what the await answers. A \<open>ResponseStream\<close> is what its polls answer
  (\<open>inner_event\<close> of \<open>SseStream\<close>). The hash map of a state is a map: the code never iterates
  over it. The third phase begins with a \<open>debug_assert_eq\<close>; \<open>debug\<close> says whether the build has
  it, and \<open>None\<close> is its panic.
\<close>

type_synonym response_stream = "inner_event list"

subsection \<open>State between the phases\<close>

record sensitive_state_builder =
  builder_inner :: "string \<Rightarrow> string option"

record sensitive_state =
  state_inner :: "string \<Rightarrow> string option"

definition builder_new :: sensitive_state_builder where
  "builder_new = \<lparr>builder_inner = (\<lambda>_. None)\<rparr>"

definition builder_set :: "string \<Rightarrow> string \<Rightarrow> sensitive_state_builder \<Rightarrow> sensitive_state_builder" where
  "builder_set key val b = b\<lparr>builder_inner := (builder_inner b)(key \<mapsto> val)\<rparr>"

definition build_state :: "sensitive_state_builder \<Rightarrow> sensitive_state" where
  "build_state b = \<lparr>state_inner = builder_inner b\<rparr>"

definition state_get :: "sensitive_state \<Rightarrow> string \<Rightarrow> string option" where
  "state_get s key = state_inner s key"

text \<open>\<open>impl Debug\<close>: it does not look at the contents.\<close>

definition debug_state :: "sensitive_state \<Rightarrow> string" where
  "debug_state s = ''SensitiveState { <redacted> }''"

lemma state_get_build [simp]:
  "state_get (build_state builder_new) k = None"
  "state_get (build_state (builder_set k' v b)) k = (if k = k' then Some v else state_get (build_state b) k)"
  by (simp_all add: state_get_def build_state_def builder_new_def builder_set_def)

subsection \<open>Extensions\<close>

record proxy_ctx =
  px_provider :: provider
  px_method :: string
  px_path :: string
  px_cache_key :: "string option"

record extension =
  ext_name :: string
  on_request_body :: "proxy_ctx \<Rightarrow> bytes \<Rightarrow> string + bytes"
  on_upstream_body :: "proxy_ctx \<Rightarrow> bytes \<Rightarrow> string + bytes \<times> sensitive_state_builder"
  on_response_stream :: "proxy_ctx \<Rightarrow> sensitive_state \<Rightarrow> response_stream \<Rightarrow> response_stream"

text \<open>The default bodies of the trait.\<close>

definition default_extension :: "string \<Rightarrow> extension" where
  "default_extension nm =
     \<lparr>ext_name = nm,
      on_request_body = (\<lambda>ctx body. Inr body),
      on_upstream_body = (\<lambda>ctx body. Inr (body, builder_new)),
      on_response_stream = (\<lambda>ctx state stream. stream)\<rparr>"

lemma default_extension_sel [simp]:
  "on_request_body (default_extension nm) ctx body = Inr body"
  "on_upstream_body (default_extension nm) ctx body = Inr (body, builder_new)"
  "on_response_stream (default_extension nm) ctx st stream = stream"
  by (simp_all add: default_extension_def)

subsection \<open>The pipeline\<close>

type_synonym extension_pipeline = "extension list"

text \<open>\<open>impl Debug\<close>: the number of the extensions and nothing of them.\<close>

definition debug_pipeline :: "extension_pipeline \<Rightarrow> string" where
  "debug_pipeline exts = ''ExtensionPipeline { extensions: '' @ decimal (length exts) @ '' }''"

definition pipeline_new :: extension_pipeline where
  "pipeline_new = []"

definition register :: "extension \<Rightarrow> extension_pipeline \<Rightarrow> extension_pipeline" where
  "register ext exts = exts @ [ext]"

definition run_phase1 :: "extension_pipeline \<Rightarrow> proxy_ctx \<Rightarrow> bytes \<Rightarrow> string + bytes" where
  "run_phase1 exts ctx body = try_fold (\<lambda>b ext. on_request_body ext ctx b) body exts"

definition phase2_step ::
  "proxy_ctx \<Rightarrow> bytes \<times> sensitive_state list \<Rightarrow> extension \<Rightarrow> string + bytes \<times> sensitive_state list" where
  "phase2_step ctx acc ext =
     try_then (on_upstream_body ext ctx (fst acc)) (\<lambda>(new_body, builder).
       Inr (new_body, snd acc @ [build_state builder]))"

definition run_phase2 ::
  "extension_pipeline \<Rightarrow> proxy_ctx \<Rightarrow> bytes \<Rightarrow> string + bytes \<times> sensitive_state list" where
  "run_phase2 exts ctx body = try_fold (phase2_step ctx) (body, []) exts"

definition run_phase3 ::
  "bool \<Rightarrow> extension_pipeline \<Rightarrow> proxy_ctx \<Rightarrow> sensitive_state list \<Rightarrow> response_stream
   \<Rightarrow> response_stream option" where
  "run_phase3 debug exts ctx states stream =
     (if debug \<and> length exts \<noteq> length states then None
      else Some (fold (\<lambda>(ext, state) s. on_response_stream ext ctx state s) (zip exts states) stream))"

subsection \<open>The phases, hook by hook\<close>

lemma run_phase1_simps [simp]:
  "run_phase1 [] ctx body = Inr body"
  "run_phase1 (ext # exts) ctx body = try_then (on_request_body ext ctx body) (run_phase1 exts ctx)"
  by (auto simp: run_phase1_def fun_eq_iff intro!: arg_cong2[where f = try_then])

text \<open>The loop of the second phase with its states accumulated, and without.\<close>

fun phase2_from :: "extension_pipeline \<Rightarrow> proxy_ctx \<Rightarrow> bytes \<Rightarrow> string + bytes \<times> sensitive_state list" where
  "phase2_from [] ctx body = Inr (body, [])"
| "phase2_from (ext # exts) ctx body =
     try_then (on_upstream_body ext ctx body) (\<lambda>(body', builder).
       try_then (phase2_from exts ctx body') (\<lambda>(w, states). Inr (w, build_state builder # states)))"

lemma phase2_step_Inl: "on_upstream_body ext ctx body = Inl e \<Longrightarrow> phase2_step ctx (body, acc) ext = Inl e"
  by (simp add: phase2_step_def)

lemma phase2_step_Inr:
  "on_upstream_body ext ctx body = Inr (b, builder) \<Longrightarrow>
   phase2_step ctx (body, acc) ext = Inr (b, acc @ [build_state builder])"
  by (simp add: phase2_step_def)

lemma phase2_fold:
  "try_fold (phase2_step ctx) (body, acc) exts =
     try_then (phase2_from exts ctx body) (\<lambda>(w, states). Inr (w, acc @ states))"
proof (induction exts arbitrary: body acc)
  case (Cons ext exts)
  show ?case
  proof (cases "on_upstream_body ext ctx body")
    case (Inr r)
    then obtain b builder where r: "on_upstream_body ext ctx body = Inr (b, builder)" by (cases r) simp
    show ?thesis
      by (cases "phase2_from exts ctx b") (auto simp: r phase2_step_Inr Cons.IH)
  qed (simp add: phase2_step_Inl)
qed simp

lemma run_phase2_from: "run_phase2 exts ctx body = phase2_from exts ctx body"
proof -
  have "try_then r (\<lambda>(w, states). Inr (w, [] @ states)) = r" for r :: "string + bytes \<times> sensitive_state list"
    by (cases r) auto
  then show ?thesis by (simp add: run_phase2_def phase2_fold)
qed

lemma run_phase2_simps [simp]:
  "run_phase2 [] ctx body = Inr (body, [])"
  "run_phase2 (ext # exts) ctx body =
     try_then (on_upstream_body ext ctx body) (\<lambda>(body', builder).
       try_then (run_phase2 exts ctx body') (\<lambda>(w, states). Inr (w, build_state builder # states)))"
  by (simp_all add: run_phase2_from)

lemma run_phase2_length: "run_phase2 exts ctx body = Inr (w, states) \<Longrightarrow> length states = length exts"
  by (induction exts arbitrary: body w states) (auto simp: result_simps)

lemma run_phase3_simps [simp]:
  "run_phase3 debug [] ctx [] stream = Some stream"
  "run_phase3 debug (ext # exts) ctx (st # states) stream =
     run_phase3 debug exts ctx states (on_response_stream ext ctx st stream)"
  by (simp_all add: run_phase3_def)

lemma run_phase3_snoc:
  assumes "length states = length exts"
  shows "run_phase3 debug (exts @ [ext]) ctx (states @ [st]) stream =
    map_option (on_response_stream ext ctx st) (run_phase3 debug exts ctx states stream)"
  using assms by (simp add: run_phase3_def)

lemma run_phase3_total: "length states = length exts \<Longrightarrow> \<exists>out. run_phase3 debug exts ctx states stream = Some out"
  by (simp add: run_phase3_def)

subsection \<open>What the proxy relies on\<close>

text \<open>The contract of a second and a third phase: after a successful second phase the third one does
  not panic, and a response that fails before its end is not turned into one that looks complete.\<close>

locale response_hooks =
  fixes up :: "proxy_ctx \<Rightarrow> bytes \<Rightarrow> string + bytes \<times> 's"
    and down :: "proxy_ctx \<Rightarrow> 's \<Rightarrow> response_stream \<Rightarrow> response_stream option"
  assumes down_total: "up ctx body = Inr (w, st) \<Longrightarrow> down ctx st stream \<noteq> None"
    and down_fails: "up ctx body = Inr (w, st) \<Longrightarrow> down ctx st stream = Some out \<Longrightarrow>
      list_ex is_fail stream \<Longrightarrow> list_ex is_fail out"
begin

lemma complete_source:
  assumes "up ctx body = Inr (w, st)" and "down ctx st stream = Some out" and "\<not> list_ex is_fail out"
  shows "\<not> list_ex is_fail stream"
  using assms down_fails by blast

lemma down_Some:
  assumes "up ctx body = Inr (w, st)"
  obtains out where "down ctx st stream = Some out"
  using down_total[OF assms] by blast

end

text \<open>A pipeline that changes nothing is one of them.\<close>

locale identity_hooks =
  fixes up :: "proxy_ctx \<Rightarrow> bytes \<Rightarrow> string + bytes \<times> 's"
    and down :: "proxy_ctx \<Rightarrow> 's \<Rightarrow> response_stream \<Rightarrow> response_stream option"
  assumes up_id: "\<exists>st. up ctx body = Inr (body, st)"
    and down_id: "up ctx body = Inr (w, st) \<Longrightarrow> down ctx st stream = Some stream"

sublocale identity_hooks \<subseteq> response_hooks up down
  by unfold_locales (simp_all add: down_id)

lemma default_phase2: "run_phase2 (map default_extension nms) ctx body =
    Inr (body, map (\<lambda>_. build_state builder_new) nms)"
  by (induction nms) simp_all

lemma default_phase3: "length states = length nms \<Longrightarrow>
    run_phase3 debug (map default_extension nms) ctx states stream = Some stream"
proof (induction nms arbitrary: states)
  case (Cons nm nms)
  then show ?case by (cases states) simp_all
qed simp

interpretation default_hooks: identity_hooks "run_phase2 (map default_extension nms)"
    "run_phase3 debug (map default_extension nms)" for nms debug
proof unfold_locales
  fix ctx body
  show "\<exists>st. run_phase2 (map default_extension nms) ctx body = Inr (body, st)"
    by (simp add: default_phase2)
next
  fix ctx body w st stream
  assume "run_phase2 (map default_extension nms) ctx body = Inr (w, st)"
  then have "length st = length nms" by (auto simp: default_phase2)
  then show "run_phase3 debug (map default_extension nms) ctx st stream = Some stream"
    by (rule default_phase3)
qed

text \<open>Every pipeline of extensions that keep failures provides the contract.\<close>

definition keeps_failures :: "extension \<Rightarrow> bool" where
  "keeps_failures ext \<longleftrightarrow>
     (\<forall>ctx st stream. list_ex is_fail stream \<longrightarrow> list_ex is_fail (on_response_stream ext ctx st stream))"

lemma run_phase3_fails:
  assumes "list_all keeps_failures exts" and "length states = length exts"
    and "run_phase3 debug exts ctx states stream = Some out" and "list_ex is_fail stream"
  shows "list_ex is_fail out"
  using assms
proof (induction exts arbitrary: states stream)
  case (Cons ext exts)
  then obtain st states' where s: "states = st # states'" by (cases states) auto
  have "list_ex is_fail (on_response_stream ext ctx st stream)"
    using Cons.prems(1,4) by (simp add: keeps_failures_def)
  then show ?case using Cons.IH[of states'] Cons.prems s by simp
qed simp

lemma pipeline_hooks:
  assumes "list_all keeps_failures exts"
  shows "response_hooks (run_phase2 exts) (run_phase3 debug exts)"
proof unfold_locales
  fix ctx body w st stream
  assume u: "run_phase2 exts ctx body = Inr (w, st)"
  show "run_phase3 debug exts ctx st stream \<noteq> None"
    using run_phase3_total[OF run_phase2_length[OF u]] by auto
  fix out
  assume "run_phase3 debug exts ctx st stream = Some out" "list_ex is_fail stream"
  then show "list_ex is_fail out" by (rule run_phase3_fails[OF assms run_phase2_length[OF u]])
qed

subsection \<open>Properties\<close>

text \<open>A run of the second phase, unfolded at its last extension.\<close>

lemma run_phase2_append:
  "run_phase2 (exts @ exts') ctx body =
     try_then (run_phase2 exts ctx body) (\<lambda>(b, states).
       try_then (run_phase2 exts' ctx b) (\<lambda>(w, states'). Inr (w, states @ states')))"
proof (induction exts arbitrary: body)
  case Nil
  have "try_then r (\<lambda>(w, states'). Inr (w, [] @ states')) = r" for r :: "string + bytes \<times> sensitive_state list"
    by (cases r) auto
  then show ?case by simp
next
  case (Cons ext exts)
  show ?case
  proof (cases "on_upstream_body ext ctx body")
    case (Inr r)
    obtain b builder where r: "r = (b, builder)" by (cases r)
    show ?thesis
    proof (cases "run_phase2 exts ctx b")
      case Inr': (Inr x)
      obtain b' states where x: "x = (b', states)" by (cases x)
      show ?thesis by (cases "run_phase2 exts' ctx b'") (auto simp: Inr Inr' r x Cons.IH)
    qed (simp add: Inr r Cons.IH)
  qed simp
qed

lemma run_phase1_append:
  "run_phase1 (exts @ exts') ctx body = try_then (run_phase1 exts ctx body) (run_phase1 exts' ctx)"
  by (induction exts arbitrary: body) (auto simp: try_then_assoc fun_eq_iff intro!: arg_cong2[where f = try_then])

text \<open>C24: Each extension is handed its own state. In a request whose second phase succeeds, the
  extensions see the body one after the other in the order of registration; the \<open>i\<close>-th state is
  what the \<open>i\<close>-th extension itself built in that pass, and the third phase hands exactly this one
  to it, again in the order of registration, without panicking.\<close>

theorem extension_gets_own_state:
  assumes "run_phase2 exts ctx body = Inr (w, states)"
  shows "length states = length exts
    \<and> (\<exists>bodies. length bodies = Suc (length exts) \<and> bodies ! 0 = body \<and> bodies ! length exts = w
        \<and> (\<forall>i < length exts. \<exists>builder. on_upstream_body (exts ! i) ctx (bodies ! i) = Inr (bodies ! Suc i, builder)
             \<and> states ! i = build_state builder))
    \<and> (\<exists>streams. length streams = Suc (length exts) \<and> streams ! 0 = stream
        \<and> run_phase3 debug exts ctx states stream = Some (streams ! length exts)
        \<and> (\<forall>i < length exts. streams ! Suc i = on_response_stream (exts ! i) ctx (states ! i) (streams ! i)))"
  using assms
proof (induction exts arbitrary: w states rule: rev_induct)
  case Nil
  then show ?case by (intro conjI exI[of _ "[body]"] exI[of _ "[stream]"]) simp_all
next
  case (snoc ext exts)
  from snoc.prems obtain b states0 builder where
    p: "run_phase2 exts ctx body = Inr (b, states0)" "on_upstream_body ext ctx b = Inr (w, builder)"
      "states = states0 @ [build_state builder]"
    by (auto simp: run_phase2_append result_simps split: prod.splits)
  from snoc.IH[OF p(1)] obtain bodies streams where
    l: "length states0 = length exts" and
    b: "length bodies = Suc (length exts)" "bodies ! 0 = body" "bodies ! length exts = b"
      "\<forall>i < length exts. \<exists>builder. on_upstream_body (exts ! i) ctx (bodies ! i) = Inr (bodies ! Suc i, builder)
             \<and> states0 ! i = build_state builder" and
    s: "length streams = Suc (length exts)" "streams ! 0 = stream"
      "run_phase3 debug exts ctx states0 stream = Some (streams ! length exts)"
      "\<forall>i < length exts. streams ! Suc i = on_response_stream (exts ! i) ctx (states0 ! i) (streams ! i)"
    by blast
  let ?bodies = "bodies @ [w]"
  let ?streams = "streams @ [on_response_stream ext ctx (build_state builder) (streams ! length exts)]"
  have "run_phase3 debug (exts @ [ext]) ctx states stream = Some (?streams ! length (exts @ [ext]))"
    using s(1,3) by (simp add: p(3) run_phase3_snoc[OF l] nth_append)
  moreover have "\<forall>i < length (exts @ [ext]). \<exists>builder. on_upstream_body ((exts @ [ext]) ! i) ctx (?bodies ! i)
      = Inr (?bodies ! Suc i, builder) \<and> states ! i = build_state builder"
    using b l p(2,3) by (auto simp: nth_append less_Suc_eq)
  moreover have "\<forall>i < length (exts @ [ext]). ?streams ! Suc i
      = on_response_stream ((exts @ [ext]) ! i) ctx (states ! i) (?streams ! i)"
    using s l p(3) by (auto simp: nth_append less_Suc_eq)
  ultimately show ?case using l b(1,2) s(1,2) p(3)
    by (intro conjI exI[of _ ?bodies] exI[of _ ?streams]) (simp_all add: nth_append)
qed

text \<open>Two extensions for the witnesses: one that appends a mark to the body and keeps a note of the
  body it saw, and one that fails.\<close>

definition marking_extension :: "string \<Rightarrow> extension" where
  "marking_extension mark = (default_extension mark)
     \<lparr>on_request_body := (\<lambda>ctx body. Inr (body @ mark)),
      on_upstream_body := (\<lambda>ctx body. Inr (body @ mark, builder_set mark body builder_new)),
      on_response_stream := (\<lambda>ctx st stream.
        (case state_get st mark of Some seen \<Rightarrow> Chunk seen # stream | None \<Rightarrow> [Fail mark]))\<rparr>"

definition failing_extension :: "string \<Rightarrow> extension" where
  "failing_extension e = (default_extension e)
     \<lparr>on_request_body := (\<lambda>ctx body. Inl e), on_upstream_body := (\<lambda>ctx body. Inl e)\<rparr>"

definition wit_px :: proxy_ctx where
  "wit_px = \<lparr>px_provider = OpenAi, px_method = ''POST'', px_path = ''v1'', px_cache_key = None\<rparr>"

theorem extension_gets_own_state_witness:
  "run_phase3 True [marking_extension ''a'', marking_extension ''b''] wit_px
     (map build_state [builder_set ''a'' ''x'' builder_new, builder_set ''b'' ''xa'' builder_new]) []
   = Some [Chunk ''xa'', Chunk ''x'']"
proof -
  let ?exts = "[marking_extension ''a'', marking_extension ''b'']"
  have p: "run_phase2 ?exts wit_px ''x'' = Inr (''xab'',
      map build_state [builder_set ''a'' ''x'' builder_new, builder_set ''b'' ''xa'' builder_new])"
    by (simp add: marking_extension_def)
  from extension_gets_own_state[OF p, of "[]" True] obtain ss where
    0: "ss ! 0 = []" and r: "run_phase3 True ?exts wit_px
      (map build_state [builder_set ''a'' ''x'' builder_new, builder_set ''b'' ''xa'' builder_new]) [] = Some (ss ! 2)"
    and i: "\<And>i. i < 2 \<Longrightarrow> ss ! Suc i = on_response_stream (?exts ! i) wit_px
      ((map build_state [builder_set ''a'' ''x'' builder_new, builder_set ''b'' ''xa'' builder_new]) ! i) (ss ! i)"
    by (auto simp: numeral_2_eq_2)
  have "ss ! 1 = [Chunk ''x'']" using i[of 0] 0 by (simp add: marking_extension_def)
  then have "ss ! 2 = [Chunk ''xa'', Chunk ''x'']" using i[of 1] by (simp add: marking_extension_def numeral_2_eq_2)
  with r show ?thesis by simp
qed

text \<open>C39: The phases on the request fail closed and stop at the first failure: a phase answers an
  error exactly when some extension fails on the body that the extensions before it, which all
  succeeded, produced; it is that extension's error, and no later extension is asked.\<close>

theorem first_failing_extension_decides:
  "(run_phase1 exts ctx body = Inl e \<longleftrightarrow>
     (\<exists>pre ext post b. exts = pre @ ext # post \<and> run_phase1 pre ctx body = Inr b \<and> on_request_body ext ctx b = Inl e))
   \<and> (run_phase2 exts ctx body = Inl e \<longleftrightarrow>
     (\<exists>pre ext post b states. exts = pre @ ext # post \<and> run_phase2 pre ctx body = Inr (b, states)
        \<and> on_upstream_body ext ctx b = Inl e))"
proof (intro conjI iffI)
  assume "\<exists>pre ext post b. exts = pre @ ext # post \<and> run_phase1 pre ctx body = Inr b \<and> on_request_body ext ctx b = Inl e"
  then show "run_phase1 exts ctx body = Inl e" by (auto simp: run_phase1_append)
next
  assume "\<exists>pre ext post b states. exts = pre @ ext # post \<and> run_phase2 pre ctx body = Inr (b, states)
        \<and> on_upstream_body ext ctx b = Inl e"
  then show "run_phase2 exts ctx body = Inl e" by (auto simp: run_phase2_append)
next
  assume "run_phase1 exts ctx body = Inl e"
  then show "\<exists>pre ext post b. exts = pre @ ext # post \<and> run_phase1 pre ctx body = Inr b \<and> on_request_body ext ctx b = Inl e"
  proof (induction exts rule: rev_induct)
    case (snoc ext exts)
    show ?case
    proof (cases "run_phase1 exts ctx body")
      case (Inl e')
      with snoc obtain pre x post b where "exts = pre @ x # post" "run_phase1 pre ctx body = Inr b"
        "on_request_body x ctx b = Inl e" by (auto simp: run_phase1_append)
      then show ?thesis by (intro exI[of _ pre] exI[of _ x] exI[of _ "post @ [ext]"]) simp
    next
      case (Inr b)
      with snoc.prems show ?thesis
        by (intro exI[of _ exts] exI[of _ ext] exI[of _ "[]"] exI[of _ b]) (auto simp: run_phase1_append result_simps)
    qed
  qed simp
next
  assume "run_phase2 exts ctx body = Inl e"
  then show "\<exists>pre ext post b states. exts = pre @ ext # post \<and> run_phase2 pre ctx body = Inr (b, states)
        \<and> on_upstream_body ext ctx b = Inl e"
  proof (induction exts rule: rev_induct)
    case (snoc ext exts)
    show ?case
    proof (cases "run_phase2 exts ctx body")
      case (Inl e')
      with snoc obtain pre x post b st where "exts = pre @ x # post" "run_phase2 pre ctx body = Inr (b, st)"
        "on_upstream_body x ctx b = Inl e" by (auto simp: run_phase2_append)
      then show ?thesis by (intro exI[of _ pre] exI[of _ x] exI[of _ "post @ [ext]"]) simp
    next
      case (Inr r)
      with snoc.prems show ?thesis
        by (intro exI[of _ exts] exI[of _ ext] exI[of _ "[]"] exI[of _ "fst r"] exI[of _ "snd r"])
           (auto simp: run_phase2_append result_simps split: prod.splits)
    qed
  qed simp
qed

end
