(* ===== verification/Doppel.thy ===== *)
theory Doppel
  imports Extensions
begin

text \<open>
  The secret-swapping extension, \<open>crates/lcp-server/src/ext/doppel.rs\<close>: loading it from a secrets
  file, the second phase that swaps the secrets of the request body and seals the swapped entries and
  the session key into the state, and the third phase that takes them out again and wraps the
  response in the restore stream of \<open>SseStream\<close>.

  The \<open>doppel\<close> and \<open>hex\<close> libraries and the file system are parameters. \<open>swap\<close> is what
  the detector answers for a body in the request at hand; it is a function here because the hook calls
  it once per request. \<open>doppel_laws\<close> is what is documented of the encoders: each decoder reads
  what its encoder wrote, and a session key has 32 bytes.
\<close>

record ('e, 'k) swap_result =
  sw_payload :: bytes
  sw_entries :: "'e list"
  sw_session_key :: 'k

record ('d, 'e, 'k) doppel_swap =
  swap :: "'d \<Rightarrow> bytes \<Rightarrow> string + ('e, 'k) swap_result"
  serialize_entries :: "'e list \<Rightarrow> string + bytes"
  deserialize_entries :: "bytes \<Rightarrow> string + 'e list"
  key_as_bytes :: "'k \<Rightarrow> bytes"
  key_from_bytes :: "bytes \<Rightarrow> 'k"
  hex_encode :: "bytes \<Rightarrow> string"
  hex_decode :: "string \<Rightarrow> string + bytes"
  utf8_message :: "nat \<Rightarrow> string"

record ('e, 'k) doppel_stream =
  whole :: "('e, 'k) doppel_restore"
  streamed :: "('e, 'k) doppel_bytes"
  json_lib :: serde

record ('f, 'p, 'd) doppel_load =
  read_file :: "string \<Rightarrow> string + bytes"
  deserialize_secrets :: "bytes \<Rightarrow> string + 'f"
  to_patterns :: "'f \<Rightarrow> string + 'p list"
  detector_new :: "'p list \<Rightarrow> 'd"

definition doppel_laws :: "('d, 'e, 'k) doppel_swap \<Rightarrow> bool" where
  "doppel_laws L \<longleftrightarrow>
     (\<forall>es j. serialize_entries L es = Inr j \<longrightarrow> deserialize_entries L j = Inr es)
     \<and> (\<forall>b. hex_decode L (hex_encode L b) = Inr b)
     \<and> (\<forall>k. length (key_as_bytes L k) = 32 \<and> key_from_bytes L (key_as_bytes L k) = k)"

subsection \<open>Loading\<close>

datatype doppel_load_error = Io string | Patterns string

definition doppel_new :: "('f, 'p, 'd) doppel_load \<Rightarrow> 'p list \<Rightarrow> 'd" where
  "doppel_new F patterns = detector_new F patterns"

definition from_secrets_file :: "('f, 'p, 'd) doppel_load \<Rightarrow> string \<Rightarrow> doppel_load_error + 'd" where
  "from_secrets_file F path =
     (case read_file F path of
        Inl e \<Rightarrow> Inl (Io e)
      | Inr bytes \<Rightarrow>
          (case deserialize_secrets F bytes of
             Inl e \<Rightarrow> Inl (Patterns e)
           | Inr pf \<Rightarrow>
               (case to_patterns F pf of
                  Inl e \<Rightarrow> Inl (Patterns e)
                | Inr patterns \<Rightarrow> Inr (doppel_new F patterns))))"

subsection \<open>The two hooks\<close>

definition doppel_upstream_body ::
  "('d, 'e, 'k) doppel_swap \<Rightarrow> 'd \<Rightarrow> proxy_ctx \<Rightarrow> bytes \<Rightarrow> string + bytes \<times> sensitive_state_builder" where
  "doppel_upstream_body L detector ctx body =
     try_then (swap L detector body) (\<lambda>result.
       if sw_entries result = [] then Inr (body, builder_new)
       else try_then (serialize_entries L (sw_entries result)) (\<lambda>entries_json.
         case from_utf8 entries_json of
           Inl n \<Rightarrow> Inl (''entries JSON is not UTF-8: '' @ utf8_message L n)
         | Inr entries_str \<Rightarrow>
             (let key_hex = hex_encode L (key_as_bytes L (sw_session_key result));
                  builder = builder_set ''session_key'' key_hex (builder_set ''entries'' entries_str builder_new)
              in Inr (sw_payload result, builder))))"

definition error_stream :: "string \<Rightarrow> response_stream" where
  "error_stream msg = [Fail msg]"

definition decode_key :: "('d, 'e, 'k) doppel_swap \<Rightarrow> string \<Rightarrow> string + bytes" where
  "decode_key L key_hex =
     try_then (hex_decode L key_hex) (\<lambda>v. if length v = 32 then Inr v else Inl ''expected 32 bytes'')"

definition doppel_response_stream ::
  "('d, 'e, 'k) doppel_swap \<Rightarrow> ('e, 'k) doppel_stream \<Rightarrow> proxy_ctx \<Rightarrow> sensitive_state \<Rightarrow> response_stream
   \<Rightarrow> response_stream" where
  "doppel_response_stream L W ctx state stream =
     (case state_get state ''entries'' of
        None \<Rightarrow> stream
      | Some entries_json \<Rightarrow>
          (case state_get state ''session_key'' of
             None \<Rightarrow> error_stream ''SensitiveState has entries but no session_key''
           | Some key_hex \<Rightarrow>
               (case deserialize_entries L entries_json of
                  Inl e \<Rightarrow> error_stream (''entries deserialization failed: '' @ e)
                | Inr entries \<Rightarrow>
                    (case decode_key L key_hex of
                       Inl e \<Rightarrow> error_stream (''session key decode failed: '' @ e)
                     | Inr key_bytes \<Rightarrow>
                         stream_polls (utf8_message L) (whole W) (streamed W) (json_lib W)
                           (sse_restore_new (whole W) stream entries (key_from_bytes L key_bytes) (px_provider ctx))))))"

definition doppel_extension ::
  "('d, 'e, 'k) doppel_swap \<Rightarrow> ('e, 'k) doppel_stream \<Rightarrow> 'd \<Rightarrow> extension" where
  "doppel_extension L W detector =
     (default_extension ''doppel'')
       \<lparr>on_upstream_body := doppel_upstream_body L detector,
        on_response_stream := doppel_response_stream L W\<rparr>"

lemma doppel_extension_sel [simp]:
  "ext_name (doppel_extension L W d) = ''doppel''"
  "on_request_body (doppel_extension L W d) ctx body = Inr body"
  "on_upstream_body (doppel_extension L W d) = doppel_upstream_body L d"
  "on_response_stream (doppel_extension L W d) = doppel_response_stream L W"
  by (simp_all add: doppel_extension_def default_extension_def)

subsection \<open>From the second phase to the third\<close>

lemma from_utf8_Inr: "from_utf8 b = Inr s \<Longrightarrow> s = b"
  by (auto simp: from_utf8_def split: if_splits)

text \<open>A successful second phase: nothing was swapped, or everything was sealed.\<close>

lemma doppel_upstream_cases:
  assumes "doppel_upstream_body L d ctx body = Inr (w, builder)"
  obtains r where "swap L d body = Inr r" "sw_entries r = []" "w = body" "builder = builder_new"
    | r j where "swap L d body = Inr r" "sw_entries r \<noteq> []" "w = sw_payload r"
      "serialize_entries L (sw_entries r) = Inr j" "from_utf8 j = Inr j"
      "builder = builder_set ''session_key'' (hex_encode L (key_as_bytes L (sw_session_key r)))
                   (builder_set ''entries'' j builder_new)"
proof -
  from assms obtain r where r: "swap L d body = Inr r" by (auto simp: doppel_upstream_body_def result_simps)
  show thesis
  proof (cases "sw_entries r = []")
    case True
    with assms r show thesis by (intro that(1)) (simp_all add: doppel_upstream_body_def)
  next
    case False
    with assms r obtain j where j: "serialize_entries L (sw_entries r) = Inr j"
      by (auto simp: doppel_upstream_body_def result_simps)
    show thesis
    proof (cases "from_utf8 j")
      case (Inl n)
      with assms r False j show thesis by (simp add: doppel_upstream_body_def)
    next
      case (Inr t)
      then have "t = j" by (rule from_utf8_Inr)
      with assms r False j Inr show thesis by (intro that(2)[of r j]) (auto simp: doppel_upstream_body_def Let_def)
    qed
  qed
qed

lemma decode_encoded_key:
  "doppel_laws L \<Longrightarrow> decode_key L (hex_encode L (key_as_bytes L k)) = Inr (key_as_bytes L k)"
  by (simp add: decode_key_def doppel_laws_def)

lemma doppel_restores_own_state:
  assumes "doppel_laws L" and "doppel_upstream_body L d ctx body = Inr (w, builder)" and "swap L d body = Inr r"
  shows "doppel_response_stream L W ctx (build_state builder) stream =
     (if sw_entries r = [] then stream
      else stream_polls (utf8_message L) (whole W) (streamed W) (json_lib W)
             (sse_restore_new (whole W) stream (sw_entries r) (sw_session_key r) (px_provider ctx)))"
  using assms(2)
proof (cases rule: doppel_upstream_cases)
  case (1 r')
  with assms(3) show ?thesis by (simp add: doppel_response_stream_def)
next
  case (2 r' j)
  have "deserialize_entries L j = Inr (sw_entries r')" and "key_from_bytes L (key_as_bytes L k) = k" for k
    using assms(1) 2(4) by (simp_all add: doppel_laws_def)
  with assms(1,3) 2 show ?thesis
    by (simp add: doppel_response_stream_def decode_encoded_key)
qed

subsection \<open>Failures stay failures\<close>

lemma restore_stream_fails:
  assumes "list_ex is_fail stream"
  shows "list_ex is_fail (stream_polls um D B S (sse_restore_new D stream entries key p))"
proof -
  from assms have "\<exists>e \<in> set (pending_events (sse_restore_new D stream entries key p)). is_fail e"
    by (simp add: sse_restore_new_def list_ex_iff)
  then obtain x where "Inl x \<in> set (stream_items D B S (sse_restore_new D stream entries key p))"
    using fail_gives_error by blast
  from stream_polls_fail[OF this] show ?thesis by (simp add: list_ex_iff)
qed

lemma doppel_keeps_failures: "keeps_failures (doppel_extension L W d)"
  by (auto simp: keeps_failures_def doppel_response_stream_def error_stream_def restore_stream_fails
      split: option.split sum.split)

text \<open>The pipeline the program builds when a secrets file is configured is one the proxy can rely on.\<close>

interpretation doppel_pipe: response_hooks "run_phase2 [doppel_extension L W d]"
    "run_phase3 debug [doppel_extension L W d]" for L W d debug
  by (rule pipeline_hooks) (simp add: doppel_keeps_failures)

subsection \<open>Properties\<close>

text \<open>A library for the witnesses: the detector is a table of fakes and secrets, \<open>swap\<close> puts the
  fakes into the body, and the entries are the table.\<close>

definition wit_swap :: "((bytes \<times> bytes) list, bytes \<times> bytes, unit) doppel_swap" where
  "wit_swap =
     \<lparr>swap = (\<lambda>tab body. let payload = subst_fakes (map (\<lambda>(f, r). (r, f)) tab) body in
        Inr \<lparr>sw_payload = payload, sw_entries = (if payload = body then [] else tab), sw_session_key = ()\<rparr>),
      serialize_entries = (\<lambda>es. if es = wit_tab then Inr ''T'' else Inl ''unknown''),
      deserialize_entries = (\<lambda>j. if j = ''T'' then Inr wit_tab else Inl ''unknown''),
      key_as_bytes = (\<lambda>_. replicate 32 (CHR ''k'')), key_from_bytes = (\<lambda>_. ()),
      hex_encode = (\<lambda>b. b), hex_decode = Inr, utf8_message = (\<lambda>_. [])\<rparr>"

definition wit_stream :: "(bytes \<times> bytes, unit) doppel_stream" where
  "wit_stream = \<lparr>whole = table_restore, streamed = wit_bytes, json_lib = wit_chat\<rparr>"

lemma wit_swap_laws: "doppel_laws wit_swap"
  by (simp add: doppel_laws_def wit_swap_def)

lemma wit_upstream_body:
  "\<exists>builder. doppel_upstream_body wit_swap wit_tab wit_px ''key=REAL;'' = Inr (''key=FAKE;'', builder)"
proof -
  have "fst (projr (doppel_upstream_body wit_swap wit_tab wit_px ''key=REAL;'')) = ''key=FAKE;''
    \<and> (case doppel_upstream_body wit_swap wit_tab wit_px ''key=REAL;'' of Inr _ \<Rightarrow> True | Inl _ \<Rightarrow> False)"
    by code_simp
  then show ?thesis by (cases "doppel_upstream_body wit_swap wit_tab wit_px ''key=REAL;''") auto
qed

lemma wit_swap_body:
  "swap wit_swap wit_tab ''key=REAL;'' = Inr \<lparr>sw_payload = ''key=FAKE;'', sw_entries = wit_tab, sw_session_key = ()\<rparr>"
  by code_simp

text \<open>C32: What the second phase swaps, the third phase restores with. When it succeeds, the body on
  the wire is the swapped payload (the body itself when nothing was swapped), and the third phase of
  the same request, given the sealed state, restores the response with exactly the entries and the
  session key of that swap, or hands the response through untouched when nothing was swapped.\<close>

theorem doppel_state_roundtrip:
  assumes "doppel_laws L" and "doppel_upstream_body L d ctx body = Inr (w, builder)"
  shows "\<exists>r. swap L d body = Inr r
     \<and> w = (if sw_entries r = [] then body else sw_payload r)
     \<and> doppel_response_stream L W ctx (build_state builder) stream =
        (if sw_entries r = [] then stream
         else stream_polls (utf8_message L) (whole W) (streamed W) (json_lib W)
                (sse_restore_new (whole W) stream (sw_entries r) (sw_session_key r) (px_provider ctx)))"
proof -
  from assms(2) obtain r where r: "swap L d body = Inr r" "w = (if sw_entries r = [] then body else sw_payload r)"
    by (cases rule: doppel_upstream_cases) auto
  with doppel_restores_own_state[OF assms r(1)] show ?thesis by blast
qed

theorem doppel_state_roundtrip_witness:
  "\<exists>builder. doppel_upstream_body wit_swap wit_tab wit_px ''key=REAL;'' = Inr (''key=FAKE;'', builder)
     \<and> doppel_response_stream wit_swap wit_stream wit_px (build_state builder) [Chunk ''{FA'', Chunk ''KE}'']
        = [Pend, Pend, Chunk ''{REAL}'']"
proof -
  obtain builder where b: "doppel_upstream_body wit_swap wit_tab wit_px ''key=REAL;'' = Inr (''key=FAKE;'', builder)"
    using wit_upstream_body by blast
  note sw = wit_swap_body
  have st: "stream_polls (utf8_message wit_swap) (whole wit_stream) (streamed wit_stream) (json_lib wit_stream)
       (sse_restore_new (whole wit_stream) [Chunk ''{FA'', Chunk ''KE}''] wit_tab () OpenAi)
       = [Pend, Pend, Chunk ''{REAL}'']" by code_simp
  have "wit_tab \<noteq> []" by (simp add: wit_tab_def)
  with doppel_state_roundtrip[OF wit_swap_laws b, of wit_stream "[Chunk ''{FA'', Chunk ''KE}'']"] sw st
  have "doppel_response_stream wit_swap wit_stream wit_px (build_state builder) [Chunk ''{FA'', Chunk ''KE}'']
        = [Pend, Pend, Chunk ''{REAL}'']" by (auto simp: wit_px_def)
  with b show ?thesis by blast
qed

text \<open>The way of a swapped request through the pipeline, for the property below and for the proxy.\<close>

lemma pipeline_restores:
  assumes "doppel_laws L" and "swap L d body = Inr r" and "sw_entries r \<noteq> []"
    and "run_phase2 [doppel_extension L W d] ctx body = Inr (w, states)"
    and "restores (whole W) (sw_entries r) (sw_session_key r) R"
    and "good_fakes (map (fake (whole W)) (sw_entries r))" and "json_strings (json_lib W)"
    and "list_all (\<lambda>e. \<not> is_fail e) stream" and "first_chunk stream = Some c" and "is_sse_first_chunk c"
    and "valid_utf8 (concat (chunks_of stream))" and "\<not> sublist cr_cr_lf (concat (chunks_of stream))"
    and "frames_of (replace_crlf (concat (chunks_of stream))) = (frames, rest)"
  shows "w = sw_payload r
    \<and> (\<exists>out. run_phase3 debug [doppel_extension L W d] ctx states stream = Some out
        \<and> (list_all (\<lambda>e. \<not> is_fail e) out
             \<and> (\<exists>items bs. chunks_of out = bs @ (if rest \<noteq> [] then [rest] else [])
                 \<and> renders (json_lib W) items bs
                 \<and> (\<forall>key. out_text key items = expected_text R (json_lib W) (px_provider ctx) key frames)
                 \<and> passed_of items = filter (\<lambda>f. \<not> carries (json_lib W) (px_provider ctx) f) frames
                 \<and> deferred_of items = concat (map (frame_extras (json_lib W) (px_provider ctx)) frames))
           \<or> unprintable (json_lib W) \<and> list_ex is_fail out))"
proof -
  let ?m = "sse_restore_new (whole W) stream (sw_entries r) (sw_session_key r) (px_provider ctx)"
  let ?out = "stream_polls (utf8_message L) (whole W) (streamed W) (json_lib W) ?m"
  from assms(4) obtain builder where b: "doppel_upstream_body L d ctx body = Inr (w, builder)"
    and st: "states = [build_state builder]" by (auto simp: result_simps split: prod.splits)
  have w: "w = sw_payload r" using b assms(2,3) by (cases rule: doppel_upstream_cases) auto
  have out: "run_phase3 debug [doppel_extension L W d] ctx states stream = Some ?out"
    using doppel_restores_own_state[OF assms(1) b assms(2)] assms(3) by (simp add: st)
  note s = restored_stream[OF assms(5-13), of "streamed W" "px_provider ctx"]
  show ?thesis
  proof (cases "\<exists>bs. stream_items (whole W) (streamed W) (json_lib W) ?m = map Inr bs @ [Inl Panicked]")
    case True
    then have "Inl Panicked \<in> set (stream_items (whole W) (streamed W) (json_lib W) ?m)" by auto
    from stream_polls_fail[OF this] have f: "list_ex is_fail ?out" by (simp add: list_ex_iff)
    have "Inl Panicked \<notin> set (map Inr q)" for q :: "bytes list" by auto
    with s True have "unprintable (json_lib W)" by (metis in_set_conv_decomp)
    with w out f show ?thesis by blast
  next
    case False
    with s obtain items bs where i:
      "stream_items (whole W) (streamed W) (json_lib W) ?m = map Inr (bs @ (if rest \<noteq> [] then [rest] else []))"
      "renders (json_lib W) items bs"
      "\<forall>key. out_text key items = expected_text R (json_lib W) (px_provider ctx) key frames"
      "passed_of items = filter (\<lambda>f. \<not> carries (json_lib W) (px_provider ctx) f) frames"
      "deferred_of items = concat (map (frame_extras (json_lib W) (px_provider ctx)) frames)"
      by blast
    from w out stream_polls_complete[OF i(1), of "utf8_message L"] i(2-) show ?thesis by blast
  qed
qed

text \<open>The same for a response that is no event stream. Of \<open>doppel\<close>'s byte stream it is documented that it
  yields the restored text, in whatever pieces.\<close>

definition streams_whole :: "('e, 'k) doppel_bytes \<Rightarrow> 'e list \<Rightarrow> 'k \<Rightarrow> (bytes \<Rightarrow> bytes) \<Rightarrow> bool" where
  "streams_whole B entries session_key R \<longleftrightarrow>
     (\<forall>raw. \<exists>items. restore_stream B entries session_key raw = Inr (map Inr items) \<and> concat items = R raw)"

lemma restore_non_sse_whole:
  assumes "streams_whole B entries session_key R"
  obtains q where "restore_non_sse B raw entries session_key = Inr q" and "concat q = R raw"
proof -
  from assms obtain items where i: "restore_stream B entries session_key raw = Inr (map Inr items)" "concat items = R raw"
    by (auto simp: streams_whole_def)
  have "try_map (\<lambda>chunk. case chunk of Inl e \<Rightarrow> Inl (RestoreError e) | Inr bytes \<Rightarrow> Inr bytes) (map Inr items) = Inr items"
    by (induction items) simp_all
  with i show thesis by (intro that[of items]) (simp_all add: restore_non_sse_def)
qed

lemma pipeline_restores_whole:
  assumes "doppel_laws L" and "swap L d body = Inr r" and "sw_entries r \<noteq> []"
    and "run_phase2 [doppel_extension L W d] ctx body = Inr (w, states)"
    and "streams_whole (streamed W) (sw_entries r) (sw_session_key r) R"
    and "list_all (\<lambda>e. \<not> is_fail e) stream" and "first_chunk stream = Some c" and "\<not> is_sse_first_chunk c"
  shows "w = sw_payload r
    \<and> (\<exists>out. run_phase3 debug [doppel_extension L W d] ctx states stream = Some out
        \<and> list_all (\<lambda>e. \<not> is_fail e) out \<and> concat (chunks_of out) = R (concat (chunks_of stream)))"
proof -
  let ?m = "sse_restore_new (whole W) stream (sw_entries r) (sw_session_key r) (px_provider ctx)"
  let ?out = "stream_polls (utf8_message L) (whole W) (streamed W) (json_lib W) ?m"
  from assms(4) obtain builder where b: "doppel_upstream_body L d ctx body = Inr (w, builder)"
    and st: "states = [build_state builder]" by (auto simp: result_simps split: prod.splits)
  have w: "w = sw_payload r" using b assms(2,3) by (cases rule: doppel_upstream_cases) auto
  have out: "run_phase3 debug [doppel_extension L W d] ctx states stream = Some ?out"
    using doppel_restores_own_state[OF assms(1) b assms(2)] assms(3) by (simp add: st)
  obtain q where q: "restore_non_sse (streamed W) (concat (chunks_of stream)) (sw_entries r) (sw_session_key r) = Inr q"
    "concat q = R (concat (chunks_of stream))" by (rule restore_non_sse_whole[OF assms(5)])
  have "stream_items (whole W) (streamed W) (json_lib W) ?m = map Inr q"
    unfolding sse_restore_new_def by (subst detecting_non_sse[OF assms(6-8)]) (simp add: q(1))
  from stream_polls_complete[OF this, of "utf8_message L"] w out q(2) show ?thesis by simp
qed



text \<open>A state the third phase cannot use never lets a response through. When the entries are there
  but the session key is missing, or either does not decode, or the key has not 32 bytes, the client
  gets a single error and nothing of the upstream's response, in which the fakes would still stand.\<close>

theorem damaged_state_blocks_the_response:
  assumes "state_get state ''entries'' = Some j"
    and "state_get state ''session_key'' = None
      \<or> (\<exists>e. deserialize_entries L j = Inl e)
      \<or> (\<exists>k e. state_get state ''session_key'' = Some k \<and> hex_decode L k = Inl e)
      \<or> (\<exists>k v. state_get state ''session_key'' = Some k \<and> hex_decode L k = Inr v \<and> length v \<noteq> 32)"
  shows "\<exists>msg. doppel_response_stream L W ctx state stream = [Fail msg]"
  using assms
  by (auto simp: doppel_response_stream_def decode_key_def error_stream_def split: option.split sum.split)

theorem damaged_state_blocks_the_response_witness:
  "\<exists>msg. doppel_response_stream wit_swap wit_stream wit_px
     (build_state (builder_set ''session_key'' ''short'' (builder_set ''entries'' ''T'' builder_new)))
     [Chunk ''data: FAKE''] = [Fail msg]"
  by (rule damaged_state_blocks_the_response[where j = "''T''"]) (simp_all add: wit_swap_def)

end
