(* ===== verification/Server.thy ===== *)
theory Server
  imports Cache Doppel
begin

text \<open>
  The server around the proxy: \<open>ServerConfig\<close> and the choice of the upstream
  (\<open>crates/lcp-server/src/server.rs\<close>), the routes (\<open>router.rs\<close>) and the admin endpoints
  (\<open>stats.rs\<close>).

  The \<open>Cache\<close> handle of the configuration is the state that the handlers are given and return.
  Matching a path against the routes is axum's; the model has the table of the routes with the
  handler and the body limit of each. An admin answer is kept as the value that is turned into JSON;
  \<open>to_value_ok\<close> says whether \<open>serde_json::to_value\<close> accepts it.
\<close>

subsection \<open>Configuration\<close>

record server_config =
  addr :: string
  timeout_seconds :: u64
  body_limit_bytes :: u64
  anthropic_upstream :: "string option"
  openai_upstream :: "string option"
  openrouter_upstream :: "string option"
  gemini_upstream :: "string option"
  stream_channel_capacity :: nat
  extensions :: extension_pipeline

definition or_default :: "provider \<Rightarrow> string option \<Rightarrow> string" where
  "or_default p u = (case u of Some s \<Rightarrow> s | None \<Rightarrow> default_upstream p)"

fun upstream_for :: "server_config \<Rightarrow> provider \<Rightarrow> string" where
  "upstream_for cfg Anthropic = or_default Anthropic (anthropic_upstream cfg)"
| "upstream_for cfg OpenAi = or_default OpenAi (openai_upstream cfg)"
| "upstream_for cfg OpenRouter = or_default OpenRouter (openrouter_upstream cfg)"
| "upstream_for cfg Gemini = or_default Gemini (gemini_upstream cfg)"

text \<open>What the builder of the HTTP client is told.\<close>

record client_options =
  co_gzip :: bool
  co_deflate :: bool
  co_brotli :: bool
  co_timeout_secs :: "u64 option"

definition build_upstream_client :: "u64 \<Rightarrow> client_options" where
  "build_upstream_client timeout =
     \<lparr>co_gzip = False, co_deflate = False, co_brotli = False,
      co_timeout_secs = (if timeout > 0 then Some timeout else None)\<rparr>"

subsection \<open>Routes\<close>

datatype http_method = GET | POST | DELETE

datatype handler =
    Health
  | GetStats
  | ClearStats
  | ClearCache
  | GetCacheEntry
  | GetTrace
  | Proxy

text \<open>The limit of a request body: axum's default, none, or a number of bytes.\<close>

datatype body_limit = DefaultLimit | NoLimit | MaxBytes u64

record route =
  rt_path :: string
  rt_method :: http_method
  rt_handler :: handler
  rt_limit :: body_limit

definition proxy_routes :: "u64 \<Rightarrow> route list" where
  "proxy_routes body_limit =
     (let lim = (if body_limit = 0 then NoLimit else MaxBytes body_limit)
      in [\<lparr>rt_path = ''/{provider}/{*path}'', rt_method = POST, rt_handler = Proxy, rt_limit = lim\<rparr>,
          \<lparr>rt_path = ''/{provider}/{*path}'', rt_method = GET, rt_handler = Proxy, rt_limit = lim\<rparr>])"

definition admin_route :: "string \<Rightarrow> http_method \<Rightarrow> handler \<Rightarrow> route" where
  "admin_route p m h = \<lparr>rt_path = p, rt_method = m, rt_handler = h, rt_limit = DefaultLimit\<rparr>"

definition build_router :: "server_config \<Rightarrow> route list" where
  "build_router cfg =
     [admin_route ''/'' GET Health,
      admin_route ''/stats'' GET GetStats,
      admin_route ''/stats'' DELETE ClearStats,
      admin_route ''/cache'' DELETE ClearCache,
      admin_route ''/cache/{key}'' GET GetCacheEntry,
      admin_route ''/trace/{trace_id}'' GET GetTrace]
     @ proxy_routes (body_limit_bytes cfg)"

subsection \<open>Starting the server\<close>

text \<open>
  \<open>serve\<close>, up to the call of \<open>axum::serve\<close> and with what that returns. Binding a socket, asking
  for its address and serving connections until the server stops are the operating system's and
  axum's: \<open>bind\<close>, \<open>local_addr\<close> and \<open>axum_serve\<close>, each of which may fail. The state shared by the
  handlers starts with an empty set of background tasks.
\<close>

record app_state =
  as_config :: server_config
  as_client :: client_options
  as_pending :: nat

record 'l net_lib =
  bind :: "string \<Rightarrow> string + 'l"
  local_addr :: "'l \<Rightarrow> string + string"
  axum_serve :: "'l \<Rightarrow> app_state \<Rightarrow> route list \<Rightarrow> string + unit"

definition serve :: "'l net_lib \<Rightarrow> server_config \<Rightarrow> string + unit" where
  "serve N cfg =
     (let state = \<lparr>as_config = cfg, as_client = build_upstream_client (timeout_seconds cfg), as_pending = 0\<rparr>;
          app = build_router cfg
      in try_then (bind N (addr cfg)) (\<lambda>listener.
           try_then (local_addr N listener) (\<lambda>_. axum_serve N listener state app)))"

subsection \<open>Admin endpoints\<close>

datatype payload =
    HealthJson string string string
  | StatsJson cache_stats
  | ClearedJson
  | ClearedEntriesJson int
  | EntryJson full_entry
  | TraceFullJson string "full_entry list"
  | TraceMetaJson string "(string \<times> string \<times> u16 \<times> int) list"
  | TextBody string
  | EmptyBody

type_synonym admin_reply = "u16 \<times> payload"

abbreviation internal_error :: u16 where "internal_error \<equiv> 500"
abbreviation not_found :: u16 where "not_found \<equiv> 404"

definition health :: "string \<Rightarrow> admin_reply" where
  "health version = (200, HealthJson ''ok'' ''lcp'' version)"

definition as_json :: "(payload \<Rightarrow> bool) \<Rightarrow> payload \<Rightarrow> admin_reply" where
  "as_json to_value_ok v = (if to_value_ok v then (200, v) else (internal_error, EmptyBody))"

text \<open>The text of an \<open>anyhow::Error\<close> of the cache is a parameter.\<close>

definition get_stats :: "(payload \<Rightarrow> bool) \<Rightarrow> (cache_error \<Rightarrow> string) \<Rightarrow> (nat \<Rightarrow> bool) \<Rightarrow> cache \<Rightarrow> admin_reply" where
  "get_stats to_value_ok msg fault c =
     (case cache_stats_of fault c of
        Inr s \<Rightarrow> as_json to_value_ok (StatsJson s)
      | Inl e \<Rightarrow> (internal_error, TextBody (msg e)))"

definition clear_stats_handler :: "(cache_error \<Rightarrow> string) \<Rightarrow> (nat \<Rightarrow> bool) \<Rightarrow> cache \<Rightarrow> admin_reply \<times> cache" where
  "clear_stats_handler msg fault c =
     (case clear_stats fault c of
        (Inr _, c') \<Rightarrow> ((200, ClearedJson), c')
      | (Inl e, c') \<Rightarrow> ((internal_error, TextBody (msg e)), c'))"

definition clear_cache_handler :: "(cache_error \<Rightarrow> string) \<Rightarrow> (nat \<Rightarrow> bool) \<Rightarrow> cache \<Rightarrow> admin_reply \<times> cache" where
  "clear_cache_handler msg fault c =
     (case clear_entries fault c of
        (Inr n, c') \<Rightarrow> ((200, ClearedEntriesJson n), c')
      | (Inl e, c') \<Rightarrow> ((internal_error, TextBody (msg e)), c'))"

definition get_cache_entry ::
  "(payload \<Rightarrow> bool) \<Rightarrow> (cache_error \<Rightarrow> string) \<Rightarrow> cache_lib \<Rightarrow> (nat \<Rightarrow> bool) \<Rightarrow> cache \<Rightarrow> string \<Rightarrow> admin_reply" where
  "get_cache_entry to_value_ok msg L fault c key =
     (case inspect L fault c key of
        Inr (Some entry) \<Rightarrow> as_json to_value_ok (EntryJson entry)
      | Inr None \<Rightarrow> (not_found, TextBody (''cache key not found: '' @ key))
      | Inl e \<Rightarrow> (internal_error, TextBody (msg e)))"

text \<open>\<open>?full=true\<close>. The \<open>expect\<close> on the JSON of an entry is a panic of the handler:
  \<open>None\<close>.\<close>

definition get_trace_handler ::
  "(payload \<Rightarrow> bool) \<Rightarrow> (cache_error \<Rightarrow> string) \<Rightarrow> cache_lib \<Rightarrow> (nat \<Rightarrow> bool) \<Rightarrow> cache \<Rightarrow> string \<Rightarrow> bool
   \<Rightarrow> admin_reply option" where
  "get_trace_handler to_value_ok msg L fault c trace_id full =
     (if full then
        (case inspect_trace L fault c trace_id of
           Inr es \<Rightarrow>
             if list_all (\<lambda>e. to_value_ok (EntryJson e)) es then Some (200, TraceFullJson trace_id es) else None
         | Inl e \<Rightarrow> Some (internal_error, TextBody (msg e)))
      else
        (case get_trace fault c trace_id of
           Inr es \<Rightarrow> Some (200, TraceMetaJson trace_id
             (map (\<lambda>e. (ce_key e, ce_created_at e, ce_status e, ce_hit_count e)) es))
         | Inl e \<Rightarrow> Some (internal_error, TextBody (msg e))))"

text \<open>The two admin handlers that write, on the tables.\<close>

lemma clear_stats_handler_wf: "db_wf L (inner c) \<Longrightarrow> db_wf L (inner (snd (clear_stats_handler msg fault c)))"
  using clear_stats_wf[of L c fault]
  by (cases "clear_stats fault c") (auto simp: clear_stats_handler_def split: sum.split)

lemma clear_cache_handler_wf: "db_wf L (inner c) \<Longrightarrow> db_wf L (inner (snd (clear_cache_handler msg fault c)))"
  using clear_entries_wf[of L c fault]
  by (cases "clear_entries fault c") (auto simp: clear_cache_handler_def split: sum.split)

lemma clear_stats_handler_entries: "entries (inner (snd (clear_stats_handler msg fault c))) = entries (inner c)"
  by (auto simp: clear_stats_handler_def clear_stats_def)

lemma clear_cache_handler_entries:
  "set (entries (inner (snd (clear_cache_handler msg fault c)))) \<subseteq> set (entries (inner c))"
  by (auto simp: clear_cache_handler_def clear_entries_def Let_def)

end
