(* ===== verification/CacheKey.thy ===== *)
theory CacheKey
  imports Json Provider "HOL-Library.Multiset"
begin

text \<open>
  \<open>crates/lcp-core/src/hash.rs\<close>: the cache key. A request body that parses as JSON is
  normalized: the transport field \<open>stream\<close> and the provider's own fields are removed from
  every object that is reached through objects, and the keys of all objects are sorted. The key
  is the BLAKE3 digest of method, path and normalized body with bars between them.

  The digest and the JSON parser and printer are parameters. The lemmas characterise
  normalization completely on the values a parser yields (\<open>normalize_walk\<close>), show that the
  order of keys does not matter (\<open>normalize_value_eqv\<close>), that normalizing twice is
  normalizing once, and that the three parts of the hashed text can be told apart.
\<close>

definition remove_fields :: "string list \<Rightarrow> (string \<times> json) list \<Rightarrow> (string \<times> json) list" where
  "remove_fields fs m = foldl (\<lambda>m field. om_remove field m) m fs"

lemma remove_fields_filter: "remove_fields fs m = filter (\<lambda>p. fst p \<notin> set fs) m"
  unfolding remove_fields_def
  by (induction fs arbitrary: m) (auto simp: om_remove_def intro: filter_cong)

text \<open>\<open>strip_fields\<close> recurses into the values of an object, not into arrays.\<close>

function strip_fields :: "string list \<Rightarrow> json \<Rightarrow> json" where
  "strip_fields fs (JObject m) =
     JObject (map (\<lambda>(k, v). (k, strip_fields fs v)) (remove_fields fs m))"
| "strip_fields fs JNull = JNull"
| "strip_fields fs (JBool b) = JBool b"
| "strip_fields fs (JNumber n) = JNumber n"
| "strip_fields fs (JString s) = JString s"
| "strip_fields fs (JArray vs) = JArray vs"
  by pat_completeness auto
termination
proof (relation "measure (\<lambda>(fs, v). size v)")
  fix fs m p k v
  assume "p \<in> set (remove_fields fs m)" and "(k, v) = p"
  then have "(k, v) \<in> set m" by (auto simp: remove_fields_filter)
  then show "((fs, v), (fs, JObject m)) \<in> measure (\<lambda>(fs, v). size v)"
    by (induction m) auto
qed simp

fun sort_keys :: "json \<Rightarrow> json" where
  "sort_keys (JObject m) =
     JObject (om_from (sort_key fst (map (\<lambda>(k, v). (k, sort_keys v)) m)))"
| "sort_keys (JArray vs) = JArray (map sort_keys vs)"
| "sort_keys JNull = JNull"
| "sort_keys (JBool b) = JBool b"
| "sort_keys (JNumber n) = JNumber n"
| "sort_keys (JString s) = JString s"

definition normalize_value :: "provider \<Rightarrow> json \<Rightarrow> json" where
  "normalize_value provider value =
     (let value = strip_fields [''stream''] value;
          value = strip_fields (normalization_strip_fields provider) value
      in sort_keys value)"

definition normalize_body :: "serde \<Rightarrow> provider \<Rightarrow> bytes \<Rightarrow> string" where
  "normalize_body S provider body =
     (case parse_json S body of
        None \<Rightarrow> from_utf8_lossy body
      | Some value \<Rightarrow>
          (case print_json S (normalize_value provider value) of
             Some s \<Rightarrow> s
           | None \<Rightarrow> from_utf8_lossy body))"

text \<open>The bytes that the hasher is fed, piece by piece.\<close>

definition key_input :: "string \<Rightarrow> string \<Rightarrow> string \<Rightarrow> bytes" where
  "key_input method path normalized = method @ ''|'' @ path @ ''|'' @ normalized"

definition cache_key :: "(bytes \<Rightarrow> string) \<Rightarrow> serde \<Rightarrow> provider \<Rightarrow> string \<Rightarrow> string \<Rightarrow> bytes \<Rightarrow> string" where
  "cache_key blake3_hex S provider method path body =
     (let normalized = normalize_body S provider body
      in blake3_hex (key_input method path normalized))"

definition body_model :: "serde \<Rightarrow> bytes \<Rightarrow> string option" where
  "body_model S body =
     (case parse_json S body of
        None \<Rightarrow> None
      | Some v \<Rightarrow> (case jget v ''model'' of Some m \<Rightarrow> as_str m | None \<Rightarrow> None))"

definition cache_key_and_model ::
  "(bytes \<Rightarrow> string) \<Rightarrow> serde \<Rightarrow> provider \<Rightarrow> string \<Rightarrow> string \<Rightarrow> bytes \<Rightarrow> string \<times> string option" where
  "cache_key_and_model blake3_hex S provider method path body =
     (let model = body_model S body;
          normalized = normalize_body S provider body;
          key = blake3_hex (key_input method path normalized)
      in (key, model))"

subsection \<open>Stripping\<close>

lemma strip_fields_object:
  "strip_fields fs (JObject m) =
     JObject (map (apsnd (strip_fields fs)) (filter (\<lambda>p. fst p \<notin> set fs) m))"
  by (simp add: remove_fields_filter apsnd_def map_prod_def)

lemma map_fst_apsnd [simp]: "map fst (map (apsnd f) m) = map fst m"
  by (induction m) auto

lemma om_sorted_apsnd [simp]: "om_sorted (map (apsnd f) m) = om_sorted m"
  by (simp add: om_sorted_def del: map_map)

lemma om_sorted_filter: "om_sorted m \<Longrightarrow> om_sorted (filter P m)"
  by (simp add: om_sorted_def sorted_wrt_map sorted_wrt_filter)

lemma map_of_apsnd: "map_of (map (apsnd f) m) k = map_option f (map_of m k)"
  by (induction m) auto

lemma map_of_filter_key: "map_of (filter (\<lambda>p. P (fst p)) m) k = (if P k then map_of m k else None)"
  by (induction m) auto

lemma json_wf_strip_fields: "json_wf v \<Longrightarrow> json_wf (strip_fields fs v)"
proof (induction fs v rule: strip_fields.induct)
  case (1 fs m)
  have "json_wf (strip_fields fs v)" if "(k, v) \<in> set m" "k \<notin> set fs" for k v
    using 1 that by (force simp: remove_fields_filter list_all_iff)
  with "1.prems" show ?case
    by (auto simp: strip_fields_object om_sorted_filter list_all_iff simp del: strip_fields.simps)
qed auto

lemma jget_strip_fields:
  "jget (strip_fields fs v) k =
     (if k \<in> set fs then None else map_option (strip_fields fs) (jget v k))"
  by (cases v) (auto simp: strip_fields_object map_of_apsnd map_of_filter_key[where P = "\<lambda>k. k \<notin> set fs"] simp del: strip_fields.simps(1))

lemma strip_fields_idem: "strip_fields fs (strip_fields fs v) = strip_fields fs v"
proof (induction fs v rule: strip_fields.induct)
  case (1 fs m)
  then have "apsnd (strip_fields fs) (apsnd (strip_fields fs) p) = apsnd (strip_fields fs) p"
    if "p \<in> set m" "fst p \<notin> set fs" for p
    using that by (cases p) (force simp: remove_fields_filter)
  then show ?case
    by (simp add: strip_fields_object filter_map comp_def del: strip_fields.simps)
qed auto

subsection \<open>Sorting\<close>

lemma sort_keys_object:
  "sort_keys (JObject m) = JObject (om_from (sort_key fst (map (apsnd sort_keys) m)))"
  by (simp add: apsnd_def map_prod_def)

lemma distinct_map_fst_sort_key: "distinct (map fst (sort_key f m)) = distinct (map fst m)"
  by (rule mset_eq_imp_distinct_iff) simp

lemma map_of_same_set:
  "distinct (map fst a) \<Longrightarrow> distinct (map fst b) \<Longrightarrow> set a = set b \<Longrightarrow> map_of a = map_of b"
  by (simp add: map_of_inject_set)

text \<open>A sort of the pairs by key followed by insertion in that order loses nothing when the
  keys are distinct.\<close>

lemma map_of_om_from_sort:
  assumes "distinct (map fst m)"
  shows "map_of (om_from (sort_key fst m)) = map_of m"
proof -
  have "map_of (om_from (sort_key fst m)) = map_of (sort_key fst m)"
    using assms by (simp add: map_of_om_from map_of_rev_distinct distinct_map_fst_sort_key)
  also have "\<dots> = map_of m"
    using assms by (intro map_of_same_set) (simp_all add: distinct_map_fst_sort_key)
  finally show ?thesis .
qed

lemma om_from_sort_perm:
  assumes "mset m = mset m'" and "distinct (map fst m)"
  shows "om_from (sort_key fst m) = om_from (sort_key fst m')"
proof (rule om_map_of_inject)
  have d: "distinct (map fst m')"
    using assms by (metis mset_eq_imp_distinct_iff mset_map)
  have "set m = set m'" using assms(1) by (rule mset_eq_setD)
  with assms(2) d have "map_of m = map_of m'" by (intro map_of_same_set)
  then show "map_of (om_from (sort_key fst m)) = map_of (om_from (sort_key fst m'))"
    using assms(2) d by (simp add: map_of_om_from_sort)
qed simp_all

text \<open>On a value whose objects are ordered already, as a parsed value's are, sorting is the
  identity.\<close>

lemma sort_keys_wf: "json_wf v \<Longrightarrow> sort_keys v = v"
proof (induction v rule: sort_keys.induct)
  case (1 m)
  have "map (apsnd sort_keys) m = m"
  proof (rule map_idI)
    fix p
    assume "p \<in> set m"
    with 1 show "apsnd sort_keys p = p" by (cases p) (force simp: list_all_iff)
  qed
  moreover have "sort_key fst m = m"
    using 1 by (simp add: sorted_sort_id sort_key_id_if_sorted om_sorted_def strict_sorted_imp_sorted)
  ultimately show ?case
    using 1 by (simp add: sort_keys_object om_from_id del: sort_keys.simps)
next
  case (2 vs)
  then show ?case by (auto simp: list_all_iff intro: map_idI)
qed simp_all


lemma json_wf_normalize: "json_wf v \<Longrightarrow> json_wf (normalize_value p v)"
  by (simp add: normalize_value_def Let_def sort_keys_wf json_wf_strip_fields)

lemma normalize_value_strip:
  "json_wf v \<Longrightarrow> normalize_value p v =
     strip_fields (normalization_strip_fields p) (strip_fields [''stream''] v)"
  by (simp add: normalize_value_def Let_def sort_keys_wf json_wf_strip_fields)

definition stripped :: "provider \<Rightarrow> string set" where
  "stripped p = insert ''stream'' (set (normalization_strip_fields p))"

lemma strip_fields_compose:
  "strip_fields fs (strip_fields gs v) = strip_fields (gs @ fs) v"
proof (induction gs v rule: strip_fields.induct)
  case (1 gs m)
  have "apsnd (strip_fields fs) (apsnd (strip_fields gs) p) = apsnd (strip_fields (gs @ fs)) p"
    if "p \<in> set m" "fst p \<notin> set gs" for p
    using 1 that by (cases p) (force simp: remove_fields_filter)
  then show ?case
    by (auto simp: strip_fields_object filter_map comp_def conj_commute cong: conj_cong
          simp del: strip_fields.simps(1) intro!: map_cong filter_cong)
qed auto

lemma normalize_value_eq:
  "normalize_value p v = sort_keys (strip_fields (''stream'' # normalization_strip_fields p) v)"
  by (simp add: normalize_value_def Let_def strip_fields_compose)

lemma normalize_value_idem:
  "json_wf v \<Longrightarrow> normalize_value p (normalize_value p v) = normalize_value p v"
  by (simp add: normalize_value_eq sort_keys_wf json_wf_strip_fields strip_fields_idem)

text \<open>Normalization seen along a path of object keys: a path through a stripped key is gone,
  every other path leads to the normalized value it led to before.\<close>

lemma jget_normalize:
  "json_wf v \<Longrightarrow> jget (normalize_value p v) k =
     (if k \<in> stripped p then None else map_option (normalize_value p) (jget v k))"
proof -
  assume wf: "json_wf v"
  have *: "json_wf w" if "jget v k = Some w" for w
    using wf that json_wf_map_of by (cases v) auto
  show ?thesis
    using wf * by (cases "jget v k")
      (auto simp: normalize_value_eq sort_keys_wf json_wf_strip_fields jget_strip_fields stripped_def)
qed

lemma jwalk_normalize:
  "json_wf v \<Longrightarrow> jwalk (map Key ks) (normalize_value p v) =
     (if set ks \<inter> stripped p = {} then map_option (normalize_value p) (jwalk (map Key ks) v) else None)"
proof (induction ks arbitrary: v)
  case (Cons k ks)
  have *: "json_wf w" if "jget v k = Some w" for w
    using Cons.prems that json_wf_map_of by (cases v) auto
  then show ?case
    using Cons by (auto simp: jget_normalize split: option.splits)
qed simp

subsection \<open>The order of keys\<close>

text \<open>Two values are the same up to the order of the keys of their objects.\<close>

inductive json_eqv :: "json \<Rightarrow> json \<Rightarrow> bool" where
  same: "json_eqv v v"
| arrays: "list_all2 json_eqv vs ws \<Longrightarrow> json_eqv (JArray vs) (JArray ws)"
| objects: "list_all2 (rel_prod (=) json_eqv) m m' \<Longrightarrow> mset m' = mset m'' \<Longrightarrow>
     distinct (map fst m) \<Longrightarrow> json_eqv (JObject m) (JObject m'')"

lemma list_all2_fst: "list_all2 (rel_prod (=) R) m m' \<Longrightarrow> map fst m = map fst m'"
  by (induction rule: list_all2_induct) auto

lemma list_all2_filter_fst:
  "list_all2 (rel_prod (=) R) m m' \<Longrightarrow>
   list_all2 (rel_prod (=) R) (filter (\<lambda>p. P (fst p)) m) (filter (\<lambda>p. P (fst p)) m')"
  by (induction rule: list_all2_induct) auto

lemma list_all2_apsnd:
  "list_all2 (rel_prod (=) (\<lambda>x y. f x = f y)) m m' \<Longrightarrow> map (apsnd f) m = map (apsnd f) m'"
  by (induction rule: list_all2_induct) auto

lemma sort_keys_eqv: "json_eqv v w \<Longrightarrow> sort_keys v = sort_keys w"
proof (induction rule: json_eqv.induct)
  case (arrays vs ws)
  then have "list_all2 (\<lambda>x y. sort_keys x = sort_keys y) vs ws"
    by (rule list.rel_mono_strong) simp
  then have "map sort_keys vs = map sort_keys ws"
    by (induction rule: list_all2_induct) auto
  then show ?case by simp
next
  case (objects m m' m'')
  have "list_all2 (rel_prod (=) (\<lambda>x y. sort_keys x = sort_keys y)) m m'"
    using objects(1) by (rule list.rel_mono_strong) (auto elim: rel_prod.cases)
  then have "map (apsnd sort_keys) m = map (apsnd sort_keys) m'"
    by (rule list_all2_apsnd)
  then have perm: "mset (map (apsnd sort_keys) m) = mset (map (apsnd sort_keys) m'')"
    using objects(2) by (metis mset_map)
  have "distinct (map fst (map (apsnd sort_keys) m))"
    using objects(3) by (simp del: map_map)
  from om_from_sort_perm[OF perm this] show ?case
    by (simp only: sort_keys_object)
qed simp

lemma strip_fields_eqv: "json_eqv v w \<Longrightarrow> json_eqv (strip_fields fs v) (strip_fields fs w)"
proof (induction rule: json_eqv.induct)
  case (same v)
  show ?case by (rule json_eqv.same)
next
  case (arrays vs ws)
  then have "list_all2 json_eqv vs ws" by (rule list.rel_mono_strong) simp
  then show ?case by (simp add: json_eqv.arrays)
next
  case (objects m m' m'')
  let ?F = "filter (\<lambda>p. fst p \<notin> set fs)" and ?M = "map (apsnd (strip_fields fs))"
  have "list_all2 (rel_prod (=) (\<lambda>x y. json_eqv (strip_fields fs x) (strip_fields fs y))) m m'"
    using objects(1) by (rule list.rel_mono_strong) (auto elim: rel_prod.cases)
  then have "list_all2 (rel_prod (=) json_eqv) (?M (?F m)) (?M (?F m'))"
    by (induction rule: list_all2_induct) auto
  moreover have "mset (?M (?F m')) = mset (?M (?F m''))"
    by (simp only: mset_map mset_filter objects(2))
  moreover have "distinct (map fst (?M (?F m)))"
    using objects(3) by (simp add: distinct_map_filter del: map_map)
  ultimately show ?case
    unfolding strip_fields_object by (rule json_eqv.objects)
qed

lemma normalize_value_eqv: "json_eqv v w \<Longrightarrow> normalize_value p v = normalize_value p w"
  by (simp add: normalize_value_eq sort_keys_eqv strip_fields_eqv)

subsection \<open>The hashed text\<close>

lemma append_sep_inject:
  "c \<notin> set a \<Longrightarrow> c \<notin> set a' \<Longrightarrow> a @ c # b = a' @ c # b' \<longleftrightarrow> a = a' \<and> b = b'"
proof (induction a arbitrary: a')
  case Nil
  then show ?case by (cases a') auto
next
  case (Cons x a)
  then show ?case by (cases a') auto
qed

lemma key_input_inject:
  assumes "CHR ''|'' \<notin> set m" "CHR ''|'' \<notin> set m'" "CHR ''|'' \<notin> set q" "CHR ''|'' \<notin> set q'"
  shows "key_input m q n = key_input m' q' n' \<longleftrightarrow> m = m' \<and> q = q' \<and> n = n'"
  using assms by (simp add: key_input_def append_sep_inject)

lemma cache_key_and_model_eq:
  "cache_key_and_model H S p m q b = (cache_key H S p m q b, body_model S b)"
  by (simp add: cache_key_and_model_def cache_key_def Let_def)

subsection \<open>Properties\<close>

text \<open>C37: Normalization, completely: along any path of object keys of a parsed body, a path that
  crosses \<open>stream\<close> or a field of the provider's strip list leads nowhere, and every other path
  leads to the normalized value it led to before. So exactly the listed fields are dropped, at every
  depth that is reached through objects, and \<open>model\<close>, \<open>temperature\<close>, \<open>seed\<close> and all
  others stay.\<close>

theorem normalization_drops_exactly_the_strip_fields:
  assumes "json_wf v"
  shows "jwalk (map Key ks) (normalize_value p v) =
     (if set ks \<inter> insert ''stream'' (set (normalization_strip_fields p)) = {}
      then map_option (normalize_value p) (jwalk (map Key ks) v) else None)"
  using assms jwalk_normalize[of v ks p] by (simp add: stripped_def)

theorem normalization_drops_exactly_the_strip_fields_witness:
  "jwalk (map Key [''a'', ''user'']) (normalize_value OpenAi
      (JObject [(''a'', JObject [(''user'', JNull), (''x'', JBool True)])])) = None
   \<and> jwalk (map Key [''a'', ''x'']) (normalize_value OpenAi
      (JObject [(''a'', JObject [(''user'', JNull), (''x'', JBool True)])])) = Some (JBool True)"
proof -
  let ?v = "JObject [(''a'', JObject [(''user'', JNull), (''x'', JBool True)])]"
  have wf: "json_wf ?v" by (simp add: om_sorted_def)
  show ?thesis
    using normalization_drops_exactly_the_strip_fields[OF wf, of "[''a'', ''user'']" OpenAi]
      normalization_drops_exactly_the_strip_fields[OF wf, of "[''a'', ''x'']" OpenAi]
    by (simp add: normalize_value_eq)
qed

text \<open>C35: Two request bodies whose JSON values agree after the stripped fields are removed, up to
  the order of the keys of all objects, get the same cache key, provided the normalized value prints (a
  body whose value failed to print would be hashed as it stands).\<close>

theorem equivalent_bodies_share_a_key:
  assumes "parse_json S b = Some v" and "parse_json S b' = Some v'"
    and "json_eqv (strip_fields (''stream'' # normalization_strip_fields p) v)
           (strip_fields (''stream'' # normalization_strip_fields p) v')"
    and "print_json S (normalize_value p v) \<noteq> None"
  shows "cache_key H S p m q b = cache_key H S p m q b'"
  using assms(1,2,4) sort_keys_eqv[OF assms(3)]
  by (auto simp: cache_key_def normalize_body_def normalize_value_eq simp del: strip_fields.simps)

theorem equivalent_bodies_share_a_key_witness:
  "let v = JObject [(''model'', JString ''m''), (''seed'', JBool True)];
       v' = JObject [(''seed'', JBool True), (''model'', JString ''m''), (''stream'', JBool True)];
       S = \<lparr>parse_json = (\<lambda>b. if b = ''1'' then Some v else if b = ''2'' then Some v' else None),
            print_json = (\<lambda>v. Some ''p'')\<rparr>
   in cache_key id S Gemini ''POST'' ''/x'' ''1'' = cache_key id S Gemini ''POST'' ''/x'' ''2''"
proof -
  let ?v = "JObject [(''model'', JString ''m''), (''seed'', JBool True)]"
  let ?v' = "JObject [(''seed'', JBool True), (''model'', JString ''m''), (''stream'', JBool True)]"
  let ?S = "\<lparr>parse_json = (\<lambda>b. if b = ''1'' then Some ?v else if b = ''2'' then Some ?v' else None),
            print_json = (\<lambda>v. Some ''p'')\<rparr> :: serde"
  have eqv: "json_eqv (JObject [(''model'', JString ''m''), (''seed'', JBool True)])
      (JObject [(''seed'', JBool True), (''model'', JString ''m'')])"
    by (rule json_eqv.objects[of _ "[(''model'', JString ''m''), (''seed'', JBool True)]"])
       (auto intro: json_eqv.same)
  have "cache_key id ?S Gemini ''POST'' ''/x'' ''1'' = cache_key id ?S Gemini ''POST'' ''/x'' ''2''"
    by (rule equivalent_bodies_share_a_key[of ?S _ ?v _ ?v'])
       (simp_all add: eqv strip_fields_object del: strip_fields.simps(1))
  then show ?thesis by simp
qed

text \<open>C36: The key separates requests: when the digest does not collide on the two hashed texts and
  neither method nor path holds a bar, equal keys come from equal methods, equal paths and equal
  normalized bodies.\<close>

theorem cache_key_separates:
  assumes "cache_key H S p m q b = cache_key H S p' m' q' b'"
    and "H (key_input m q (normalize_body S p b)) = H (key_input m' q' (normalize_body S p' b')) \<Longrightarrow>
         key_input m q (normalize_body S p b) = key_input m' q' (normalize_body S p' b')"
    and "CHR ''|'' \<notin> set (m @ q)" and "CHR ''|'' \<notin> set (m' @ q')"
  shows "m = m' \<and> q = q' \<and> normalize_body S p b = normalize_body S p' b'"
  using assms by (auto simp: cache_key_def Let_def key_input_inject)

theorem cache_key_separates_witness:
  "let S = \<lparr>parse_json = (\<lambda>b. None), print_json = (\<lambda>v. None)\<rparr> in
   cache_key id S Gemini ''GET'' ''/a'' ''b'' \<noteq> cache_key id S Gemini ''GET'' ''/ab'' []"
proof -
  let ?S = "\<lparr>parse_json = (\<lambda>b. None), print_json = (\<lambda>v. None)\<rparr> :: serde"
  have "cache_key id ?S Gemini ''GET'' ''/a'' ''b'' \<noteq> cache_key id ?S Gemini ''GET'' ''/ab'' []"
  proof
    assume "cache_key id ?S Gemini ''GET'' ''/a'' ''b'' = cache_key id ?S Gemini ''GET'' ''/ab'' []"
    from cache_key_separates[OF this] show False by simp
  qed
  then show ?thesis by (simp add: Let_def)
qed

text \<open>Normalization yields a normal form: a body that is the printed form of a normalized
  value is hashed as it stands.\<close>

theorem normalize_body_fixpoint:
  assumes "parse_json S b = Some v" and "json_wf v"
    and "print_json S (normalize_value p v) = Some t"
    and "parse_json S t = Some (normalize_value p v)"
  shows "normalize_body S p b = t \<and> normalize_body S p t = t"
  using assms by (simp add: normalize_body_def normalize_value_idem)

theorem normalize_body_fixpoint_witness:
  "let v = JObject [(''stream'', JNull), (''x'', JNull)]; w = JObject [(''x'', JNull)];
       S = \<lparr>parse_json = (\<lambda>b. if b = ''1'' then Some v else if b = ''2'' then Some w else None),
            print_json = (\<lambda>u. if u = w then Some ''2'' else None)\<rparr>
   in normalize_body S Gemini ''1'' = ''2'' \<and> normalize_body S Gemini ''2'' = ''2''"
proof -
  let ?v = "JObject [(''stream'', JNull), (''x'', JNull)]" and ?w = "JObject [(''x'', JNull)]"
  let ?S = "\<lparr>parse_json = (\<lambda>b. if b = ''1'' then Some ?v else if b = ''2'' then Some ?w else None),
            print_json = (\<lambda>u. if u = ?w then Some ''2'' else None)\<rparr> :: serde"
  have n: "normalize_value Gemini ?v = ?w"
    by (simp add: normalize_value_eq strip_fields_object om_from_def del: strip_fields.simps(1))
  have "normalize_body ?S Gemini ''1'' = ''2'' \<and> normalize_body ?S Gemini ''2'' = ''2''"
    by (rule normalize_body_fixpoint[of ?S "''1''" ?v Gemini "''2''"]) (simp_all add: n om_sorted_def)
  then show ?thesis by simp
qed

text \<open>The single-parse variant computes the same key as \<open>cache_key\<close>, and its model is the
  string under \<open>model\<close> at the top of the body, if there is one.\<close>

theorem cache_key_and_model_agrees:
  shows "fst (cache_key_and_model H S p m q b) = cache_key H S p m q b
    \<and> (snd (cache_key_and_model H S p m q b) = Some name \<longleftrightarrow>
        (\<exists>v. parse_json S b = Some v \<and> jget v ''model'' = Some (JString name)))"
proof -
  have "as_str w = Some name \<longleftrightarrow> w = JString name" for w by (cases w) auto
  then show ?thesis
    by (auto simp: cache_key_and_model_eq body_model_def split: option.splits)
qed

text \<open>A body that is not JSON is hashed as its text when it is well-formed UTF-8. Otherwise it is
  hashed as its lossy decoding, and different bodies can share a key.\<close>

lemma normalize_body_raw:
  "parse_json S b = None \<Longrightarrow> valid_utf8 b \<Longrightarrow> normalize_body S p b = b"
  by (simp add: normalize_body_def from_utf8_lossy_valid)

lemma lossy_bodies_collide:
  assumes "parse_json S [CHR 0xFF] = None" and "parse_json S [CHR 0xFE] = None"
  shows "cache_key H S p m q [CHR 0xFF] = cache_key H S p m q [CHR 0xFE]"
proof -
  have "from_utf8_lossy [c] = replacement" if "utf8_width c = 0" for c
    using that by (simp add: from_utf8_lossy.simps[of "[c]"] from_utf8_lossy.simps[of "[]"])
  then show ?thesis
    using assms by (simp add: cache_key_def normalize_body_def utf8_width_def)
qed

text \<open>A field of the strip list that sits in an object inside an array is kept: the recursion of
  \<open>strip_fields\<close> follows objects only.\<close>

lemma stripped_field_inside_array_is_kept:
  "normalize_value Anthropic
     (JObject [(''messages'', JArray [JObject [(''metadata'', JNull)]])]) =
   JObject [(''messages'', JArray [JObject [(''metadata'', JNull)]])]"
  by (simp add: normalize_value_eq strip_fields_object om_from_def del: strip_fields.simps(1))

end
