(* ===== verification/Proxy.thy ===== *)
theory Proxy
  imports Server CacheKey
begin

text \<open>
  The proxy handler, \<open>crates/lcp-server/src/proxy.rs\<close>: \<open>handle\<close> with every early return,
  \<open>serve_cached\<close>, and the background task that relays the upstream's response to the client and
  writes the exchange into the cache.

  Parameters (record \<open>proxy_lib\<close>): \<open>HeaderValue::to_str\<close>, which header values and status
  codes the response builder accepts, the upstream (\<open>reqwest\<close>), BLAKE3, JSON, the clock and the
  serializer of the cache, which capacities \<open>mpsc::channel\<close> accepts (it panics for 0 and for those
  that are too large), and whether the build checks debug assertions. Time between the start of
  the task and the \<open>n\<close>-th chunk is \<open>elapsed_ms n\<close>; \<open>gone n\<close> says whether the client has
  disconnected when the \<open>n\<close>-th item is sent to it. Headers are a list of lower-case names and
  values in the order of the \<open>HeaderMap\<close>; the headers that axum and reqwest add on their own are
  not in the model. Panics of the handler (a cache key shorter than 12 bytes, a channel capacity that
  is not accepted, the debug assertion of the third phase) are \<open>None\<close>.
\<close>

type_synonym headers = "(string \<times> bytes) list"

record http_request =
  rq_method :: string
  rq_provider :: string
  rq_path :: string
  rq_query :: "string option"
  rq_headers :: headers
  rq_body :: bytes

record upstream_request =
  ur_method :: string
  ur_url :: string
  ur_headers :: "(string \<times> string) list"
  ur_body :: bytes

record upstream_response =
  up_status :: u16
  up_headers :: headers
  up_stream :: response_stream

record proxy_lib =
  header_str :: "bytes \<Rightarrow> string option"
  header_ok :: "string \<Rightarrow> bool"
  status_ok :: "u16 \<Rightarrow> bool"
  send_upstream :: "upstream_request \<Rightarrow> string + upstream_response"
  blake3_hex :: "bytes \<Rightarrow> string"
  json :: serde
  cache_params :: cache_lib
  elapsed_ms :: "nat \<Rightarrow> int"
  channel_ok :: "nat \<Rightarrow> bool"
  debug_assertions :: bool

datatype resp_body =
    Whole bytes
  | Replay "bytes list"
  | FromTask

record response =
  rs_status :: u16
  rs_headers :: "(string \<times> string) list"
  rs_body :: resp_body

subsection \<open>Requests\<close>

definition header_value :: "proxy_lib \<Rightarrow> headers \<Rightarrow> string \<Rightarrow> string option" where
  "header_value P hs name = (case map_of hs name of None \<Rightarrow> None | Some v \<Rightarrow> header_str P v)"

definition is_bypass :: "proxy_lib \<Rightarrow> http_request \<Rightarrow> bool" where
  "is_bypass P rq \<longleftrightarrow> header_value P (rq_headers rq) ''x-lcp-bypass'' = Some ''1''"

definition trace_id_of :: "proxy_lib \<Rightarrow> http_request \<Rightarrow> string option" where
  "trace_id_of P rq = header_value P (rq_headers rq) ''x-lcp-trace''"

definition full_path_of :: "http_request \<Rightarrow> string" where
  "full_path_of rq = ''/'' @ rq_provider rq @ ''/'' @ rq_path rq"

definition dropped_headers :: "string list" where
  "dropped_headers = [''host'', ''connection'', ''transfer-encoding'', ''accept-encoding'', ''content-encoding'',
     ''content-length'']"

fun forward_headers :: "proxy_lib \<Rightarrow> headers \<Rightarrow> (string \<times> string) list" where
  "forward_headers P [] = []"
| "forward_headers P ((n, value) # hs) =
     (if starts_with n ''x-lcp-'' \<or> n \<in> set dropped_headers then forward_headers P hs
      else case header_str P value of
        Some v \<Rightarrow> (n, v) # forward_headers P hs
      | None \<Rightarrow> forward_headers P hs)"

definition upstream_url :: "server_config \<Rightarrow> provider \<Rightarrow> http_request \<Rightarrow> string" where
  "upstream_url cfg p rq =
     (let url = trim_end_char (CHR ''/'') (upstream_for cfg p) @ ''/'' @ rq_path rq
      in case rq_query rq of Some query \<Rightarrow> url @ ''?'' @ query | None \<Rightarrow> url)"

subsection \<open>Responses\<close>

definition plain_reply :: "u16 \<Rightarrow> string \<Rightarrow> response" where
  "plain_reply st body = \<lparr>rs_status = st, rs_headers = [], rs_body = Whole body\<rparr>"

text \<open>\<open>&key[..12]\<close>.\<close>

definition key_prefix :: "string \<Rightarrow> string option" where
  "key_prefix key = (if 12 \<le> length key \<and> is_char_boundary key 12 then Some (take 12 key) else None)"

text \<open>\<open>Response::builder()\<close> up to \<open>unwrap_or_else\<close>.\<close>

definition build_response :: "proxy_lib \<Rightarrow> u16 \<Rightarrow> (string \<times> string) list \<Rightarrow> resp_body \<Rightarrow> response" where
  "build_response P st hs body =
     (if status_ok P st \<and> list_all (header_ok P \<circ> snd) hs
      then \<lparr>rs_status = st, rs_headers = hs, rs_body = body\<rparr>
      else \<lparr>rs_status = 500, rs_headers = [], rs_body = Whole []\<rparr>)"

definition serve_cached :: "proxy_lib \<Rightarrow> exchange \<Rightarrow> string \<Rightarrow> response option" where
  "serve_cached P e key =
     (case key_prefix key of
        None \<Rightarrow> None
      | Some k12 \<Rightarrow> Some (build_response P (status e)
          [(''content-type'', content_type e), (''x-lcp-cache'', ''HIT''), (''x-lcp-key'', k12)]
          (Replay (map data (chunks e)))))"

definition relayed_response ::
  "proxy_lib \<Rightarrow> bool \<Rightarrow> string \<Rightarrow> u16 \<Rightarrow> string \<Rightarrow> bool \<Rightarrow> response option" where
  "relayed_response P bypass key st ctype is_sse =
     (let hs = [(''content-type'', ctype), (''x-lcp-cache'', if bypass then ''BYPASS'' else ''MISS'')];
          sse = (if is_sse then [(''cache-control'', ''no-cache''), (''transfer-encoding'', ''chunked'')] else [])
      in if bypass then Some (build_response P st (hs @ sse) FromTask)
         else (case key_prefix key of
           None \<Rightarrow> None
         | Some k12 \<Rightarrow> Some (build_response P st (hs @ [(''x-lcp-key'', k12)] @ sse) FromTask)))"

subsection \<open>The background task\<close>

text \<open>What the spawned future captures.\<close>

record relay_task =
  t_stream :: response_stream
  t_do_cache :: bool
  t_key :: string
  t_trace :: "string option"
  t_provider :: string
  t_model :: "string option"
  t_method :: string
  t_path :: string
  t_body :: bytes
  t_status :: u16
  t_content_type :: string

datatype loop_end = Completed | Broken | Crashed

record relay =
  rl_sent :: "(string + bytes) list"
  rl_raw :: "(u64 \<times> bytes) list"
  rl_end :: loop_end

text \<open>The loop over the stream. The buffer \<open>response_buf\<close> is the concatenation of the raw
  chunks.\<close>

fun relay_loop ::
  "proxy_lib \<Rightarrow> (nat \<Rightarrow> bool) \<Rightarrow> bool \<Rightarrow> nat \<Rightarrow> response_stream \<Rightarrow> (u64 \<times> bytes) list \<Rightarrow> relay" where
  "relay_loop P gone do_cache n [] raw = \<lparr>rl_sent = [], rl_raw = raw, rl_end = Completed\<rparr>"
| "relay_loop P gone do_cache n (Pend # evs) raw = relay_loop P gone do_cache n evs raw"
| "relay_loop P gone do_cache n (Chunk bytes # evs) raw =
     (let raw' = (if do_cache then raw @ [(word_of_int (elapsed_ms P n), bytes)] else raw)
      in if gone n then \<lparr>rl_sent = [], rl_raw = raw', rl_end = Broken\<rparr>
         else (let r = relay_loop P gone do_cache (Suc n) evs raw' in r\<lparr>rl_sent := Inr bytes # rl_sent r\<rparr>))"
| "relay_loop P gone do_cache n (Fail e # evs) raw =
     \<lparr>rl_sent = (if gone n then [] else [Inl e]), rl_raw = raw, rl_end = Broken\<rparr>"
| "relay_loop P gone do_cache n (Abort # evs) raw = \<lparr>rl_sent = [], rl_raw = raw, rl_end = Crashed\<rparr>"

definition response_buf :: "relay \<Rightarrow> bytes" where
  "response_buf r = concat (map snd (rl_raw r))"

text \<open>The chunks as text, a cut character carried over to the next chunk.\<close>

fun carry_chunks :: "bytes \<Rightarrow> (u64 \<times> bytes) list \<Rightarrow> response_chunk list" where
  "carry_chunks carry [] = []"
| "carry_chunks carry ((off, raw) # rest) =
     (let buf = carry @ raw
      in case from_utf8 buf of
           Inr s \<Rightarrow> \<lparr>offset_ms = off, data = s\<rparr> # carry_chunks [] rest
         | Inl v \<Rightarrow>
             \<lparr>offset_ms = off, data = take v buf\<rparr> # carry_chunks (drop v buf) rest)"

definition exchange_of :: "relay_task \<Rightarrow> relay \<Rightarrow> exchange" where
  "exchange_of t r =
     \<lparr>request = \<lparr>req_method = t_method t, req_path = t_path t, req_body = from_utf8_lossy (t_body t)\<rparr>,
      status = t_status t, content_type = t_content_type t, chunks = carry_chunks [] (rl_raw r)\<rparr>"

definition store_exchange ::
  "proxy_lib \<Rightarrow> (nat \<Rightarrow> bool) \<Rightarrow> (nat \<Rightarrow> bool) \<Rightarrow> cache \<Rightarrow> relay_task \<Rightarrow> exchange \<Rightarrow> cache" where
  "store_exchange P put_fault trace_fault c t e =
     (case cache_put (cache_params P) put_fault c (t_key t) (t_provider t) (t_model t) e of
        (Inl _, c') \<Rightarrow> c'
      | (Inr _, c') \<Rightarrow>
          (case t_trace t of
             None \<Rightarrow> c'
           | Some tid \<Rightarrow> snd (record_trace trace_fault c' tid (t_key t))))"

definition may_store :: "relay_task \<Rightarrow> relay \<Rightarrow> bool" where
  "may_store t r \<longleftrightarrow> rl_end r = Completed \<and> t_do_cache t \<and> valid_utf8 (response_buf r) \<and> valid_utf8 (t_body t)"

definition run_task ::
  "proxy_lib \<Rightarrow> (nat \<Rightarrow> bool) \<Rightarrow> (nat \<Rightarrow> bool) \<Rightarrow> (nat \<Rightarrow> bool) \<Rightarrow> cache \<Rightarrow> relay_task \<Rightarrow> relay \<times> cache" where
  "run_task P gone put_fault trace_fault c t =
     (let r = relay_loop P gone (t_do_cache t) 0 (t_stream t) []
      in (r, if may_store t r then store_exchange P put_fault trace_fault c t (exchange_of t r) else c))"

subsection \<open>The handler\<close>

record handled =
  h_reply :: "response option"
  h_cache :: cache
  h_wire :: "upstream_request option"
  h_task :: "relay_task option"

definition answered :: "response option \<Rightarrow> cache \<Rightarrow> handled" where
  "answered reply c = \<lparr>h_reply = reply, h_cache = c, h_wire = None, h_task = None\<rparr>"

text \<open>The cache read of a request that is not a bypass, with the trace entry of a hit. A failing
  lookup falls through to the upstream; a failing trace entry is only logged.\<close>

definition look_up ::
  "proxy_lib \<Rightarrow> (nat \<Rightarrow> bool) \<Rightarrow> (nat \<Rightarrow> bool) \<Rightarrow> cache \<Rightarrow> string option \<Rightarrow> string \<Rightarrow> exchange option \<times> cache" where
  "look_up P get_fault trace_fault c trace_id key =
     (case cache_get (cache_params P) get_fault c key of
        (Inr (Some e), c') \<Rightarrow>
          (Some e, case trace_id of None \<Rightarrow> c' | Some tid \<Rightarrow> snd (record_trace trace_fault c' tid key))
      | (Inr None, c') \<Rightarrow> (None, c')
      | (Inl _, c') \<Rightarrow> (None, c'))"

definition phase2_of ::
  "server_config \<Rightarrow> bool \<Rightarrow> proxy_ctx \<Rightarrow> bytes \<Rightarrow> string + bytes \<times> sensitive_state list" where
  "phase2_of cfg bypass ctx body = (if bypass then Inr (body, []) else run_phase2 (extensions cfg) ctx body)"

definition phase3_of ::
  "proxy_lib \<Rightarrow> server_config \<Rightarrow> bool \<Rightarrow> proxy_ctx \<Rightarrow> sensitive_state list \<Rightarrow> response_stream
   \<Rightarrow> response_stream option" where
  "phase3_of P cfg bypass ctx states stream =
     (if bypass then Some stream else run_phase3 (debug_assertions P) (extensions cfg) ctx states stream)"

definition is_success :: "u16 \<Rightarrow> bool" where
  "is_success st \<longleftrightarrow> 200 \<le> st \<and> st < 300"

definition content_type_of :: "proxy_lib \<Rightarrow> upstream_response \<Rightarrow> string" where
  "content_type_of P up =
     (case header_value P (up_headers up) ''content-type'' of Some v \<Rightarrow> v | None \<Rightarrow> ''application/octet-stream'')"

definition is_sse_type :: "string \<Rightarrow> bool" where
  "is_sse_type ctype \<longleftrightarrow> find_sub ''text/event-stream'' ctype \<noteq> None"

definition relay_response ::
  "proxy_lib \<Rightarrow> server_config \<Rightarrow> provider \<Rightarrow> bool \<Rightarrow> http_request \<Rightarrow> proxy_ctx \<Rightarrow> string \<Rightarrow> string option \<Rightarrow> bytes
   \<Rightarrow> sensitive_state list \<Rightarrow> upstream_request \<Rightarrow> upstream_response \<Rightarrow> cache \<Rightarrow> handled" where
  "relay_response P cfg p bypass rq ctx key model_from_body body states wire up c =
     (case (if channel_ok P (stream_channel_capacity cfg)
            then phase3_of P cfg bypass ctx states (up_stream up) else None) of
        None \<Rightarrow> \<lparr>h_reply = None, h_cache = c, h_wire = Some wire, h_task = None\<rparr>
      | Some stream \<Rightarrow>
          (let ctype = content_type_of P up;
               task = \<lparr>t_stream = stream, t_do_cache = \<not> bypass \<and> is_success (up_status up), t_key = key,
                 t_trace = trace_id_of P rq, t_provider = path_prefix p,
                 t_model = (case extract_model_from_path p (rq_path rq) of Some m \<Rightarrow> Some m | None \<Rightarrow> model_from_body),
                 t_method = rq_method rq, t_path = full_path_of rq, t_body = body,
                 t_status = up_status up, t_content_type = ctype\<rparr>
           in \<lparr>h_reply = relayed_response P bypass key (up_status up) ctype (is_sse_type ctype),
               h_cache = c, h_wire = Some wire, h_task = Some task\<rparr>))"

definition forward_request ::
  "proxy_lib \<Rightarrow> server_config \<Rightarrow> provider \<Rightarrow> bool \<Rightarrow> http_request \<Rightarrow> proxy_ctx \<Rightarrow> string \<Rightarrow> string option \<Rightarrow> bytes
   \<Rightarrow> cache \<Rightarrow> handled" where
  "forward_request P cfg p bypass rq ctx key model_from_body body c =
     (case phase2_of cfg bypass ctx body of
        Inl e \<Rightarrow> answered (Some (plain_reply 500 ''extension error'')) c
      | Inr (wire_body, states) \<Rightarrow>
          (let wire = \<lparr>ur_method = rq_method rq, ur_url = upstream_url cfg p rq,
                 ur_headers = forward_headers P (rq_headers rq), ur_body = wire_body\<rparr>
           in case send_upstream P wire of
                Inl e \<Rightarrow> (answered (Some (plain_reply 502 e)) c)\<lparr>h_wire := Some wire\<rparr>
              | Inr up \<Rightarrow> relay_response P cfg p bypass rq ctx key model_from_body body states wire up c))"

definition handle ::
  "proxy_lib \<Rightarrow> server_config \<Rightarrow> (nat \<Rightarrow> bool) \<Rightarrow> (nat \<Rightarrow> bool) \<Rightarrow> cache \<Rightarrow> http_request \<Rightarrow> handled" where
  "handle P cfg get_fault trace_fault c rq =
     (case from_prefix (rq_provider rq) of
        None \<Rightarrow> answered (Some (plain_reply 404 (''unknown provider: '' @ rq_provider rq))) c
      | Some p \<Rightarrow>
          (let bypass = is_bypass P rq;
               ctx = \<lparr>px_provider = p, px_method = rq_method rq, px_path = rq_path rq, px_cache_key = None\<rparr>
           in case run_phase1 (extensions cfg) ctx (rq_body rq) of
                Inl e \<Rightarrow> answered (Some (plain_reply 500 ''extension error'')) c
              | Inr body \<Rightarrow>
                  (let (key, model_from_body) =
                         cache_key_and_model (blake3_hex P) (json P) p (rq_method rq) (full_path_of rq) body;
                       ctx = ctx\<lparr>px_cache_key := Some key\<rparr>
                   in if bypass then forward_request P cfg p bypass rq ctx key model_from_body body c
                      else (case look_up P get_fault trace_fault c (trace_id_of P rq) key of
                        (Some e, c') \<Rightarrow> answered (serve_cached P e key) c'
                      | (None, c') \<Rightarrow> forward_request P cfg p bypass rq ctx key model_from_body body c'))))"

subsection \<open>The relay\<close>

lemma relay_completed:
  "rl_end (relay_loop P gone dc n evs raw) = Completed \<Longrightarrow>
     \<not> list_ex is_fail evs
     \<and> rl_sent (relay_loop P gone dc n evs raw) = map Inr (chunks_of evs)
     \<and> (dc \<longrightarrow> map snd (rl_raw (relay_loop P gone dc n evs raw)) = map snd raw @ chunks_of evs)"
proof (induction evs arbitrary: n raw)
  case (Cons ev evs)
  show ?case
  proof (cases ev)
    case (Chunk b)
    with Cons show ?thesis by (auto simp: Let_def split: if_splits)
  qed (use Cons in auto)
qed simp

lemma relay_end_of_complete:
  assumes "\<not> list_ex is_fail evs" and "\<And>i. \<not> gone i"
  shows "rl_end (relay_loop P gone dc n evs raw) = Completed"
  using assms(1)
proof (induction evs arbitrary: n raw)
  case (Cons ev evs)
  then show ?case by (cases ev) (auto simp: Let_def assms(2))
qed simp

text \<open>In any case the client receives a prefix of the chunks, and after it at most one error.\<close>

lemma relay_sent_prefix:
  "\<exists>k es. rl_sent (relay_loop P gone dc n evs raw) = map Inr (take k (chunks_of evs)) @ map Inl es \<and> length es \<le> 1"
proof (induction evs arbitrary: n raw)
  case (Cons ev evs)
  show ?case
  proof (cases ev)
    case Pend
    with Cons show ?thesis by simp
  next
    case (Chunk b)
    show ?thesis
    proof (cases "gone n")
      case True
      with Chunk show ?thesis by (intro exI[of _ 0] exI[of _ "[]"]) (simp add: Let_def)
    next
      case False
      obtain k es where "rl_sent (relay_loop P gone dc (Suc n) evs
            (if dc then raw @ [(word_of_int (elapsed_ms P n), b)] else raw))
          = map Inr (take k (chunks_of evs)) @ map Inl es" "length es \<le> 1"
        using Cons.IH by blast
      with Chunk False show ?thesis by (intro exI[of _ "Suc k"] exI[of _ es]) (simp add: Let_def)
    qed
  next
    case (Fail e)
    then show ?thesis by (intro exI[of _ 0] exI[of _ "if gone n then [] else [e]"]) simp
  next
    case Abort
    then show ?thesis by (intro exI[of _ 0] exI[of _ "[]"]) simp
  qed
qed simp

subsection \<open>The carry\<close>

text \<open>Chunks cut inside a character: the texts of the stored chunks are well-formed, keep the number
  and the times of the raw chunks, and together are the bytes of the response.\<close>

lemma carry_chunks_text:
  assumes "valid_utf8 (carry @ concat (map snd raws))" and "carry = [] \<or> \<not> valid_utf8 carry"
  shows "concat (map data (carry_chunks carry raws)) = carry @ concat (map snd raws)
    \<and> list_all (\<lambda>ch. valid_utf8 (data ch)) (carry_chunks carry raws)
    \<and> map offset_ms (carry_chunks carry raws) = map fst raws"
  using assms
proof (induction raws arbitrary: carry)
  case (Cons r raws)
  obtain off raw where r: "r = (off, raw)" by (cases r)
  let ?buf = "carry @ raw"
  have v: "valid_utf8 (?buf @ concat (map snd raws))" using Cons.prems(1) by (simp add: r)
  show ?case
  proof (cases "valid_utf8 ?buf")
    case True
    then have "valid_utf8 ([] @ concat (map snd raws))" using v valid_utf8_append[OF True] by simp
    from Cons.IH[OF this] True show ?thesis by (simp add: r from_utf8_def)
  next
    case False
    obtain a d where ad: "a = take (valid_up_to ?buf) ?buf" "d = drop (valid_up_to ?buf) ?buf" by blast
    then have buf: "carry @ raw @ xs = a @ d @ xs" for xs by (metis append.assoc append_take_drop_id)
    have va: "valid_utf8 a" unfolding ad by (rule valid_utf8_take_valid_up_to)
    then have d: "\<not> valid_utf8 d" using False valid_utf8_append[OF va, of d] buf[of "[]"] by simp
    have "valid_utf8 (d @ concat (map snd raws))" unfolding ad by (rule valid_utf8_drop_valid_up_to[OF v])
    from Cons.IH[OF this] d have IH: "concat (map data (carry_chunks d raws)) = d @ concat (map snd raws)"
      "list_all (\<lambda>ch. valid_utf8 (data ch)) (carry_chunks d raws)" "map offset_ms (carry_chunks d raws) = map fst raws"
      by simp_all
    have "carry_chunks carry (r # raws) = \<lparr>offset_ms = off, data = a\<rparr> # carry_chunks d raws"
      using False ad by (simp only: r carry_chunks.simps from_utf8_def Let_def sum.case if_False)
    with IH va buf[of "concat (map snd raws)"] show ?thesis by (simp add: r)
  qed
qed simp

lemma exchange_of_text:
  assumes "valid_utf8 (response_buf r)"
  shows "chunks_text (chunks (exchange_of t r)) = response_buf r"
    and "list_all (\<lambda>ch. valid_utf8 (data ch)) (chunks (exchange_of t r))"
  using carry_chunks_text[of "[]" "rl_raw r"] assms
  by (simp_all add: exchange_of_def chunks_text_def response_buf_def)

text \<open>What a task that may store saw: a response without a failure, sent in full.\<close>

lemma may_store_relay:
  assumes "r = relay_loop P gone (t_do_cache t) 0 (t_stream t) []" and "may_store t r"
  shows "\<not> list_ex is_fail (t_stream t)" "rl_sent r = map Inr (chunks_of (t_stream t))"
    "response_buf r = concat (chunks_of (t_stream t))"
  using assms relay_completed[of P gone "t_do_cache t" 0 "t_stream t" "[]"]
  by (auto simp: may_store_def response_buf_def)

subsection \<open>The handler, path by path\<close>

definition first_ctx :: "provider \<Rightarrow> http_request \<Rightarrow> proxy_ctx" where
  "first_ctx p rq = \<lparr>px_provider = p, px_method = rq_method rq, px_path = rq_path rq, px_cache_key = None\<rparr>"

definition key_of :: "proxy_lib \<Rightarrow> provider \<Rightarrow> http_request \<Rightarrow> bytes \<Rightarrow> string" where
  "key_of P p rq body = cache_key (blake3_hex P) (json P) p (rq_method rq) (full_path_of rq) body"

text \<open>The key of a request, when it gets as far as having one.\<close>

definition request_key :: "proxy_lib \<Rightarrow> server_config \<Rightarrow> http_request \<Rightarrow> string option" where
  "request_key P cfg rq =
     (case from_prefix (rq_provider rq) of
        None \<Rightarrow> None
      | Some p \<Rightarrow> (case run_phase1 (extensions cfg) (first_ctx p rq) (rq_body rq) of
          Inl e \<Rightarrow> None | Inr body \<Rightarrow> Some (key_of P p rq body)))"

lemma key_and_model_split:
  "cache_key_and_model h S p m path body = (cache_key h S p m path body, body_model S body)"
  by (simp add: cache_key_and_model_def cache_key_def Let_def)

lemma handle_eq:
  "handle P cfg gf tf c rq =
     (case from_prefix (rq_provider rq) of
        None \<Rightarrow> answered (Some (plain_reply 404 (''unknown provider: '' @ rq_provider rq))) c
      | Some p \<Rightarrow>
          (case run_phase1 (extensions cfg) (first_ctx p rq) (rq_body rq) of
             Inl e \<Rightarrow> answered (Some (plain_reply 500 ''extension error'')) c
           | Inr body \<Rightarrow>
               (let key = key_of P p rq body; ctx = (first_ctx p rq)\<lparr>px_cache_key := Some key\<rparr>
                in if is_bypass P rq then forward_request P cfg p True rq ctx key (body_model (json P) body) body c
                   else (case look_up P gf tf c (trace_id_of P rq) key of
                     (Some e, c') \<Rightarrow> answered (serve_cached P e key) c'
                   | (None, c') \<Rightarrow> forward_request P cfg p False rq ctx key (body_model (json P) body) body c'))))"
  by (cases "is_bypass P rq")
     (simp_all add: handle_def first_ctx_def key_of_def key_and_model_split Let_def split: option.split sum.split)

lemma answered_sel [simp]:
  "h_reply (answered rep c) = rep" "h_cache (answered rep c) = c" "h_wire (answered rep c) = None"
  "h_task (answered rep c) = None"
  by (simp_all add: answered_def)

lemma request_key_Some_iff:
  "request_key P cfg rq = Some k \<longleftrightarrow> (\<exists>p body. from_prefix (rq_provider rq) = Some p
     \<and> run_phase1 (extensions cfg) (first_ctx p rq) (rq_body rq) = Inr body \<and> k = key_of P p rq body)"
  by (auto simp: request_key_def split: option.split sum.split)

text \<open>The query string is sent upstream, but is not part of the key: requests that differ in nothing
  else share one entry.\<close>

lemma query_is_not_in_the_key:
  "request_key P cfg (rq\<lparr>rq_query := q\<rparr>) = request_key P cfg rq"
  "upstream_url cfg p (rq\<lparr>rq_query := Some q1\<rparr>) = upstream_url cfg p (rq\<lparr>rq_query := Some q2\<rparr>) \<longleftrightarrow> q1 = q2"
  by (simp_all add: request_key_def key_of_def first_ctx_def full_path_of_def upstream_url_def Let_def
      split: option.split sum.split)

text \<open>The way of a request that spawned a task.\<close>

lemma relay_response_cache [simp]: "h_cache (relay_response P cfg p b rq ctx key m body states wire up c) = c"
  by (simp add: relay_response_def Let_def split: option.split)

lemma forward_request_cache [simp]: "h_cache (forward_request P cfg p b rq ctx key m body c) = c"
  by (auto simp: forward_request_def Let_def split: sum.split)

lemma forward_request_task:
  assumes "h_task (forward_request P cfg p b rq ctx key m body c) = Some t"
  obtains w states up stream where "phase2_of cfg b ctx body = Inr (w, states)"
    and "send_upstream P \<lparr>ur_method = rq_method rq, ur_url = upstream_url cfg p rq,
                 ur_headers = forward_headers P (rq_headers rq), ur_body = w\<rparr> = Inr up"
    and "phase3_of P cfg b ctx states (up_stream up) = Some stream"
    and "t = \<lparr>t_stream = stream, t_do_cache = \<not> b \<and> is_success (up_status up), t_key = key,
                 t_trace = trace_id_of P rq, t_provider = path_prefix p,
                 t_model = (case extract_model_from_path p (rq_path rq) of Some m \<Rightarrow> Some m | None \<Rightarrow> m),
                 t_method = rq_method rq, t_path = full_path_of rq, t_body = body,
                 t_status = up_status up, t_content_type = content_type_of P up\<rparr>"
    and "h_reply (forward_request P cfg p b rq ctx key m body c) =
           relayed_response P b key (up_status up) (content_type_of P up) (is_sse_type (content_type_of P up))"
  using assms
  by (auto simp: forward_request_def relay_response_def Let_def split: sum.splits option.splits prod.splits if_splits)

lemma handle_task_forward:
  assumes "h_task (handle P cfg gf tf c rq) = Some t"
  obtains p body c' where "from_prefix (rq_provider rq) = Some p"
    and "run_phase1 (extensions cfg) (first_ctx p rq) (rq_body rq) = Inr body"
    and "handle P cfg gf tf c rq = forward_request P cfg p (is_bypass P rq) rq
           ((first_ctx p rq)\<lparr>px_cache_key := Some (key_of P p rq body)\<rparr>) (key_of P p rq body)
           (body_model (json P) body) body c'"
  using assms
  by (auto simp: handle_eq Let_def split: option.splits sum.splits if_splits prod.splits)

lemma look_up_hit:
  assumes "select_entry key (inner c) = Some r" and "\<not> expired (cache_params P) c r"
    and "parse_exchange (cache_params P) (r_exchange_json r) = Some e"
  shows "fst (look_up P no_fault tf c tid key) = Some e"
  using cache_get_hit_eq[OF assms] by (simp add: look_up_def)

lemma handle_hit:
  assumes "\<not> is_bypass P rq" and "request_key P cfg rq = Some key"
    and "fst (look_up P gf tf c (trace_id_of P rq) key) = Some e"
  shows "handle P cfg gf tf c rq = answered (serve_cached P e key) (snd (look_up P gf tf c (trace_id_of P rq) key))"
  using assms by (auto simp: handle_eq request_key_Some_iff Let_def split: prod.split)

lemma store_exchange_select:
  assumes "serde_ok (cache_params P)" and "print_exchange (cache_params P) e \<noteq> None"
  obtains r where "select_entry (t_key t) (inner (store_exchange P no_fault tf c t e)) = Some r"
    and "row_holds (cache_params P) r e" and "r_created_at r = iso_now (cache_params P)"
proof -
  obtain r where r: "inner (snd (cache_put (cache_params P) no_fault c (t_key t) (t_provider t) (t_model t) e))
        = insert_or_replace r (inner c)"
      "r_key r = t_key t" "row_holds (cache_params P) r e" "r_created_at r = iso_now (cache_params P)"
    using cache_put_select[OF assms, of c "t_key t" "t_provider t" "t_model t"] by metis
  obtain s where s: "print_exchange (cache_params P) e = Some s" using assms(2) by blast
  have "entries (inner (store_exchange P no_fault tf c t e)) = entries (insert_or_replace r (inner c))"
    using r(1) s
    by (auto simp: store_exchange_def cache_put_def record_trace_def insert_or_ignore_trace_def split: option.split)
  then have "select_entry (t_key t) (inner (store_exchange P no_fault tf c t e))
      = select_entry (t_key t) (insert_or_replace r (inner c))" by (simp add: select_entry_def)
  then have "select_entry (t_key t) (inner (store_exchange P no_fault tf c t e)) = Some r"
    using r(2) by (simp add: select_entry_insert_or_replace)
  with r show thesis using that by blast
qed

lemma store_exchange_ttl [simp]: "ttl_seconds (store_exchange P pf tf c t e) = ttl_seconds c"
  by (auto simp: store_exchange_def cache_put_def record_trace_def split: option.split)

text \<open>The same program at another moment: another time, and an upstream and a network that behave
  as they do then.\<close>

record moment =
  m_now :: int
  m_upstream :: "upstream_request \<Rightarrow> string + upstream_response"
  m_elapsed :: "nat \<Rightarrow> int"

definition at_moment :: "moment \<Rightarrow> proxy_lib \<Rightarrow> proxy_lib" where
  "at_moment m P = P\<lparr>cache_params := (cache_params P)\<lparr>utc_now := m_now m\<rparr>, send_upstream := m_upstream m,
     elapsed_ms := m_elapsed m\<rparr>"

lemma at_moment_sel [simp]:
  "cache_params (at_moment m P) = (cache_params P)\<lparr>utc_now := m_now m\<rparr>"
  "header_str (at_moment m P) = header_str P" "header_ok (at_moment m P) = header_ok P"
  "status_ok (at_moment m P) = status_ok P" "send_upstream (at_moment m P) = m_upstream m"
  "blake3_hex (at_moment m P) = blake3_hex P" "json (at_moment m P) = json P"
  "elapsed_ms (at_moment m P) = m_elapsed m" "debug_assertions (at_moment m P) = debug_assertions P"
  "channel_ok (at_moment m P) = channel_ok P"
  by (simp_all add: at_moment_def)

lemma key_of_at_moment [simp]: "key_of (at_moment m P) = key_of P"
  by (simp add: key_of_def fun_eq_iff)

lemma at_moment_frame [simp]:
  "is_bypass (at_moment m P) rq = is_bypass P rq" "trace_id_of (at_moment m P) rq = trace_id_of P rq"
  "request_key (at_moment m P) cfg rq = request_key P cfg rq"
  "build_response (at_moment m P) = build_response P" "serve_cached (at_moment m P) = serve_cached P"
  "relayed_response (at_moment m P) = relayed_response P"
  by (simp_all add: is_bypass_def trace_id_of_def header_value_def request_key_def build_response_def
      serve_cached_def relayed_response_def fun_eq_iff Let_def split: option.split sum.split)

lemma handle_task_key:
  assumes "h_task (handle P cfg gf tf c rq) = Some t"
  shows "request_key P cfg rq = Some (t_key t)"
    and "h_reply (handle P cfg gf tf c rq)
       = relayed_response P (is_bypass P rq) (t_key t) (t_status t) (t_content_type t) (is_sse_type (t_content_type t))"
    and "t_do_cache t \<longleftrightarrow> \<not> is_bypass P rq \<and> is_success (t_status t)"
  using assms
proof -
  obtain p body c' where p: "from_prefix (rq_provider rq) = Some p"
    "run_phase1 (extensions cfg) (first_ctx p rq) (rq_body rq) = Inr body" and
    h: "handle P cfg gf tf c rq = forward_request P cfg p (is_bypass P rq) rq
           ((first_ctx p rq)\<lparr>px_cache_key := Some (key_of P p rq body)\<rparr>) (key_of P p rq body)
           (body_model (json P) body) body c'"
    by (rule handle_task_forward[OF assms])
  from assms have "h_task (forward_request P cfg p (is_bypass P rq) rq
           ((first_ctx p rq)\<lparr>px_cache_key := Some (key_of P p rq body)\<rparr>) (key_of P p rq body)
           (body_model (json P) body) body c') = Some t" by (simp add: h)
  then obtain w states up stream where
    t: "t = \<lparr>t_stream = stream, t_do_cache = \<not> is_bypass P rq \<and> is_success (up_status up), t_key = key_of P p rq body,
                 t_trace = trace_id_of P rq, t_provider = path_prefix p,
                 t_model = (case extract_model_from_path p (rq_path rq) of Some m \<Rightarrow> Some m | None \<Rightarrow> body_model (json P) body),
                 t_method = rq_method rq, t_path = full_path_of rq, t_body = body,
                 t_status = up_status up, t_content_type = content_type_of P up\<rparr>"
    and r: "h_reply (handle P cfg gf tf c rq) = relayed_response P (is_bypass P rq) (key_of P p rq body) (up_status up)
              (content_type_of P up) (is_sse_type (content_type_of P up))"
    unfolding h by (rule forward_request_task)
  show "request_key P cfg rq = Some (t_key t)" using p t by (auto simp: request_key_Some_iff)
  show "h_reply (handle P cfg gf tf c rq)
       = relayed_response P (is_bypass P rq) (t_key t) (t_status t) (t_content_type t) (is_sse_type (t_content_type t))"
    using r t by simp
  show "t_do_cache t \<longleftrightarrow> \<not> is_bypass P rq \<and> is_success (t_status t)" using t by simp
qed

text \<open>A good first answer: what the builder accepted for the relayed response it accepts for a replay.\<close>

lemma relayed_then_served:
  assumes "relayed_response P False key (status e) (content_type e) sse = Some rsp" and "rs_body rsp = FromTask"
    and "header_ok P ''HIT''"
  obtains k12 where "key_prefix key = Some k12"
    and "serve_cached P e key = Some \<lparr>rs_status = status e, rs_headers =
           [(''content-type'', content_type e), (''x-lcp-cache'', ''HIT''), (''x-lcp-key'', k12)],
           rs_body = Replay (map data (chunks e))\<rparr>"
    and "rs_status rsp = status e" and "map_of (rs_headers rsp) ''content-type'' = Some (content_type e)"
    and "map_of (rs_headers rsp) ''x-lcp-key'' = Some k12" and "map_of (rs_headers rsp) ''x-lcp-cache'' = Some ''MISS''"
proof -
  from assms(1) obtain k12 where k: "key_prefix key = Some k12"
    by (auto simp: relayed_response_def Let_def split: option.splits)
  with assms have r: "rsp = \<lparr>rs_status = status e, rs_headers =
      [(''content-type'', content_type e), (''x-lcp-cache'', ''MISS''), (''x-lcp-key'', k12)]
        @ (if sse then [(''cache-control'', ''no-cache''), (''transfer-encoding'', ''chunked'')] else []),
      rs_body = FromTask\<rparr>"
    and ok: "status_ok P (status e)" "header_ok P (content_type e)" "header_ok P k12"
    by (auto simp: relayed_response_def build_response_def Let_def split: if_splits)
  show thesis
    by (rule that[OF k]) (use ok assms(3) in \<open>simp_all add: r serve_cached_def k build_response_def\<close>)
qed

lemma run_task_store:
  assumes "run_task P gone pf tf c t = (r, c')" and "may_store t r"
  shows "r = relay_loop P gone (t_do_cache t) 0 (t_stream t) []" and "c' = store_exchange P pf tf c t (exchange_of t r)"
  using assms by (auto simp: run_task_def Let_def)

lemma may_store_chunks:
  assumes "r = relay_loop P gone (t_do_cache t) 0 (t_stream t) []" and "may_store t r"
  shows "concat (map data (chunks (exchange_of t r))) = concat (chunks_of (t_stream t))"
    and "length (chunks (exchange_of t r)) = length (chunks_of (t_stream t))"
proof -
  have v: "valid_utf8 (response_buf r)" and dc: "t_do_cache t" using assms(2) by (simp_all add: may_store_def)
  show "concat (map data (chunks (exchange_of t r))) = concat (chunks_of (t_stream t))"
    using exchange_of_text(1)[OF v, of t] may_store_relay(3)[OF assms] by (simp add: chunks_text_def)
  have "map offset_ms (chunks (exchange_of t r)) = map fst (rl_raw r)"
    using carry_chunks_text[of "[]" "rl_raw r"] v by (simp add: exchange_of_def response_buf_def)
  then have "length (chunks (exchange_of t r)) = length (rl_raw r)" by (metis length_map)
  also have "map snd (rl_raw r) = chunks_of (t_stream t)"
    using assms relay_completed[of P gone "t_do_cache t" 0 "t_stream t" "[]"] dc by (auto simp: may_store_def)
  then have "length (rl_raw r) = length (chunks_of (t_stream t))" by (metis length_map)
  finally show "length (chunks (exchange_of t r)) = length (chunks_of (t_stream t))" .
qed

subsection \<open>Properties\<close>

text \<open>A miss, its task and a later hit, for the property below and for the whole program.\<close>

lemma replay_of_miss:
  assumes "serde_ok (cache_params P)"
    and "h_task (handle (at_moment m0 P) cfg gf0 tf0 c0 rq) = Some t"
    and "h_reply (handle (at_moment m0 P) cfg gf0 tf0 c0 rq) = Some rsp" and "rs_body rsp = FromTask"
    and "run_task (at_moment m1 P) gone no_fault tf1 c1 t = (r, c2)" and "may_store t r"
    and "print_exchange (cache_params P) (exchange_of t r) \<noteq> None"
    and "ttl_seconds c1 = 0 \<or> age_seconds (cache_params (at_moment m2 P)) (to_rfc3339 (cache_params P) (m_now m1)) \<le> ttl_seconds c1"
    and "request_key P cfg rq2 = request_key P cfg rq" and "\<not> is_bypass P rq2" and "header_ok P ''HIT''"
  shows "\<exists>rsp2 bs bs2. h_reply (handle (at_moment m2 P) cfg no_fault tf2 c2 rq2) = Some rsp2
    \<and> h_wire (handle (at_moment m2 P) cfg no_fault tf2 c2 rq2) = None
    \<and> h_task (handle (at_moment m2 P) cfg no_fault tf2 c2 rq2) = None
    \<and> rs_status rsp2 = rs_status rsp
    \<and> map_of (rs_headers rsp2) ''content-type'' = map_of (rs_headers rsp) ''content-type''
    \<and> map_of (rs_headers rsp2) ''x-lcp-key'' = map_of (rs_headers rsp) ''x-lcp-key''
    \<and> map_of (rs_headers rsp) ''x-lcp-cache'' = Some ''MISS'' \<and> map_of (rs_headers rsp2) ''x-lcp-cache'' = Some ''HIT''
    \<and> rl_sent r = map Inr bs \<and> rs_body rsp2 = Replay bs2 \<and> concat bs2 = concat bs \<and> length bs2 = length bs"
proof -
  let ?e = "exchange_of t r"
  have key: "request_key P cfg rq2 = Some (t_key t)"
    using handle_task_key(1)[OF assms(2)] assms(9) by simp
  have e: "status ?e = t_status t" "content_type ?e = t_content_type t" by (simp_all add: exchange_of_def)
  have nb: "\<not> is_bypass P rq" using handle_task_key(3)[OF assms(2)] assms(6) by (auto simp: may_store_def)
  have rel: "relayed_response P False (t_key t) (status ?e) (content_type ?e) (is_sse_type (t_content_type t)) = Some rsp"
    using handle_task_key(2)[OF assms(2)] assms(3) nb by (simp add: e)
  obtain k12 where served: "serve_cached P ?e (t_key t) = Some \<lparr>rs_status = status ?e, rs_headers =
           [(''content-type'', content_type ?e), (''x-lcp-cache'', ''HIT''), (''x-lcp-key'', k12)],
           rs_body = Replay (map data (chunks ?e))\<rparr>"
    and rsp: "rs_status rsp = status ?e" "map_of (rs_headers rsp) ''content-type'' = Some (content_type ?e)"
      "map_of (rs_headers rsp) ''x-lcp-key'' = Some k12" "map_of (rs_headers rsp) ''x-lcp-cache'' = Some ''MISS''"
    by (rule relayed_then_served[OF rel assms(4,11)])
  note run = run_task_store[OF assms(5,6)]
  obtain row where row: "select_entry (t_key t) (inner c2) = Some row" "row_holds (cache_params P) row ?e"
    "r_created_at row = to_rfc3339 (cache_params P) (m_now m1)"
    using store_exchange_select[of "at_moment m1 P" ?e t tf1 c1] assms(1,7) run(2)
    by (auto simp: row_holds_def iso_now_def)
  have "\<not> expired (cache_params (at_moment m2 P)) c2 row"
    using assms(8) row(3) run(2) by (auto simp: expired_def not_less word_le_def)
  moreover have "parse_exchange (cache_params (at_moment m2 P)) (r_exchange_json row) = Some ?e"
    using row(2) by (auto simp: row_holds_def)
  ultimately have "fst (look_up (at_moment m2 P) no_fault tf2 c2 (trace_id_of P rq2) (t_key t)) = Some ?e"
    by (rule look_up_hit[OF row(1)])
  then have "handle (at_moment m2 P) cfg no_fault tf2 c2 rq2 = answered (serve_cached P ?e (t_key t))
      (snd (look_up (at_moment m2 P) no_fault tf2 c2 (trace_id_of P rq2) (t_key t)))"
    using handle_hit[of "at_moment m2 P" rq2 cfg "t_key t" no_fault tf2 c2 ?e] key assms(10) by simp
  then show ?thesis
    using served rsp may_store_relay(2)[OF run(1) assms(6)] may_store_chunks[OF run(1) assms(6)]
    by (intro exI[of _ "the (serve_cached P ?e (t_key t))"] exI[of _ "chunks_of (t_stream t)"]
          exI[of _ "map data (chunks ?e)"]) simp
qed

text \<open>C7: A hit replays the miss. When a request went to the upstream and its task stored the response
  (which the client received in full), then, whatever happened to the cache before the task ended, a
  later request with the same cache key, within the time to live, is answered without asking the
  upstream: the same status, content type and key header, the same bytes in as many chunks, and only
  the header \<open>x-lcp-cache\<close> turns from \<open>MISS\<close> to \<open>HIT\<close>.\<close>

theorem hit_replays_miss:
  assumes "serde_ok (cache_params P)"
    and "h_task (handle (at_moment m0 P) cfg gf0 tf0 c0 rq) = Some t"
    and "h_reply (handle (at_moment m0 P) cfg gf0 tf0 c0 rq) = Some rsp" and "rs_body rsp = FromTask"
    and "run_task (at_moment m1 P) gone no_fault tf1 c1 t = (r, c2)" and "may_store t r"
    and "print_exchange (cache_params P) (exchange_of t r) \<noteq> None"
    and "ttl_seconds c1 = 0 \<or> age_seconds (cache_params (at_moment m2 P)) (to_rfc3339 (cache_params P) (m_now m1)) \<le> ttl_seconds c1"
    and "request_key P cfg rq2 = request_key P cfg rq" and "\<not> is_bypass P rq2" and "header_ok P ''HIT''"
  shows "\<exists>rsp2 bs bs2. h_reply (handle (at_moment m2 P) cfg no_fault tf2 c2 rq2) = Some rsp2
    \<and> h_wire (handle (at_moment m2 P) cfg no_fault tf2 c2 rq2) = None
    \<and> h_task (handle (at_moment m2 P) cfg no_fault tf2 c2 rq2) = None
    \<and> rs_status rsp2 = rs_status rsp
    \<and> map_of (rs_headers rsp2) ''content-type'' = map_of (rs_headers rsp) ''content-type''
    \<and> map_of (rs_headers rsp2) ''x-lcp-key'' = map_of (rs_headers rsp) ''x-lcp-key''
    \<and> map_of (rs_headers rsp) ''x-lcp-cache'' = Some ''MISS'' \<and> map_of (rs_headers rsp2) ''x-lcp-cache'' = Some ''HIT''
    \<and> rl_sent r = map Inr bs \<and> rs_body rsp2 = Replay bs2 \<and> concat bs2 = concat bs \<and> length bs2 = length bs"
  by (rule replay_of_miss[OF assms])

text \<open>A proxy for the witnesses: no extensions, headers that are plain text, and an upstream that
  answers with two chunks that cut a character.\<close>

definition wit_rq :: http_request where
  "wit_rq = \<lparr>rq_method = ''POST'', rq_provider = ''openai'', rq_path = ''v1/chat'', rq_query = Some ''q=1'',
     rq_headers = [(''host'', ''localhost''), (''x-lcp-trace'', ''t''), (''authorization'', ''Bearer k'')],
     rq_body = ''{}''\<rparr>"

definition wit_upstream :: upstream_response where
  "wit_upstream = \<lparr>up_status = 200, up_headers = [(''content-type'', ''text/event-stream'')],
     up_stream = [Chunk (''data: '' @ [CHR 0xC3]), Pend, Chunk [CHR 0xA9]]\<rparr>"

definition wit_moment :: moment where
  "wit_moment = \<lparr>m_now = 0, m_upstream = (\<lambda>_. Inr wit_upstream), m_elapsed = int\<rparr>"

definition wit_later :: moment where
  "wit_later = \<lparr>m_now = 9, m_upstream = (\<lambda>_. Inl ''down''), m_elapsed = int\<rparr>"

definition wit_stored :: exchange where
  "wit_stored = \<lparr>request = \<lparr>req_method = ''POST'', req_path = ''/openai/v1/chat'', req_body = ''{}''\<rparr>,
     status = 200, content_type = ''text/event-stream'',
     chunks = [\<lparr>offset_ms = 0, data = ''data: ''\<rparr>, \<lparr>offset_ms = 1, data = [CHR 0xC3, CHR 0xA9]\<rparr>]\<rparr>"

definition wit_store_lib :: cache_lib where
  "wit_store_lib = \<lparr>utc_now = 0, to_rfc3339 = (\<lambda>t. ''2026''), parse_from_rfc3339 = (\<lambda>s. Some 0),
     print_exchange = (\<lambda>e. if e = wit_stored then Some ''x'' else None),
     parse_exchange = (\<lambda>s. if s = ''x'' then Some wit_stored else None)\<rparr>"

definition wit_proxy :: proxy_lib where
  "wit_proxy = \<lparr>header_str = Some, header_ok = (\<lambda>_. True), status_ok = (\<lambda>_. True),
     send_upstream = (\<lambda>_. Inl ''down''), blake3_hex = (\<lambda>b. ''000000000000'' @ b),
     json = \<lparr>parse_json = (\<lambda>_. None), print_json = (\<lambda>_. None)\<rparr>,
     cache_params = wit_store_lib, elapsed_ms = int, channel_ok = (\<lambda>n. 0 < n), debug_assertions = True\<rparr>"

definition wit_cfg :: server_config where
  "wit_cfg = \<lparr>addr = ''127.0.0.1:9001'', timeout_seconds = 300, body_limit_bytes = 0, anthropic_upstream = None,
     openai_upstream = Some ''http://up/'', openrouter_upstream = None, gemini_upstream = None,
     stream_channel_capacity = 32, extensions = []\<rparr>"

definition wit_empty :: cache where
  "wit_empty = \<lparr>inner = init_schema new_file, ttl_seconds = 0\<rparr>"

definition wit_wire :: upstream_request where
  "wit_wire = \<lparr>ur_method = ''POST'', ur_url = ''http://up/v1/chat?q=1'', ur_headers = [(''authorization'', ''Bearer k'')],
     ur_body = ''{}''\<rparr>"

definition wit_task :: relay_task where
  "wit_task = \<lparr>t_stream = up_stream wit_upstream, t_do_cache = True,
     t_key = ''000000000000POST|/openai/v1/chat|{}'', t_trace = Some ''t'', t_provider = ''openai'', t_model = None,
     t_method = ''POST'', t_path = ''/openai/v1/chat'', t_body = ''{}'', t_status = 200,
     t_content_type = ''text/event-stream''\<rparr>"

definition wit_miss :: handled where
  "wit_miss = \<lparr>h_reply = Some \<lparr>rs_status = 200, rs_headers = [(''content-type'', ''text/event-stream''),
       (''x-lcp-cache'', ''MISS''), (''x-lcp-key'', ''000000000000''), (''cache-control'', ''no-cache''),
       (''transfer-encoding'', ''chunked'')], rs_body = FromTask\<rparr>,
     h_cache = \<lparr>inner = \<lparr>entries = [], trace_entries = [], stats_rows = [(''misses'', 1)]\<rparr>, ttl_seconds = 0\<rparr>,
     h_wire = Some wit_wire, h_task = Some wit_task\<rparr>"

lemma wit_handle: "handle (at_moment wit_moment wit_proxy) wit_cfg no_fault no_fault wit_empty wit_rq = wit_miss"
  by code_simp

definition wit_relay :: relay where
  "wit_relay = \<lparr>rl_sent = [Inr (''data: '' @ [CHR 0xC3]), Inr [CHR 0xA9]],
     rl_raw = [(0, ''data: '' @ [CHR 0xC3]), (1, [CHR 0xA9])], rl_end = Completed\<rparr>"

definition wit_after :: cache where
  "wit_after = snd (run_task (at_moment wit_moment wit_proxy) no_fault no_fault no_fault (h_cache wit_miss) wit_task)"

lemma wit_run_task: "run_task (at_moment wit_moment wit_proxy) no_fault no_fault no_fault (h_cache wit_miss) wit_task
    = (wit_relay, wit_after)"
proof -
  have "fst (run_task (at_moment wit_moment wit_proxy) no_fault no_fault no_fault (h_cache wit_miss) wit_task) = wit_relay"
    by code_simp
  then show ?thesis by (simp add: wit_after_def prod_eq_iff)
qed

lemma wit_may_store: "may_store wit_task wit_relay"
  by code_simp

lemma wit_exchange_of: "exchange_of wit_task wit_relay = wit_stored"
  by code_simp

lemma wit_store_serde: "serde_ok (cache_params wit_proxy)"
  by (simp add: serde_ok_def wit_proxy_def wit_store_lib_def)

theorem hit_replays_miss_witness:
  "\<exists>rsp bs. h_reply (handle (at_moment wit_later wit_proxy) wit_cfg no_fault no_fault wit_after wit_rq) = Some rsp
     \<and> h_wire (handle (at_moment wit_later wit_proxy) wit_cfg no_fault no_fault wit_after wit_rq) = None
     \<and> rs_status rsp = 200 \<and> map_of (rs_headers rsp) ''x-lcp-cache'' = Some ''HIT''
     \<and> rs_body rsp = Replay bs \<and> concat bs = ''data: '' @ [CHR 0xC3, CHR 0xA9]"
proof -
  let ?h = "handle (at_moment wit_moment wit_proxy) wit_cfg no_fault no_fault wit_empty wit_rq"
  let ?rsp = "the (h_reply wit_miss)"
  have 1: "h_task ?h = Some wit_task" "h_reply ?h = Some ?rsp" "rs_body ?rsp = FromTask" "rs_status ?rsp = 200"
    by (simp_all add: wit_handle wit_miss_def)
  have 2: "print_exchange (cache_params wit_proxy) (exchange_of wit_task wit_relay) \<noteq> None"
    by (simp add: wit_exchange_of wit_proxy_def wit_store_lib_def)
  have 3: "ttl_seconds (h_cache wit_miss) = 0 \<or> age_seconds (cache_params (at_moment wit_later wit_proxy))
      (to_rfc3339 (cache_params wit_proxy) (m_now wit_moment)) \<le> ttl_seconds (h_cache wit_miss)"
    by (simp add: wit_miss_def)
  have 4: "\<not> is_bypass wit_proxy wit_rq" by code_simp
  have 5: "header_ok wit_proxy ''HIT''" by (simp add: wit_proxy_def)
  have sent: "rl_sent wit_relay = map Inr bs \<Longrightarrow> concat bs = ''data: '' @ [CHR 0xC3, CHR 0xA9]" for bs
    by (auto simp: wit_relay_def Cons_eq_map_conv)
  from hit_replays_miss[OF wit_store_serde 1(1-3) wit_run_task wit_may_store 2 3 refl 4 5, of no_fault]
  obtain rsp2 bs bs2 where "h_reply (handle (at_moment wit_later wit_proxy) wit_cfg no_fault no_fault wit_after wit_rq) = Some rsp2"
    "h_wire (handle (at_moment wit_later wit_proxy) wit_cfg no_fault no_fault wit_after wit_rq) = None"
    "rs_status rsp2 = rs_status ?rsp" "map_of (rs_headers rsp2) ''x-lcp-cache'' = Some ''HIT''"
    "rl_sent wit_relay = map Inr bs" "rs_body rsp2 = Replay bs2" "concat bs2 = concat bs" by blast
  with sent 1(4) show ?thesis by (intro exI[of _ rsp2] exI[of _ bs2]) simp
qed

text \<open>C20: A bypass does not touch the cache. With \<open>x-lcp-bypass: 1\<close> neither the handler nor the
  task it spawns reads or writes the cache, at whatever time it runs; the body on the wire is the
  request's after the first phase only, the client's stream is the upstream's own, and the answer
  says \<open>BYPASS\<close> and has no \<open>x-lcp-key\<close>.\<close>

theorem bypass_leaves_the_cache_alone:
  assumes "is_bypass P rq"
  shows "h_cache (handle P cfg gf tf c rq) = c
    \<and> (\<forall>t. h_task (handle P cfg gf tf c rq) = Some t \<longrightarrow>
         snd (run_task P' gone pf tf' c' t) = c'
         \<and> (\<exists>wire up. h_wire (handle P cfg gf tf c rq) = Some wire \<and> send_upstream P wire = Inr up \<and> t_stream t = up_stream up))
    \<and> (\<forall>wire. h_wire (handle P cfg gf tf c rq) = Some wire \<longrightarrow>
         (\<exists>p. from_prefix (rq_provider rq) = Some p
            \<and> run_phase1 (extensions cfg) (first_ctx p rq) (rq_body rq) = Inr (ur_body wire)))
    \<and> (\<forall>rsp. h_reply (handle P cfg gf tf c rq) = Some rsp \<longrightarrow>
         map_of (rs_headers rsp) ''x-lcp-key'' = None
         \<and> (rs_body rsp = FromTask \<longrightarrow> map_of (rs_headers rsp) ''x-lcp-cache'' = Some ''BYPASS''))"
proof (intro conjI allI impI)
  show "h_cache (handle P cfg gf tf c rq) = c"
    using assms by (simp add: handle_eq Let_def split: option.split sum.split)
next
  fix t
  assume t: "h_task (handle P cfg gf tf c rq) = Some t"
  from handle_task_key(3)[OF t] assms have "\<not> t_do_cache t" by simp
  then show "snd (run_task P' gone pf tf' c' t) = c'" by (simp add: run_task_def may_store_def Let_def)
  show "\<exists>wire up. h_wire (handle P cfg gf tf c rq) = Some wire \<and> send_upstream P wire = Inr up \<and> t_stream t = up_stream up"
    using t assms
    by (auto simp: handle_eq forward_request_def relay_response_def phase2_of_def phase3_of_def Let_def
        split: option.splits sum.splits if_splits)
next
  fix wire
  assume "h_wire (handle P cfg gf tf c rq) = Some wire"
  with assms show "\<exists>p. from_prefix (rq_provider rq) = Some p
      \<and> run_phase1 (extensions cfg) (first_ctx p rq) (rq_body rq) = Inr (ur_body wire)"
    by (auto simp: handle_eq forward_request_def relay_response_def phase2_of_def phase3_of_def Let_def
        split: option.splits sum.splits)
next
  fix rsp
  assume r: "h_reply (handle P cfg gf tf c rq) = Some rsp"
  from r assms show "map_of (rs_headers rsp) ''x-lcp-key'' = None"
    by (auto simp: handle_eq forward_request_def relay_response_def phase2_of_def phase3_of_def relayed_response_def
        build_response_def plain_reply_def Let_def split: option.splits sum.splits if_splits)
  assume "rs_body rsp = FromTask"
  with r assms show "map_of (rs_headers rsp) ''x-lcp-cache'' = Some ''BYPASS''"
    by (auto simp: handle_eq forward_request_def relay_response_def phase2_of_def phase3_of_def relayed_response_def
        build_response_def plain_reply_def Let_def split: option.splits sum.splits if_splits)
qed

definition wit_bypass_rq :: http_request where
  "wit_bypass_rq = wit_rq\<lparr>rq_headers := (''x-lcp-bypass'', ''1'') # rq_headers wit_rq\<rparr>"

theorem bypass_leaves_the_cache_alone_witness:
  "h_cache (handle (at_moment wit_moment wit_proxy) wit_cfg no_fault no_fault wit_empty wit_bypass_rq) = wit_empty
   \<and> (\<exists>t. h_task (handle (at_moment wit_moment wit_proxy) wit_cfg no_fault no_fault wit_empty wit_bypass_rq) = Some t
        \<and> snd (run_task wit_proxy no_fault no_fault no_fault wit_empty t) = wit_empty)"
proof -
  let ?h = "handle (at_moment wit_moment wit_proxy) wit_cfg no_fault no_fault wit_empty wit_bypass_rq"
  have b: "is_bypass (at_moment wit_moment wit_proxy) wit_bypass_rq" by code_simp
  obtain t where t: "h_task ?h = Some t"
  proof -
    have "(case h_task ?h of Some t \<Rightarrow> True | None \<Rightarrow> False)" by code_simp
    then show thesis by (cases "h_task ?h") (auto intro: that)
  qed
  from bypass_leaves_the_cache_alone[OF b, of wit_cfg no_fault no_fault wit_empty wit_proxy no_fault no_fault no_fault wit_empty]
    t show ?thesis by blast
qed



lemma relayed_response_total:
  "key_prefix key \<noteq> None \<Longrightarrow> \<exists>rsp. relayed_response P b key st ctype sse = Some rsp \<and> rs_body rsp \<in> {FromTask, Whole []}"
  by (auto simp: relayed_response_def build_response_def Let_def)

lemma serve_cached_total:
  "key_prefix key \<noteq> None \<Longrightarrow> \<exists>rsp. serve_cached P e key = Some rsp \<and> rs_body rsp \<noteq> FromTask"
  by (auto simp: serve_cached_def build_response_def)

lemma phases_total:
  "phase2_of cfg b ctx body = Inr (w, states) \<Longrightarrow> phase3_of P cfg b ctx states stream \<noteq> None"
  using run_phase3_total[OF run_phase2_length, of "extensions cfg" ctx body w states]
  by (auto simp: phase2_of_def phase3_of_def split: if_splits)

text \<open>Every answer of the forwarding half, with the shape of its body.\<close>

lemma forward_request_answers:
  assumes "key_prefix key \<noteq> None" and "channel_ok P (stream_channel_capacity cfg)"
  shows "\<exists>rsp. h_reply (forward_request P cfg p b rq ctx key m body c) = Some rsp
    \<and> (rs_body rsp = FromTask \<longrightarrow> h_task (forward_request P cfg p b rq ctx key m body c) \<noteq> None)
    \<and> (h_task (forward_request P cfg p b rq ctx key m body c) \<noteq> None
         \<longrightarrow> h_wire (forward_request P cfg p b rq ctx key m body c) \<noteq> None)"
proof (cases "phase2_of cfg b ctx body")
  case (Inl e)
  then show ?thesis by (simp add: forward_request_def plain_reply_def)
next
  case (Inr r)
  obtain w states where r: "r = (w, states)" by (cases r)
  show ?thesis
  proof (cases "send_upstream P \<lparr>ur_method = rq_method rq, ur_url = upstream_url cfg p rq,
                 ur_headers = forward_headers P (rq_headers rq), ur_body = w\<rparr>")
    case (Inl e)
    then show ?thesis by (simp add: forward_request_def Inr r plain_reply_def Let_def)
  next
    case up: (Inr up)
    obtain stream where "phase3_of P cfg b ctx states (up_stream up) = Some stream"
      using phases_total Inr r by blast
    moreover obtain rsp where "relayed_response P b key (up_status up) (content_type_of P up)
        (is_sse_type (content_type_of P up)) = Some rsp"
      using relayed_response_total[OF assms(1)] by blast
    ultimately show ?thesis using up Inr r assms(2) by (simp add: forward_request_def relay_response_def Let_def)
  qed
qed

text \<open>C26: The handler always answers. When the hash gives keys of at least twelve ASCII characters (64
  in the program) and tokio accepts the configured capacity of the channel (32 in the program), no path of the handler panics, the third phase's assertion on the number of
  states included, whatever the extensions do; an answer whose body comes from a task has its task,
  and a task exists only for a request that was sent upstream.\<close>

theorem handler_always_answers:
  assumes "\<And>b. key_prefix (blake3_hex P b) \<noteq> None" and "channel_ok P (stream_channel_capacity cfg)"
  shows "\<exists>rsp. h_reply (handle P cfg gf tf c rq) = Some rsp
    \<and> (rs_body rsp = FromTask \<longrightarrow> h_task (handle P cfg gf tf c rq) \<noteq> None)
    \<and> (h_task (handle P cfg gf tf c rq) \<noteq> None \<longrightarrow> h_wire (handle P cfg gf tf c rq) \<noteq> None)"
proof -
  have k: "key_prefix (key_of P p rq body) \<noteq> None" for p body
    using assms(1) by (simp add: key_of_def cache_key_def Let_def)
  show ?thesis
  proof (cases "from_prefix (rq_provider rq)")
    case None
    then show ?thesis by (simp add: handle_eq plain_reply_def)
  next
    case (Some p)
    show ?thesis
    proof (cases "run_phase1 (extensions cfg) (first_ctx p rq) (rq_body rq)")
      case (Inl e)
      then show ?thesis by (simp add: handle_eq Some plain_reply_def)
    next
      case (Inr body)
      obtain x c' where l: "look_up P gf tf c (trace_id_of P rq) (key_of P p rq body) = (x, c')"
        by (cases "look_up P gf tf c (trace_id_of P rq) (key_of P p rq body)")
      show ?thesis
        using forward_request_answers[OF k[of p body] assms(2)] serve_cached_total[OF k[of p body]]
        by (cases "is_bypass P rq"; cases x) (auto simp: handle_eq Some Inr l Let_def)
    qed
  qed
qed

lemma key_prefix_pad: "list_all (\<lambda>c. \<not> cont c) b \<Longrightarrow> key_prefix (''000000000000'' @ b) \<noteq> None"
  by (cases b) (auto simp: key_prefix_def is_char_boundary_def nth_append)

theorem handler_always_answers_witness:
  "\<exists>rsp. h_reply (handle (wit_proxy\<lparr>blake3_hex := (\<lambda>b. ''000000000000'')\<rparr>) wit_cfg no_fault no_fault wit_empty wit_rq) = Some rsp"
proof -
  let ?P = "wit_proxy\<lparr>blake3_hex := (\<lambda>b. ''000000000000'')\<rparr>"
  have k: "key_prefix (blake3_hex ?P b) \<noteq> None" for b using key_prefix_pad[of "[]"] by simp
  have "channel_ok ?P (stream_channel_capacity wit_cfg)" by (simp add: wit_proxy_def wit_cfg_def)
  from handler_always_answers[OF k this, of no_fault no_fault wit_empty wit_rq] show ?thesis by blast
qed

text \<open>The stored exchanges: a lookup changes counters only.\<close>

definition contents :: "cache \<Rightarrow> (string \<times> string) list" where
  "contents c = map (\<lambda>r. (r_key r, r_exchange_json r)) (entries (inner c))"

lemma contents_cache_get: "contents (snd (cache_get L fault c key)) = contents c"
  by (auto simp: contents_def cache_get_def count_miss_def count_hit_def update_hit_count_def
      split: option.split sum.split)

lemma contents_record_trace: "contents (snd (record_trace fault c tid key)) = contents c"
  by (simp add: contents_def record_trace_def)

lemma look_up_contents: "contents (snd (look_up P gf tf c tid key)) = contents c"
proof (cases "cache_get (cache_params P) gf c key")
  case (Pair r c')
  then have "contents c' = contents c" using contents_cache_get[of "cache_params P" gf c key] by simp
  with Pair show ?thesis
    by (auto simp: look_up_def contents_record_trace split: sum.split option.split)
qed

text \<open>C25: Extensions fail closed. When an extension fails in the first phase, or in the second one of a
  request that was not a hit, the client gets a 500, nothing is sent to the upstream, no task is
  spawned, and no entry of the cache is added, removed or replaced.\<close>

theorem extension_failure_fails_closed:
  assumes "from_prefix (rq_provider rq) = Some p"
    and "run_phase1 (extensions cfg) (first_ctx p rq) (rq_body rq) = Inl e
      \<or> (\<exists>body. run_phase1 (extensions cfg) (first_ctx p rq) (rq_body rq) = Inr body
           \<and> \<not> is_bypass P rq
           \<and> fst (look_up P gf tf c (trace_id_of P rq) (key_of P p rq body)) = None
           \<and> run_phase2 (extensions cfg) ((first_ctx p rq)\<lparr>px_cache_key := Some (key_of P p rq body)\<rparr>) body = Inl e)"
  shows "h_reply (handle P cfg gf tf c rq) = Some \<lparr>rs_status = 500, rs_headers = [], rs_body = Whole ''extension error''\<rparr>
    \<and> h_wire (handle P cfg gf tf c rq) = None \<and> h_task (handle P cfg gf tf c rq) = None
    \<and> contents (h_cache (handle P cfg gf tf c rq)) = contents c"
  using assms(2)
proof
  assume "run_phase1 (extensions cfg) (first_ctx p rq) (rq_body rq) = Inl e"
  with assms(1) show ?thesis by (simp add: handle_eq plain_reply_def)
next
  assume "\<exists>body. run_phase1 (extensions cfg) (first_ctx p rq) (rq_body rq) = Inr body
           \<and> \<not> is_bypass P rq
           \<and> fst (look_up P gf tf c (trace_id_of P rq) (key_of P p rq body)) = None
           \<and> run_phase2 (extensions cfg) ((first_ctx p rq)\<lparr>px_cache_key := Some (key_of P p rq body)\<rparr>) body = Inl e"
  then obtain body c' where b: "run_phase1 (extensions cfg) (first_ctx p rq) (rq_body rq) = Inr body" "\<not> is_bypass P rq"
    and l: "look_up P gf tf c (trace_id_of P rq) (key_of P p rq body) = (None, c')"
    and p2: "run_phase2 (extensions cfg) ((first_ctx p rq)\<lparr>px_cache_key := Some (key_of P p rq body)\<rparr>) body = Inl e"
    by (auto simp: prod_eq_iff)
  have "contents c' = contents c"
    using look_up_contents[of P gf tf c "trace_id_of P rq" "key_of P p rq body"] l by simp
  with assms(1) b l p2 show ?thesis by (simp add: handle_eq forward_request_def phase2_of_def plain_reply_def)
qed

theorem extension_failure_fails_closed_witness:
  "h_wire (handle (at_moment wit_moment wit_proxy) (wit_cfg\<lparr>extensions := [failing_extension ''e'']\<rparr>)
     no_fault no_fault wit_empty wit_rq) = None"
proof -
  have p: "from_prefix (rq_provider wit_rq) = Some OpenAi" by code_simp
  have "run_phase1 (extensions (wit_cfg\<lparr>extensions := [failing_extension ''e'']\<rparr>)) (first_ctx OpenAi wit_rq) (rq_body wit_rq)
      = Inl ''e''" by (simp add: failing_extension_def)
  from extension_failure_fails_closed[OF p disjI1[OF this]] show ?thesis by blast
qed

end
