(* ===== verification/Serving.thy ===== *)
theory Serving
  imports Proxy "HOL-Library.Multiset"
begin

text \<open>
  The running server: requests, background tasks and admin calls interleaved. The state is the shared
  cache and the set of running tasks (\<open>background_writes\<close> of \<open>AppState\<close>, \<open>proxy.rs\<close>),
  with two histories that the program does not have and the theorems speak about: the tasks spawned so
  far with their request and the upstream's response, and the tasks that have ended with what they
  relayed. A step is one handler call, one task run to its end, or one admin call; between the spawn
  of a task and its end any other steps can happen. Every step has its own moment (time, upstream,
  network), its own failing SQL statements and its own disconnecting client. Last,
  \<open>wait_for_pending_writes\<close>, which runs the tasks of the set until it is empty.
\<close>

record server =
  sv_cache :: cache
  sv_running :: "relay_task list"
  sv_spawned :: "(http_request \<times> upstream_response \<times> relay_task) list"
  sv_done :: "(relay_task \<times> relay) list"

definition server_start :: "cache \<Rightarrow> server" where
  "server_start c = \<lparr>sv_cache = c, sv_running = [], sv_spawned = [], sv_done = []\<rparr>"

definition spawned_by ::
  "moment \<Rightarrow> http_request \<Rightarrow> handled \<Rightarrow> (http_request \<times> upstream_response \<times> relay_task) list" where
  "spawned_by m rq h =
     (case (h_task h, h_wire h) of
        (Some t, Some wire) \<Rightarrow> (case m_upstream m wire of Inr up \<Rightarrow> [(rq, up, t)] | Inl e \<Rightarrow> [])
      | _ \<Rightarrow> [])"

definition serve_request ::
  "proxy_lib \<Rightarrow> server_config \<Rightarrow> moment \<Rightarrow> (nat \<Rightarrow> bool) \<Rightarrow> (nat \<Rightarrow> bool) \<Rightarrow> http_request \<Rightarrow> server \<Rightarrow> server" where
  "serve_request P cfg m gf tf rq s =
     (let h = handle (at_moment m P) cfg gf tf (sv_cache s) rq
      in s\<lparr>sv_cache := h_cache h,
           sv_running := sv_running s @ (case h_task h of Some t \<Rightarrow> [t] | None \<Rightarrow> []),
           sv_spawned := sv_spawned s @ spawned_by m rq h\<rparr>)"

inductive server_step :: "proxy_lib \<Rightarrow> server_config \<Rightarrow> server \<Rightarrow> server \<Rightarrow> bool" for P cfg where
  request: "server_step P cfg s (serve_request P cfg m gf tf rq s)"
| finish: "sv_running s = ts @ t # ts' \<Longrightarrow>
     run_task (at_moment m P) gone pf tf (sv_cache s) t = (r, c') \<Longrightarrow>
     server_step P cfg s (s\<lparr>sv_cache := c', sv_running := ts @ ts', sv_done := (t, r) # sv_done s\<rparr>)"
| delete_stats: "server_step P cfg s (s\<lparr>sv_cache := snd (clear_stats_handler msg fault (sv_cache s))\<rparr>)"
| delete_cache: "server_step P cfg s (s\<lparr>sv_cache := snd (clear_cache_handler msg fault (sv_cache s))\<rparr>)"

inductive server_reach :: "proxy_lib \<Rightarrow> server_config \<Rightarrow> cache \<Rightarrow> server \<Rightarrow> bool" for P cfg c0 where
  start: "server_reach P cfg c0 (server_start c0)"
| step: "server_reach P cfg c0 s \<Longrightarrow> server_step P cfg s s' \<Longrightarrow> server_reach P cfg c0 s'"

subsection \<open>Where a task comes from\<close>

definition task_origin ::
  "proxy_lib \<Rightarrow> server_config \<Rightarrow> http_request \<Rightarrow> upstream_response \<Rightarrow> relay_task \<Rightarrow> bool" where
  "task_origin P cfg rq up t \<longleftrightarrow>
     request_key P cfg rq = Some (t_key t) \<and> t_trace t = trace_id_of P rq \<and> t_status t = up_status up
     \<and> (t_do_cache t \<longrightarrow> \<not> is_bypass P rq \<and> is_success (up_status up))
     \<and> (list_all keeps_failures (extensions cfg) \<longrightarrow> list_ex is_fail (up_stream up) \<longrightarrow> list_ex is_fail (t_stream t))"

text \<open>The contract of the pipeline, for the two phases as the handler runs them.\<close>

lemma phases_keep_failures:
  assumes "list_all keeps_failures (extensions cfg)" and "phase2_of cfg b ctx body = Inr (w, states)"
    and "phase3_of P cfg b ctx states stream = Some out" and "list_ex is_fail stream"
  shows "list_ex is_fail out"
proof (cases b)
  case True
  with assms(3,4) show ?thesis by (simp add: phase3_of_def)
next
  case False
  note down_fails = response_hooks.down_fails[OF pipeline_hooks[OF assms(1)]]
  show ?thesis
    by (rule down_fails[where body = body and w = w]) (use False assms in \<open>simp_all add: phase2_of_def phase3_of_def\<close>)
qed

lemma forward_origin:
  assumes "from_prefix (rq_provider rq) = Some p" and "run_phase1 (extensions cfg) (first_ctx p rq) (rq_body rq) = Inr body"
    and "h = forward_request (at_moment m P) cfg p (is_bypass P rq) rq
           ((first_ctx p rq)\<lparr>px_cache_key := Some (key_of P p rq body)\<rparr>) (key_of P p rq body) model body c"
    and "h_task h = Some t"
  shows "\<exists>up. spawned_by m rq h = [(rq, up, t)] \<and> task_origin P cfg rq up t"
proof -
  let ?P = "at_moment m P" and ?ctx = "(first_ctx p rq)\<lparr>px_cache_key := Some (key_of P p rq body)\<rparr>"
  from assms(3,4) have "h_task (forward_request ?P cfg p (is_bypass P rq) rq ?ctx (key_of P p rq body) model body c) = Some t"
    by simp
  then obtain w states up stream where
    p2: "phase2_of cfg (is_bypass P rq) ?ctx body = Inr (w, states)"
    and up: "send_upstream ?P \<lparr>ur_method = rq_method rq, ur_url = upstream_url cfg p rq,
                 ur_headers = forward_headers ?P (rq_headers rq), ur_body = w\<rparr> = Inr up"
    and p3: "phase3_of ?P cfg (is_bypass P rq) ?ctx states (up_stream up) = Some stream"
    and t: "t_stream t = stream" "t_status t = up_status up" "t_key t = key_of P p rq body"
      "t_trace t = trace_id_of P rq" "t_do_cache t \<longleftrightarrow> \<not> is_bypass P rq \<and> is_success (up_status up)"
    by (rule forward_request_task) simp
  have wire: "h_wire h = Some \<lparr>ur_method = rq_method rq, ur_url = upstream_url cfg p rq,
                 ur_headers = forward_headers ?P (rq_headers rq), ur_body = w\<rparr>"
    unfolding assms(3) using p2 up p3 by (simp add: forward_request_def relay_response_def Let_def split: if_split)
  have "request_key P cfg rq = Some (t_key t)" using assms(1,2) t by (auto simp: request_key_Some_iff)
  then have "task_origin P cfg rq up t"
    using phases_keep_failures[OF _ p2 p3] t by (simp add: task_origin_def)
  moreover have "spawned_by m rq h = [(rq, up, t)]" using assms(4) wire up by (simp add: spawned_by_def)
  ultimately show ?thesis by blast
qed

lemma spawned_origin:
  assumes "h_task (handle (at_moment m P) cfg gf tf c rq) = Some t"
  shows "\<exists>up. spawned_by m rq (handle (at_moment m P) cfg gf tf c rq) = [(rq, up, t)] \<and> task_origin P cfg rq up t"
  by (rule handle_task_forward[OF assms]) (rule forward_origin[OF _ _ _ assms], simp_all)

lemma spawned_by_None: "h_task h = None \<Longrightarrow> spawned_by m rq h = []"
  by (simp add: spawned_by_def)

subsection \<open>The invariant\<close>

definition stored_by :: "proxy_lib \<Rightarrow> (relay_task \<times> relay) list \<Rightarrow> row \<Rightarrow> bool" where
  "stored_by P log row \<longleftrightarrow>
     (\<exists>(t, r) \<in> set log. may_store t r \<and> r_key row = t_key t \<and> row_holds (cache_params P) row (exchange_of t r))"

definition relayed_some :: "relay_task \<Rightarrow> relay \<Rightarrow> bool" where
  "relayed_some t r \<longleftrightarrow> (\<exists>P gone. r = relay_loop P gone (t_do_cache t) 0 (t_stream t) [])"

definition server_inv :: "proxy_lib \<Rightarrow> server_config \<Rightarrow> server \<Rightarrow> bool" where
  "server_inv P cfg s \<longleftrightarrow>
     (\<forall>(rq, up, t) \<in> set (sv_spawned s). task_origin P cfg rq up t)
     \<and> set (sv_running s) \<subseteq> (snd \<circ> snd) ` set (sv_spawned s)
     \<and> (\<forall>(t, r) \<in> set (sv_done s). t \<in> (snd \<circ> snd) ` set (sv_spawned s) \<and> relayed_some t r)
     \<and> (\<forall>row \<in> set (entries (inner (sv_cache s))). stored_by P (sv_done s) row)"

lemma stored_by_weaken: "stored_by P log row \<Longrightarrow> stored_by P (x # log) row"
  by (auto simp: stored_by_def)

lemma stored_by_count:
  "stored_by P log row \<Longrightarrow> stored_by P log (row\<lparr>r_hit_count := n\<rparr>)"
  by (auto simp: stored_by_def row_holds_def)

text \<open>What the operations of the cache do to its rows: a lookup counts, a store adds one row.\<close>

lemma rows_cache_get:
  assumes "row \<in> set (entries (inner (snd (cache_get L fault c key))))"
  shows "\<exists>row0 \<in> set (entries (inner c)). \<exists>n. row = row0\<lparr>r_hit_count := n\<rparr>"
proof -
  have "entries (inner (snd (cache_get L fault c key))) = entries (inner c)
      \<or> entries (inner (snd (cache_get L fault c key))) = entries (update_hit_count key (inner c))"
    by (auto simp: cache_get_def count_miss_def count_hit_def split: option.split sum.split)
  moreover have "row \<in> set (entries (inner c)) \<or> row \<in> set (entries (update_hit_count key (inner c))) \<Longrightarrow> ?thesis"
    using exI[of "\<lambda>n. row = row\<lparr>r_hit_count := n\<rparr>" "r_hit_count row"]
    by (auto simp: update_hit_count_def)
  ultimately show ?thesis using assms by metis
qed

lemma entries_record_trace [simp]: "entries (inner (snd (record_trace fault c tid key))) = entries (inner c)"
  by (simp add: record_trace_def)

lemma rows_look_up:
  assumes "row \<in> set (entries (inner (snd (look_up P gf tf c tid key))))"
  shows "\<exists>row0 \<in> set (entries (inner c)). \<exists>n. row = row0\<lparr>r_hit_count := n\<rparr>"
proof (rule rows_cache_get)
  show "row \<in> set (entries (inner (snd (cache_get (cache_params P) gf c key))))"
    using assms by (auto simp: look_up_def split: prod.splits sum.splits option.splits)
qed

lemma rows_handle:
  assumes "row \<in> set (entries (inner (h_cache (handle P cfg gf tf c rq))))"
  shows "\<exists>row0 \<in> set (entries (inner c)). \<exists>n. row = row0\<lparr>r_hit_count := n\<rparr>"
proof -
  have "h_cache (handle P cfg gf tf c rq) = c \<or> (\<exists>tid key. h_cache (handle P cfg gf tf c rq) = snd (look_up P gf tf c tid key))"
    by (auto simp: handle_eq Let_def split: option.split sum.split prod.split) (metis snd_conv)+
  moreover have "\<exists>n. row = row\<lparr>r_hit_count := n\<rparr>" by (rule exI[of _ "r_hit_count row"]) simp
  ultimately show ?thesis using assms rows_look_up by metis
qed

lemma rows_store_exchange:
  assumes "serde_ok (cache_params P)" and "row \<in> set (entries (inner (store_exchange P pf tf c t e)))"
  shows "row \<in> set (entries (inner c)) \<or> r_key row = t_key t \<and> row_holds (cache_params P) row e"
proof (cases "print_exchange (cache_params P) e = None \<or> pf 0")
  case True
  with assms(2) show ?thesis by (auto simp: store_exchange_def cache_put_def split: option.splits)
next
  case False
  then have "cache_put (cache_params P) pf c (t_key t) (t_provider t) (t_model t) e
      = cache_put (cache_params P) no_fault c (t_key t) (t_provider t) (t_model t) e"
    by (auto simp: cache_put_def split: option.split)
  moreover obtain r where r: "inner (snd (cache_put (cache_params P) no_fault c (t_key t) (t_provider t) (t_model t) e))
        = insert_or_replace r (inner c)"
      "r_key r = t_key t" "row_holds (cache_params P) r e"
    using cache_put_select[OF assms(1), of e c "t_key t" "t_provider t" "t_model t"] False by metis
  ultimately have "entries (inner (store_exchange P pf tf c t e)) = entries (insert_or_replace r (inner c))"
    using False by (auto simp: store_exchange_def cache_put_def split: option.split)
  with assms(2) r(2,3) show ?thesis by (auto simp: insert_or_replace_def)
qed

subsection \<open>Every step keeps it\<close>

lemma server_inv_start: "entries (inner c) = [] \<Longrightarrow> server_inv P cfg (server_start c)"
  by (simp add: server_inv_def server_start_def)

lemma server_inv_rows:
  assumes "server_inv P cfg s"
    and "\<And>row. row \<in> set (entries (inner c')) \<Longrightarrow> \<exists>row0 \<in> set (entries (inner (sv_cache s))). \<exists>n. row = row0\<lparr>r_hit_count := n\<rparr>"
  shows "server_inv P cfg (s\<lparr>sv_cache := c'\<rparr>)"
proof -
  have "stored_by P (sv_done s) row" if "row \<in> set (entries (inner c'))" for row
    using assms(1) assms(2)[OF that] stored_by_count by (fastforce simp: server_inv_def)
  with assms(1) show ?thesis by (simp add: server_inv_def)
qed

lemma server_inv_same_rows:
  assumes "server_inv P cfg s" and "set (entries (inner c')) \<subseteq> set (entries (inner (sv_cache s)))"
  shows "server_inv P cfg (s\<lparr>sv_cache := c'\<rparr>)"
  using assms by (auto simp: server_inv_def)

lemma server_inv_request:
  assumes "server_inv P cfg s"
  shows "server_inv P cfg (serve_request P cfg m gf tf rq s)"
proof -
  let ?h = "handle (at_moment m P) cfg gf tf (sv_cache s) rq"
  have i: "server_inv P cfg (s\<lparr>sv_cache := h_cache ?h\<rparr>)"
    by (rule server_inv_rows[OF assms rows_handle])
  show ?thesis
  proof (cases "h_task ?h")
    case None
    have "serve_request P cfg m gf tf rq s = s\<lparr>sv_cache := h_cache ?h\<rparr>"
      by (simp add: serve_request_def Let_def None spawned_by_None)
    with i show ?thesis by simp
  next
    case (Some t)
    from spawned_origin[OF this] obtain up where "spawned_by m rq ?h = [(rq, up, t)]" "task_origin P cfg rq up t" by blast
    with i Some show ?thesis by (auto simp: server_inv_def serve_request_def Let_def)
  qed
qed

lemma server_inv_finish:
  assumes "serde_ok (cache_params P)" and "server_inv P cfg s" and "sv_running s = ts @ t # ts'"
    and "run_task (at_moment m P) gone pf tf (sv_cache s) t = (r, c')"
  shows "server_inv P cfg (s\<lparr>sv_cache := c', sv_running := ts @ ts', sv_done := (t, r) # sv_done s\<rparr>)"
proof -
  have t: "t \<in> (snd \<circ> snd) ` set (sv_spawned s)" "set (ts @ ts') \<subseteq> (snd \<circ> snd) ` set (sv_spawned s)"
    using assms(2,3) by (auto simp: server_inv_def)
  have r: "r = relay_loop (at_moment m P) gone (t_do_cache t) 0 (t_stream t) []"
    using assms(4) by (auto simp: run_task_def Let_def)
  have rows: "stored_by P ((t, r) # sv_done s) row" if row: "row \<in> set (entries (inner c'))" for row
  proof (cases "may_store t r")
    case False
    then have "c' = sv_cache s" using assms(4) by (auto simp: run_task_def Let_def)
    with row assms(2) show ?thesis by (auto simp: server_inv_def intro: stored_by_weaken)
  next
    case True
    then have c': "c' = store_exchange (at_moment m P) pf tf (sv_cache s) t (exchange_of t r)"
      using assms(4) by (auto simp: run_task_def Let_def)
    have "row \<in> set (entries (inner (sv_cache s))) \<or> r_key row = t_key t \<and> row_holds (cache_params P) row (exchange_of t r)"
      using rows_store_exchange[of "at_moment m P" row] row assms(1) by (auto simp: c' row_holds_def)
    then show ?thesis
    proof
      assume "row \<in> set (entries (inner (sv_cache s)))"
      with assms(2) show ?thesis by (auto simp: server_inv_def intro: stored_by_weaken)
    qed (use True in \<open>auto simp: stored_by_def\<close>)
  qed
  have "relayed_some t r" using r by (auto simp: relayed_some_def)
  with t rows assms(2) show ?thesis by (auto simp: server_inv_def)
qed

lemma server_step_inv:
  assumes "serde_ok (cache_params P)" and "server_step P cfg s s'" and "server_inv P cfg s"
  shows "server_inv P cfg s'"
  using assms(2)
proof (cases rule: server_step.cases)
  case (request m gf tf rq)
  then show ?thesis using server_inv_request[OF assms(3)] by simp
next
  case (finish ts t ts' m gone pf tf r c')
  then show ?thesis using server_inv_finish[OF assms(1,3)] by simp
next
  case (delete_stats msg fault)
  then show ?thesis using server_inv_same_rows[OF assms(3)] by (simp add: clear_stats_handler_entries)
next
  case (delete_cache msg fault)
  then show ?thesis using server_inv_same_rows[OF assms(3) clear_cache_handler_entries] by simp
qed

lemma server_reach_inv:
  assumes "server_reach P cfg c0 s" and "serde_ok (cache_params P)" and "entries (inner c0) = []"
  shows "server_inv P cfg s"
  using assms(1)
proof (induction rule: server_reach.induct)
  case start
  show ?case by (rule server_inv_start[OF assms(3)])
next
  case (step s s')
  show ?case by (rule server_step_inv[OF assms(2) step.hyps(2) step.IH])
qed

subsection \<open>Waiting for the pending writes\<close>

text \<open>
  \<open>wait_for_pending_writes\<close> holds the lock of the set, so that no handler adds a task meanwhile,
  and takes one ended task out of the set after the other until none is left. Which task ends next, at
  which moment, and what goes wrong for it is the environment's choice: one \<open>task_end\<close> for each
  turn of the loop.
\<close>

record task_end =
  te_pick :: nat
  te_moment :: moment
  te_gone :: "nat \<Rightarrow> bool"
  te_put_fault :: "nat \<Rightarrow> bool"
  te_trace_fault :: "nat \<Rightarrow> bool"

definition join_next :: "proxy_lib \<Rightarrow> task_end \<Rightarrow> server \<Rightarrow> server option" where
  "join_next P e s =
     (if sv_running s = [] then None
      else
        let i = te_pick e mod length (sv_running s);
            t = sv_running s ! i;
            (r, c') = run_task (at_moment (te_moment e) P) (te_gone e) (te_put_fault e) (te_trace_fault e) (sv_cache s) t
        in Some (s\<lparr>sv_cache := c', sv_running := take i (sv_running s) @ drop (Suc i) (sv_running s),
                   sv_done := (t, r) # sv_done s\<rparr>))"

lemma join_next_None [simp]: "join_next P e s = None \<longleftrightarrow> sv_running s = []"
  by (simp add: join_next_def Let_def split: prod.split)

lemma join_next_Some:
  assumes "join_next P e s = Some s'"
  obtains ts t ts' r c' where "sv_running s = ts @ t # ts'"
    and "run_task (at_moment (te_moment e) P) (te_gone e) (te_put_fault e) (te_trace_fault e) (sv_cache s) t = (r, c')"
    and "s' = s\<lparr>sv_cache := c', sv_running := ts @ ts', sv_done := (t, r) # sv_done s\<rparr>"
proof -
  let ?i = "te_pick e mod length (sv_running s)"
  from assms have "sv_running s \<noteq> []" by (auto simp: join_next_def)
  then have "?i < length (sv_running s)" by simp
  then have "sv_running s = take ?i (sv_running s) @ sv_running s ! ?i # drop (Suc ?i) (sv_running s)"
    by (rule id_take_nth_drop)
  then show thesis
    using assms \<open>sv_running s \<noteq> []\<close> by (auto simp: join_next_def Let_def split: prod.splits intro: that)
qed

lemma join_next_step: "join_next P e s = Some s' \<Longrightarrow> server_step P cfg s s'"
  by (erule join_next_Some) (simp add: server_step.finish)

function wait_for_pending_writes :: "proxy_lib \<Rightarrow> (nat \<Rightarrow> task_end) \<Rightarrow> server \<Rightarrow> server" where
  "wait_for_pending_writes P es s =
     (case join_next P (es 0) s of
        None \<Rightarrow> s
      | Some s' \<Rightarrow> wait_for_pending_writes P (\<lambda>n. es (Suc n)) s')"
  by pat_completeness auto

termination wait_for_pending_writes
  by (relation "measure (\<lambda>(P, es, s). length (sv_running s))") (auto elim: join_next_Some)

declare wait_for_pending_writes.simps [simp del]

lemma wait_reach: "server_reach P cfg c0 s \<Longrightarrow> server_reach P cfg c0 (wait_for_pending_writes P es s)"
proof (induction P es s rule: wait_for_pending_writes.induct)
  case (1 P es s)
  show ?case
  proof (cases "join_next P (es 0) s")
    case (Some s')
    with "1.prems" have "server_reach P cfg c0 s'" by (rule server_reach.step[OF _ join_next_step])
    with "1.IH"[OF Some] Some show ?thesis by (simp add: wait_for_pending_writes.simps[of P es s])
  qed (use "1.prems" in \<open>simp add: wait_for_pending_writes.simps[of P es s] del: join_next_None\<close>)
qed

lemma wait_empties: "sv_running (wait_for_pending_writes P es s) = []"
proof (induction P es s rule: wait_for_pending_writes.induct)
  case (1 P es s)
  then show ?case by (subst wait_for_pending_writes.simps) (auto split: option.split)
qed

lemma wait_spawned [simp]: "sv_spawned (wait_for_pending_writes P es s) = sv_spawned s"
proof (induction P es s rule: wait_for_pending_writes.induct)
  case (1 P es s)
  show ?case
    by (subst wait_for_pending_writes.simps) (use 1 in \<open>auto split: option.split elim!: join_next_Some\<close>)
qed

text \<open>Every task that was spawned either runs or has ended, and none is counted twice.\<close>

definition accounted :: "server \<Rightarrow> bool" where
  "accounted s \<longleftrightarrow> mset (map (snd \<circ> snd) (sv_spawned s)) = mset (sv_running s) + mset (map fst (sv_done s))"

lemma accounted_step: "server_step P cfg s s' \<Longrightarrow> accounted s \<Longrightarrow> accounted s'"
proof (induction rule: server_step.induct)
  case (request s m gf tf rq)
  then show ?case
    by (cases "h_task (handle (at_moment m P) cfg gf tf (sv_cache s) rq)")
       (use spawned_origin[of m P cfg gf tf "sv_cache s" rq] in
        \<open>auto simp: accounted_def serve_request_def Let_def spawned_by_None\<close>)
qed (auto simp: accounted_def)

lemma accounted_reach: "server_reach P cfg c0 s \<Longrightarrow> accounted s"
proof (induction rule: server_reach.induct)
  case start
  show ?case by (simp add: accounted_def server_start_def)
qed (rule accounted_step)

text \<open>A log of ended tasks whose successes are all in the cache, each under its key; of several with
  one key the entry is that of one of them.\<close>

definition log_stored :: "proxy_lib \<Rightarrow> cache \<Rightarrow> (relay_task \<times> relay) list \<Rightarrow> bool" where
  "log_stored P c log \<longleftrightarrow>
     (\<forall>(t, r) \<in> set log. may_store t r \<and> print_exchange (cache_params P) (exchange_of t r) \<noteq> None \<longrightarrow>
        (\<exists>row \<in> set (entries (inner c)). r_key row = t_key t \<and> stored_by P log row))"

lemma entries_store_exchange:
  assumes "serde_ok (cache_params P)" and "print_exchange (cache_params P) e \<noteq> None"
  obtains row where "entries (inner (store_exchange P no_fault tf c t e))
      = filter (\<lambda>r. r_key r \<noteq> t_key t) (entries (inner c)) @ [row]"
    and "r_key row = t_key t" and "row_holds (cache_params P) row e"
proof -
  obtain row where row: "inner (snd (cache_put (cache_params P) no_fault c (t_key t) (t_provider t) (t_model t) e))
        = insert_or_replace row (inner c)"
    "r_key row = t_key t" "row_holds (cache_params P) row e"
    using cache_put_select[OF assms, of c "t_key t" "t_provider t" "t_model t"] by metis
  have "entries (inner (store_exchange P no_fault tf c t e)) = entries (insert_or_replace row (inner c))"
    using row(1) by (auto simp: store_exchange_def split: prod.split sum.split option.split)
  then show thesis using row(2,3) by (intro that[of row]) (simp_all add: insert_or_replace_def)
qed

lemma log_stored_task:
  assumes "log_stored P c log" and "serde_ok (cache_params P)"
    and "run_task (at_moment m P) gone no_fault tf c t = (r, c')"
  shows "log_stored P c' ((t, r) # log)"
proof (cases "may_store t r \<and> print_exchange (cache_params P) (exchange_of t r) \<noteq> None")
  case False
  then have "c' = c" using assms(3) by (auto simp: run_task_def Let_def store_exchange_def cache_put_def)
  with assms(1) False show ?thesis by (fastforce simp: log_stored_def intro: stored_by_weaken)
next
  case True
  then have c': "c' = store_exchange (at_moment m P) no_fault tf c t (exchange_of t r)"
    using assms(3) by (auto simp: run_task_def Let_def)
  obtain row where e: "entries (inner c') = filter (\<lambda>r. r_key r \<noteq> t_key t) (entries (inner c)) @ [row]"
    "r_key row = t_key t" "row_holds (cache_params P) row (exchange_of t r)"
    using entries_store_exchange[of "at_moment m P" "exchange_of t r" tf c t] assms(2) True
    by (auto simp: c' serde_ok_def row_holds_def)
  then have new: "stored_by P ((t, r) # log) row" using True by (auto simp: stored_by_def)
  show ?thesis
    unfolding log_stored_def
  proof clarify
    fix t' r' s assume "(t', r') \<in> set ((t, r) # log)" "may_store t' r'"
      "print_exchange (cache_params P) (exchange_of t' r') = Some s"
    then show "\<exists>row \<in> set (entries (inner c')). r_key row = t_key t' \<and> stored_by P ((t, r) # log) row"
      using assms(1) e new by (cases "t_key t' = t_key t") (fastforce simp: log_stored_def intro: stored_by_weaken)+
  qed
qed

lemma wait_stores:
  assumes "\<forall>n. te_put_fault (es n) = no_fault" and "serde_ok (cache_params P)" and "log_stored P (sv_cache s) log"
  shows "\<exists>new. sv_done (wait_for_pending_writes P es s) = new @ sv_done s \<and> mset (map fst new) = mset (sv_running s)
     \<and> log_stored P (sv_cache (wait_for_pending_writes P es s)) (new @ log)"
  using assms
proof (induction P es s arbitrary: log rule: wait_for_pending_writes.induct)
  case (1 P es s)
  show ?case
  proof (cases "join_next P (es 0) s")
    case None
    then show ?thesis using "1.prems"(3) join_next_None[of P "es 0" s]
      by (simp add: wait_for_pending_writes.simps[of P es s] del: join_next_None)
  next
    case (Some s')
    then obtain ts t ts' r c' where s': "sv_running s = ts @ t # ts'"
      "run_task (at_moment (te_moment (es 0)) P) (te_gone (es 0)) (te_put_fault (es 0)) (te_trace_fault (es 0)) (sv_cache s) t = (r, c')"
      "s' = s\<lparr>sv_cache := c', sv_running := ts @ ts', sv_done := (t, r) # sv_done s\<rparr>" by (rule join_next_Some)
    have "log_stored P (sv_cache s') ((t, r) # log)"
      using log_stored_task[OF "1.prems"(3,2) s'(2)[unfolded "1.prems"(1)[rule_format]]] s'(3) by simp
    with "1.IH"[OF Some _ "1.prems"(2)] "1.prems"(1) obtain new where
      new: "sv_done (wait_for_pending_writes P (\<lambda>n. es (Suc n)) s') = new @ sv_done s'" "mset (map fst new) = mset (sv_running s')"
        "log_stored P (sv_cache (wait_for_pending_writes P (\<lambda>n. es (Suc n)) s')) (new @ (t, r) # log)" by auto
    have w: "wait_for_pending_writes P es s = wait_for_pending_writes P (\<lambda>n. es (Suc n)) s'"
      by (subst wait_for_pending_writes.simps) (simp add: Some)
    show ?thesis unfolding w
      by (rule exI[of _ "new @ [(t, r)]"]) (use new s' in simp)
  qed
qed

subsection \<open>Properties\<close>

text \<open>Only complete successes are in the cache. However requests, tasks and admin calls interleave,
  with whatever failing SQL statements, disconnecting clients and upstream answers: every entry of a
  cache that was empty at the start was stored for a request that was not a bypass, under that
  request's key, by a task that relayed its whole stream to the client; the upstream had answered with
  a 2xx and its response did not break off; and the entry holds, as text, exactly the bytes the client
  was sent, with the upstream's status.\<close>

theorem cached_entries_are_complete_successes:
  assumes "server_reach P cfg c0 s" and "serde_ok (cache_params P)" and "entries (inner c0) = []"
    and "list_all keeps_failures (extensions cfg)" and "row \<in> set (entries (inner (sv_cache s)))"
  shows "\<exists>rq up t r e. (rq, up, t) \<in> set (sv_spawned s) \<and> (t, r) \<in> set (sv_done s)
    \<and> request_key P cfg rq = Some (r_key row) \<and> \<not> is_bypass P rq
    \<and> is_success (up_status up) \<and> \<not> list_ex is_fail (up_stream up)
    \<and> rl_end r = Completed \<and> rl_sent r = map Inr (chunks_of (t_stream t))
    \<and> row_holds (cache_params P) row e \<and> status e = up_status up
    \<and> chunks_text (chunks e) = concat (chunks_of (t_stream t)) \<and> valid_utf8 (chunks_text (chunks e))"
proof -
  note inv = server_reach_inv[OF assms(1-3)]
  from inv assms(5) obtain t r where tr: "(t, r) \<in> set (sv_done s)" "may_store t r" "r_key row = t_key t"
    "row_holds (cache_params P) row (exchange_of t r)" by (fastforce simp: server_inv_def stored_by_def)
  from inv tr(1) obtain rq up where sp: "(rq, up, t) \<in> set (sv_spawned s)" and o: "task_origin P cfg rq up t"
    and "relayed_some t r" by (fastforce simp: server_inv_def)
  then obtain P' gone where r: "r = relay_loop P' gone (t_do_cache t) 0 (t_stream t) []" by (auto simp: relayed_some_def)
  note m = may_store_relay[OF r tr(2)]
  have v: "valid_utf8 (response_buf r)" "rl_end r = Completed" "t_do_cache t" using tr(2) by (simp_all add: may_store_def)
  have "chunks_text (chunks (exchange_of t r)) = concat (chunks_of (t_stream t))"
    using exchange_of_text(1)[OF v(1), of t] m(3) by simp
  moreover have "status (exchange_of t r) = up_status up" using o by (simp add: exchange_of_def task_origin_def)
  ultimately show ?thesis using sp tr o m v assms(4)
    by (intro exI[of _ rq] exI[of _ up] exI[of _ t] exI[of _ r] exI[of _ "exchange_of t r"])
       (auto simp: task_origin_def)
qed

definition wit_server :: server where
  "wit_server = \<lparr>sv_cache = wit_after, sv_running = [], sv_spawned = [(wit_rq, wit_upstream, wit_task)],
     sv_done = [(wit_task, wit_relay)]\<rparr>"

lemma wit_server_reach: "server_reach wit_proxy wit_cfg wit_empty wit_server"
proof -
  let ?s = "serve_request wit_proxy wit_cfg wit_moment no_fault no_fault wit_rq (server_start wit_empty)"
  have s: "?s = \<lparr>sv_cache = h_cache wit_miss, sv_running = [wit_task], sv_spawned = [(wit_rq, wit_upstream, wit_task)],
      sv_done = []\<rparr>"
    by (simp add: serve_request_def server_start_def wit_handle spawned_by_def Let_def)
       (simp add: wit_miss_def wit_moment_def)
  have "server_step wit_proxy wit_cfg ?s (?s\<lparr>sv_cache := wit_after, sv_running := [] @ [],
      sv_done := (wit_task, wit_relay) # sv_done ?s\<rparr>)"
    by (rule server_step.finish[where ts = "[]" and ts' = "[]" and t = wit_task and m = wit_moment])
       (use wit_run_task in \<open>simp_all add: s\<close>)
  then have "server_step wit_proxy wit_cfg ?s wit_server" by (simp add: s wit_server_def)
  then show ?thesis by (meson server_reach.start server_reach.step server_step.request)
qed

theorem cached_entries_are_complete_successes_witness:
  "\<exists>row e. entries (inner (sv_cache wit_server)) = [row] \<and> row_holds (cache_params wit_proxy) row e
     \<and> chunks_text (chunks e) = ''data: '' @ [CHR 0xC3, CHR 0xA9]"
proof -
  have e: "length (entries (inner wit_after)) = 1" by code_simp
  then obtain row where row: "entries (inner wit_after) = [row]" by (cases "entries (inner wit_after)") auto
  have 0: "entries (inner wit_empty) = []" by (simp add: wit_empty_def init_schema_def)
  have k: "list_all keeps_failures (extensions wit_cfg)" by (simp add: wit_cfg_def)
  have "row \<in> set (entries (inner (sv_cache wit_server)))" by (simp add: wit_server_def row)
  from cached_entries_are_complete_successes[OF wit_server_reach wit_store_serde 0 k this]
  obtain t e where "t = wit_task" "row_holds (cache_params wit_proxy) row e"
    "chunks_text (chunks e) = concat (chunks_of (t_stream t))"
    by (auto simp: wit_server_def)
  then show ?thesis using row by (auto simp: wit_server_def wit_task_def wit_upstream_def)
qed


text \<open>The witness waits for the one task of the witnesses.\<close>

definition wit_busy :: server where
  "wit_busy = serve_request wit_proxy wit_cfg wit_moment no_fault no_fault wit_rq (server_start wit_empty)"

definition wit_end :: task_end where
  "wit_end = \<lparr>te_pick = 5, te_moment = wit_moment, te_gone = no_fault, te_put_fault = no_fault, te_trace_fault = no_fault\<rparr>"

lemma wit_busy_sel: "sv_running wit_busy = [wit_task]" "sv_done wit_busy = []" "sv_cache wit_busy = h_cache wit_miss"
  by (simp_all add: wit_busy_def serve_request_def server_start_def wit_handle Let_def) (simp_all add: wit_miss_def)

lemma wit_wait:
  "sv_done (wait_for_pending_writes wit_proxy (\<lambda>_. wit_end) wit_busy) = [(wit_task, wit_relay)]"
proof -
  have j: "join_next wit_proxy wit_end wit_busy
      = Some (wit_busy\<lparr>sv_cache := wit_after, sv_running := [], sv_done := [(wit_task, wit_relay)]\<rparr>)"
    by (simp add: join_next_def wit_busy_sel wit_end_def wit_run_task Let_def)
  show ?thesis
    by (simp add: wait_for_pending_writes.simps[of wit_proxy "\<lambda>_. wit_end" wit_busy] j)
       (simp add: wait_for_pending_writes.simps join_next_def)
qed


end
