(* ===== verification/Interleaving.thy ===== *)
theory Interleaving
  imports Serving
begin

text \<open>
  The same server with smaller steps. Between two calls of the cache (which its mutex makes atomic)
  anything else can happen: other handlers look up and store, other tasks relay, an admin call empties
  the tables. A handler of \<open>proxy.rs\<close> is therefore a sequence of phases (\<open>handler_step\<close>), one
  cache call each: the lookup, the trace entry of a hit, and the way to the upstream up to the spawned
  task, which makes none. A task is a sequence of phases too (\<open>task_step\<close>): one for every event of
  the stream, one for the store, one for the trace entry. Running the phases without a break is
  \<open>handle\<close> and \<open>run_task\<close>, and every run of the server of the theory \<open>Serving\<close> is a run of this
  one. A handler can also be dropped between two phases (its client went away), and so can a task
  (the server is shut down).
\<close>

subsection \<open>The phases of a handler\<close>

datatype phase =
    Arrived
  | HitFound exchange string
  | Missed provider proxy_ctx string "string option" bytes

fun handler_step ::
  "proxy_lib \<Rightarrow> server_config \<Rightarrow> (nat \<Rightarrow> bool) \<Rightarrow> http_request \<Rightarrow> phase \<Rightarrow> cache \<Rightarrow> phase \<times> cache + handled" where
  "handler_step P cfg fault rq Arrived c =
     (case from_prefix (rq_provider rq) of
        None \<Rightarrow> Inr (answered (Some (plain_reply 404 (''unknown provider: '' @ rq_provider rq))) c)
      | Some p \<Rightarrow>
          (case run_phase1 (extensions cfg) (first_ctx p rq) (rq_body rq) of
             Inl e \<Rightarrow> Inr (answered (Some (plain_reply 500 ''extension error'')) c)
           | Inr body \<Rightarrow>
               (let (key, model_from_body) =
                      cache_key_and_model (blake3_hex P) (json P) p (rq_method rq) (full_path_of rq) body;
                    missed = Missed p ((first_ctx p rq)\<lparr>px_cache_key := Some key\<rparr>) key model_from_body body
                in if is_bypass P rq then Inl (missed, c)
                   else (case cache_get (cache_params P) fault c key of
                           (Inr (Some e), c') \<Rightarrow> Inl (HitFound e key, c')
                         | (Inr None, c') \<Rightarrow> Inl (missed, c')
                         | (Inl _, c') \<Rightarrow> Inl (missed, c')))))"
| "handler_step P cfg fault rq (HitFound e key) c =
     Inr (answered (serve_cached P e key)
       (case trace_id_of P rq of None \<Rightarrow> c | Some tid \<Rightarrow> snd (record_trace fault c tid key)))"
| "handler_step P cfg fault rq (Missed p ctx key model_from_body body) c =
     Inr (forward_request P cfg p (is_bypass P rq) rq ctx key model_from_body body c)"

text \<open>Without a break the phases are the handler.\<close>

lemma handler_phases:
  "handler_step P cfg gf rq Arrived c = Inr (handle P cfg gf tf c rq)
   \<or> (\<exists>ph c'. handler_step P cfg gf rq Arrived c = Inl (ph, c')
        \<and> handler_step P cfg tf rq ph c' = Inr (handle P cfg gf tf c rq))"
  by (auto simp: handle_eq look_up_def key_and_model_split key_of_def Let_def
      split: option.split sum.split prod.split)

subsection \<open>The phases of a task\<close>

datatype task_phase =
    Relaying nat response_stream "(u64 \<times> bytes) list" "(string + bytes) list"
  | Storing relay
  | Recording string relay

definition first_phase :: "relay_task \<Rightarrow> task_phase" where
  "first_phase t = Relaying 0 (t_stream t) [] []"

text \<open>After the loop: the response is stored, or the task is over.\<close>

definition loop_ends :: "relay_task \<Rightarrow> relay \<Rightarrow> cache \<Rightarrow> task_phase \<times> cache + relay \<times> cache" where
  "loop_ends t r c = (if may_store t r then Inl (Storing r, c) else Inr (r, c))"

fun task_step ::
  "proxy_lib \<Rightarrow> (nat \<Rightarrow> bool) \<Rightarrow> (nat \<Rightarrow> bool) \<Rightarrow> relay_task \<Rightarrow> task_phase \<Rightarrow> cache
   \<Rightarrow> task_phase \<times> cache + relay \<times> cache" where
  "task_step P gone fault t (Relaying n [] raw sent) c =
     loop_ends t \<lparr>rl_sent = sent, rl_raw = raw, rl_end = Completed\<rparr> c"
| "task_step P gone fault t (Relaying n (Pend # evs) raw sent) c = Inl (Relaying n evs raw sent, c)"
| "task_step P gone fault t (Relaying n (Chunk bytes # evs) raw sent) c =
     (let raw' = (if t_do_cache t then raw @ [(word_of_int (elapsed_ms P n), bytes)] else raw)
      in if gone n then loop_ends t \<lparr>rl_sent = sent, rl_raw = raw', rl_end = Broken\<rparr> c
         else Inl (Relaying (Suc n) evs raw' (sent @ [Inr bytes]), c))"
| "task_step P gone fault t (Relaying n (Fail e # evs) raw sent) c =
     loop_ends t \<lparr>rl_sent = sent @ (if gone n then [] else [Inl e]), rl_raw = raw, rl_end = Broken\<rparr> c"
| "task_step P gone fault t (Relaying n (Abort # evs) raw sent) c =
     loop_ends t \<lparr>rl_sent = sent, rl_raw = raw, rl_end = Crashed\<rparr> c"
| "task_step P gone fault t (Storing r) c =
     (case cache_put (cache_params P) fault c (t_key t) (t_provider t) (t_model t) (exchange_of t r) of
        (Inl _, c') \<Rightarrow> Inr (r, c')
      | (Inr _, c') \<Rightarrow> (case t_trace t of None \<Rightarrow> Inr (r, c') | Some tid \<Rightarrow> Inl (Recording tid r, c')))"
| "task_step P gone fault t (Recording tid r) c = Inr (r, snd (record_trace fault c tid (t_key t)))"

text \<open>Without a break the phases are the task. The number of turns is at most that of the events and
  three.\<close>

fun task_turns :: "task_phase \<Rightarrow> nat" where
  "task_turns (Relaying n evs raw sent) = length evs + 3"
| "task_turns (Storing r) = 2"
| "task_turns (Recording tid r) = 1"

lemma task_step_turns: "task_step P gone fault t ph c = Inl (ph', c') \<Longrightarrow> task_turns ph' < task_turns ph"
  by (induction P gone fault t ph c rule: task_step.induct)
     (auto simp: loop_ends_def Let_def split: if_splits prod.splits sum.splits option.splits)

fun task_fault :: "(nat \<Rightarrow> bool) \<Rightarrow> (nat \<Rightarrow> bool) \<Rightarrow> task_phase \<Rightarrow> nat \<Rightarrow> bool" where
  "task_fault pf tf (Storing r) = pf"
| "task_fault pf tf ph = tf"

inductive task_runs ::
  "proxy_lib \<Rightarrow> (nat \<Rightarrow> bool) \<Rightarrow> (nat \<Rightarrow> bool) \<Rightarrow> (nat \<Rightarrow> bool) \<Rightarrow> relay_task \<Rightarrow> task_phase \<times> cache \<Rightarrow> relay \<times> cache \<Rightarrow> bool"
  for P gone pf tf t where
  last: "task_step P gone (task_fault pf tf ph) t ph c = Inr rc \<Longrightarrow> task_runs P gone pf tf t (ph, c) rc"
| turn: "task_step P gone (task_fault pf tf ph) t ph c = Inl (ph', c') \<Longrightarrow>
     task_runs P gone pf tf t (ph', c') rc \<Longrightarrow> task_runs P gone pf tf t (ph, c) rc"

lemma task_runs_storing:
  "task_runs P gone pf tf t (Storing r, c) (r, store_exchange P pf tf c t (exchange_of t r))"
proof (cases "cache_put (cache_params P) pf c (t_key t) (t_provider t) (t_model t) (exchange_of t r)")
  case (Pair res c')
  have "task_runs P gone pf tf t (Recording tid r, c') (r, snd (record_trace tf c' tid (t_key t)))" for tid
    by (rule task_runs.last) simp
  with Pair show ?thesis
    by (cases res; cases "t_trace t")
       (auto simp: store_exchange_def intro: task_runs.last task_runs.turn)
qed

lemma task_runs_ended:
  assumes "task_step P gone tf t (Relaying n evs raw sent) c = loop_ends t r c"
    and "c' = (if may_store t r then store_exchange P pf tf c t (exchange_of t r) else c)"
  shows "task_runs P gone pf tf t (Relaying n evs raw sent, c) (r, c')"
proof (cases "may_store t r")
  case True
  show ?thesis
    by (rule task_runs.turn[of _ _ _ _ _ _ _ "Storing r" c])
       (use assms True task_runs_storing in \<open>simp_all add: loop_ends_def\<close>)
next
  case False
  then show ?thesis using assms by (intro task_runs.last) (simp add: loop_ends_def)
qed

lemma task_runs_relaying:
  "task_runs P gone pf tf t (Relaying n evs raw sent, c)
     (let r = relay_loop P gone (t_do_cache t) n evs raw; r' = r\<lparr>rl_sent := sent @ rl_sent r\<rparr>
      in (r', if may_store t r' then store_exchange P pf tf c t (exchange_of t r') else c))"
proof (induction evs arbitrary: n raw sent)
  case Nil
  show ?case by (simp add: Let_def del: fun_upd_apply) (auto intro!: task_runs_ended)
next
  case (Cons ev evs)
  show ?case
  proof (cases ev)
    case Pend
    then show ?thesis using Cons.IH[of n raw sent] by (auto intro: task_runs.turn)
  next
    case (Chunk b)
    show ?thesis
    proof (cases "gone n")
      case True
      with Chunk show ?thesis by (auto simp: Let_def intro!: task_runs_ended)
    next
      case False
      define raw' q where q: "raw' = (if t_do_cache t then raw @ [(word_of_int (elapsed_ms P n), b)] else raw)"
        "q = relay_loop P gone (t_do_cache t) (Suc n) evs raw'"
      have turn: "task_step P gone (task_fault pf tf (Relaying n (ev # evs) raw sent)) t (Relaying n (ev # evs) raw sent) c
          = Inl (Relaying (Suc n) evs raw' (sent @ [Inr b]), c)"
        using Chunk False by (simp add: Let_def q(1))
      have "relay_loop P gone (t_do_cache t) n (ev # evs) raw = q\<lparr>rl_sent := Inr b # rl_sent q\<rparr>"
        using Chunk False by (simp add: Let_def q)
      with task_runs.turn[OF turn Cons.IH[of "Suc n" raw' "sent @ [Inr b]"]] show ?thesis
        by (simp add: Let_def q(2)[symmetric] split: if_splits)
    qed
  qed (auto simp: Let_def intro!: task_runs_ended)
qed

lemma task_phases: "task_runs P gone pf tf t (first_phase t, c) (run_task P gone pf tf c t)"
  using task_runs_relaying[of P gone pf tf t 0 "t_stream t" "[]" "[]" c]
  by (simp add: first_phase_def run_task_def Let_def)

subsection \<open>The server\<close>

text \<open>
  The state: the shared cache, the handlers in flight and the running tasks. The other fields are
  histories that only the theorems look at: the requests that arrived, the tasks spawned with their
  request and the response of the upstream, the responses stored, the tasks that ended, the answers
  given, the requests sent to the upstream, and the results of the lookups since the statistics were
  last reset.
\<close>

record world =
  w_cache :: cache
  w_handlers :: "(http_request \<times> phase) list"
  w_tasks :: "(relay_task \<times> task_phase) list"
  w_arrived :: "http_request list"
  w_spawned :: "(http_request \<times> upstream_response \<times> relay_task) list"
  w_stored :: "(relay_task \<times> relay) list"
  w_done :: "(relay_task \<times> relay) list"
  w_answers :: "(http_request \<times> response option) list"
  w_sent :: "(http_request \<times> upstream_request) list"
  w_lookups :: "(cache_error + exchange option) list"

definition world_start :: "cache \<Rightarrow> world" where
  "world_start c = \<lparr>w_cache = c, w_handlers = [], w_tasks = [], w_arrived = [], w_spawned = [], w_stored = [],
     w_done = [], w_answers = [], w_sent = [], w_lookups = []\<rparr>"

definition looked_up ::
  "proxy_lib \<Rightarrow> server_config \<Rightarrow> (nat \<Rightarrow> bool) \<Rightarrow> http_request \<Rightarrow> phase \<Rightarrow> cache \<Rightarrow> (cache_error + exchange option) list" where
  "looked_up P cfg fault rq ph c =
     (case request_key P cfg rq of
        Some key \<Rightarrow> if ph = Arrived \<and> \<not> is_bypass P rq then [fst (cache_get (cache_params P) fault c key)] else []
      | None \<Rightarrow> [])"

fun stored_now :: "proxy_lib \<Rightarrow> (nat \<Rightarrow> bool) \<Rightarrow> relay_task \<Rightarrow> task_phase \<Rightarrow> cache \<Rightarrow> (relay_task \<times> relay) list" where
  "stored_now P fault t (Storing r) c =
     (case fst (cache_put (cache_params P) fault c (t_key t) (t_provider t) (t_model t) (exchange_of t r)) of
        Inr _ \<Rightarrow> [(t, r)] | Inl _ \<Rightarrow> [])"
| "stored_now P fault t ph c = []"

text \<open>An answered handler, and the task it may have spawned.\<close>

definition answer :: "moment \<Rightarrow> http_request \<Rightarrow> handled \<Rightarrow> (http_request \<times> phase) list \<Rightarrow> world \<Rightarrow> world" where
  "answer m rq h others w =
     w\<lparr>w_cache := h_cache h, w_handlers := others,
       w_tasks := w_tasks w @ (case h_task h of Some t \<Rightarrow> [(t, first_phase t)] | None \<Rightarrow> []),
       w_spawned := spawned_by m rq h @ w_spawned w, w_answers := (rq, h_reply h) # w_answers w,
       w_sent := (case h_wire h of Some wire \<Rightarrow> [(rq, wire)] | None \<Rightarrow> []) @ w_sent w\<rparr>"

inductive world_step :: "proxy_lib \<Rightarrow> server_config \<Rightarrow> world \<Rightarrow> world \<Rightarrow> bool" for P cfg where
  arrive: "world_step P cfg w (w\<lparr>w_handlers := w_handlers w @ [(rq, Arrived)], w_arrived := rq # w_arrived w\<rparr>)"
| handler: "w_handlers w = hs @ (rq, ph) # hs' \<Longrightarrow>
     handler_step (at_moment m P) cfg fault rq ph (w_cache w) = Inl (ph', c') \<Longrightarrow>
     world_step P cfg w (w\<lparr>w_cache := c', w_handlers := hs @ (rq, ph') # hs',
       w_lookups := looked_up (at_moment m P) cfg fault rq ph (w_cache w) @ w_lookups w\<rparr>)"
| answers: "w_handlers w = hs @ (rq, ph) # hs' \<Longrightarrow>
     handler_step (at_moment m P) cfg fault rq ph (w_cache w) = Inr h \<Longrightarrow>
     world_step P cfg w (answer m rq h (hs @ hs') w)"
| task: "w_tasks w = ts @ (t, ph) # ts' \<Longrightarrow>
     task_step (at_moment m P) gone fault t ph (w_cache w) = Inl (ph', c') \<Longrightarrow>
     world_step P cfg w (w\<lparr>w_cache := c', w_tasks := ts @ (t, ph') # ts',
       w_stored := stored_now (at_moment m P) fault t ph (w_cache w) @ w_stored w\<rparr>)"
| ends: "w_tasks w = ts @ (t, ph) # ts' \<Longrightarrow>
     task_step (at_moment m P) gone fault t ph (w_cache w) = Inr (r, c') \<Longrightarrow>
     world_step P cfg w (w\<lparr>w_cache := c', w_tasks := ts @ ts',
       w_stored := stored_now (at_moment m P) fault t ph (w_cache w) @ w_stored w, w_done := (t, r) # w_done w\<rparr>)"
| cancel: "w_handlers w = hs @ (rq, ph) # hs' \<Longrightarrow> world_step P cfg w (w\<lparr>w_handlers := hs @ hs'\<rparr>)"
| abort: "w_tasks w = ts @ (t, ph) # ts' \<Longrightarrow> world_step P cfg w (w\<lparr>w_tasks := ts @ ts'\<rparr>)"
| no_stats: "clear_stats_handler msg fault (w_cache w) = (rep, c') \<Longrightarrow>
     world_step P cfg w (w\<lparr>w_cache := c', w_lookups := (if fst rep = 200 then [] else w_lookups w)\<rparr>)"
| no_entries: "clear_cache_handler msg fault (w_cache w) = (rep, c') \<Longrightarrow> world_step P cfg w (w\<lparr>w_cache := c'\<rparr>)"

inductive world_reach :: "proxy_lib \<Rightarrow> server_config \<Rightarrow> cache \<Rightarrow> world \<Rightarrow> bool" for P cfg c0 where
  start: "world_reach P cfg c0 (world_start c0)"
| step: "world_reach P cfg c0 w \<Longrightarrow> world_step P cfg w w' \<Longrightarrow> world_reach P cfg c0 w'"

subsection \<open>The invariant\<close>

text \<open>A response that was relayed in full.\<close>

definition relayed_all :: "relay_task \<Rightarrow> relay \<Rightarrow> bool" where
  "relayed_all t r \<longleftrightarrow> may_store t r \<and> \<not> list_ex is_fail (t_stream t)
     \<and> rl_sent r = map Inr (chunks_of (t_stream t)) \<and> map snd (rl_raw r) = chunks_of (t_stream t)"

text \<open>A handler on its way to the upstream has what the first phase and the key made of its request.\<close>

fun way_ok :: "proxy_lib \<Rightarrow> server_config \<Rightarrow> http_request \<times> phase \<Rightarrow> bool" where
  "way_ok P cfg (rq, Missed p ctx key model body) \<longleftrightarrow>
     from_prefix (rq_provider rq) = Some p \<and> run_phase1 (extensions cfg) (first_ctx p rq) (rq_body rq) = Inr body
     \<and> key = key_of P p rq body \<and> ctx = (first_ctx p rq)\<lparr>px_cache_key := Some key\<rparr>"
| "way_ok P cfg (rq, ph) = True"

fun handler_ok :: "proxy_lib \<Rightarrow> server_config \<Rightarrow> (relay_task \<times> relay) list \<Rightarrow> http_request \<times> phase \<Rightarrow> bool" where
  "handler_ok P cfg st (rq, Arrived) = True"
| "handler_ok P cfg st (rq, HitFound e key) \<longleftrightarrow>
     \<not> is_bypass P rq \<and> request_key P cfg rq = Some key \<and> (\<exists>(t, r) \<in> set st. t_key t = key \<and> e = exchange_of t r)"
| "handler_ok P cfg st (rq, Missed p ctx key model body) \<longleftrightarrow> way_ok P cfg (rq, Missed p ctx key model body)"

fun task_ok :: "(relay_task \<times> relay) list \<Rightarrow> relay_task \<times> task_phase \<Rightarrow> bool" where
  "task_ok st (t, Relaying n evs raw sent) \<longleftrightarrow>
     (\<exists>pre. t_stream t = pre @ evs \<and> \<not> list_ex is_fail pre \<and> sent = map Inr (chunks_of pre)
        \<and> (t_do_cache t \<longrightarrow> map snd raw = chunks_of pre))"
| "task_ok st (t, Storing r) \<longleftrightarrow> relayed_all t r"
| "task_ok st (t, Recording tid r) \<longleftrightarrow> (t, r) \<in> set st \<and> t_trace t = Some tid"

definition trace_ok ::
  "proxy_lib \<Rightarrow> server_config \<Rightarrow> http_request list \<Rightarrow> (relay_task \<times> relay) list \<Rightarrow> string \<times> string \<Rightarrow> bool" where
  "trace_ok P cfg ar st tk \<longleftrightarrow>
     (\<exists>rq \<in> set ar. trace_id_of P rq = Some (fst tk) \<and> request_key P cfg rq = Some (snd tk) \<and> \<not> is_bypass P rq)
     \<and> (\<exists>(t, r) \<in> set st. t_key t = snd tk)"

definition answer_ok ::
  "proxy_lib \<Rightarrow> server_config \<Rightarrow> (relay_task \<times> relay) list \<Rightarrow> http_request \<times> response option \<Rightarrow> bool" where
  "answer_ok P cfg st a \<longleftrightarrow>
     (\<forall>rsp bs. snd a = Some rsp \<and> rs_body rsp = Replay bs \<longrightarrow> \<not> is_bypass P (fst a)
        \<and> (\<exists>(t, r) \<in> set st. request_key P cfg (fst a) = Some (t_key t) \<and> rs_status rsp = t_status t
             \<and> map_of (rs_headers rsp) ''content-type'' = Some (t_content_type t)
             \<and> bs = map data (chunks (exchange_of t r))))"

text \<open>What goes to the upstream is the outcome of the two phases on the request.\<close>

definition sent_ok :: "proxy_lib \<Rightarrow> server_config \<Rightarrow> http_request \<Rightarrow> upstream_request \<Rightarrow> bool" where
  "sent_ok P cfg rq wire \<longleftrightarrow>
     (\<exists>p body states. from_prefix (rq_provider rq) = Some p
        \<and> run_phase1 (extensions cfg) (first_ctx p rq) (rq_body rq) = Inr body
        \<and> phase2_of cfg (is_bypass P rq) ((first_ctx p rq)\<lparr>px_cache_key := Some (key_of P p rq body)\<rparr>) body
            = Inr (ur_body wire, states)
        \<and> wire = \<lparr>ur_method = rq_method rq, ur_url = upstream_url cfg p rq,
                   ur_headers = forward_headers P (rq_headers rq), ur_body = ur_body wire\<rparr>)"

text \<open>The counters against the results of the lookups.\<close>

definition hits_of :: "(cache_error + exchange option) list \<Rightarrow> exchange list" where
  "hits_of lk = concat (map (\<lambda>x. case x of Inr (Some e) \<Rightarrow> [e] | _ \<Rightarrow> []) lk)"

definition misses_of :: "(cache_error + exchange option) list \<Rightarrow> nat" where
  "misses_of lk = length (filter (\<lambda>x. x = Inr None) lk)"

definition counts_ok :: "(cache_error + exchange option) list \<Rightarrow> db \<Rightarrow> bool" where
  "counts_ok lk d \<longleftrightarrow> stat_value ''hits'' d = int (length (hits_of lk))
     \<and> stat_value ''misses'' d = int (misses_of lk)
     \<and> stat_value ''bytes_served_from_cache'' d = int (sum_list (map (\<lambda>e. length (chunks_text (chunks e))) (hits_of lk)))"

definition jobs_ok :: "proxy_lib \<Rightarrow> server_config \<Rightarrow> world \<Rightarrow> bool" where
  "jobs_ok P cfg w \<longleftrightarrow>
     (\<forall>h \<in> set (w_handlers w). fst h \<in> set (w_arrived w) \<and> handler_ok P cfg (w_stored w) h)
     \<and> (\<forall>t \<in> set (w_tasks w). fst t \<in> (\<lambda>x. snd (snd x)) ` set (w_spawned w) \<and> task_ok (w_stored w) t)
     \<and> (\<forall>(rq, up, t) \<in> set (w_spawned w). rq \<in> set (w_arrived w) \<and> task_origin P cfg rq up t)
     \<and> (\<forall>(t, r) \<in> set (w_stored w). t \<in> (\<lambda>x. snd (snd x)) ` set (w_spawned w) \<and> relayed_all t r)
     \<and> (\<forall>a \<in> set (w_answers w). fst a \<in> set (w_arrived w) \<and> answer_ok P cfg (w_stored w) a)"

definition cache_ok :: "proxy_lib \<Rightarrow> server_config \<Rightarrow> http_request list \<Rightarrow> (relay_task \<times> relay) list
    \<Rightarrow> (cache_error + exchange option) list \<Rightarrow> cache \<Rightarrow> bool" where
  "cache_ok P cfg ar st lk c \<longleftrightarrow> db_wf (cache_params P) (inner c)
     \<and> (\<forall>row \<in> set (entries (inner c)). stored_by P st row)
     \<and> (\<forall>tk \<in> set (trace_entries (inner c)). trace_ok P cfg ar st tk)
     \<and> counts_ok lk (inner c)"

definition world_inv :: "proxy_lib \<Rightarrow> server_config \<Rightarrow> world \<Rightarrow> bool" where
  "world_inv P cfg w \<longleftrightarrow> jobs_ok P cfg w \<and> cache_ok P cfg (w_arrived w) (w_stored w) (w_lookups w) (w_cache w)"

text \<open>Histories only grow.\<close>

lemma handler_ok_mono: "handler_ok P cfg st h \<Longrightarrow> set st \<subseteq> set st' \<Longrightarrow> handler_ok P cfg st' h"
  by (induction P cfg st h rule: handler_ok.induct) auto

lemma task_ok_mono: "task_ok st t \<Longrightarrow> set st \<subseteq> set st' \<Longrightarrow> task_ok st' t"
  by (induction st t rule: task_ok.induct) auto

lemma trace_ok_mono:
  "trace_ok P cfg ar st tk \<Longrightarrow> set ar \<subseteq> set ar' \<Longrightarrow> set st \<subseteq> set st' \<Longrightarrow> trace_ok P cfg ar' st' tk"
  by (auto simp: trace_ok_def)

lemma answer_ok_mono: "answer_ok P cfg st a \<Longrightarrow> set st \<subseteq> set st' \<Longrightarrow> answer_ok P cfg st' a"
  by (fastforce simp: answer_ok_def)

lemma stored_by_mono: "stored_by P st row \<Longrightarrow> set st \<subseteq> set st' \<Longrightarrow> stored_by P st' row"
  by (auto simp: stored_by_def)

lemma cache_ok_mono:
  "cache_ok P cfg ar st lk c \<Longrightarrow> set ar \<subseteq> set ar' \<Longrightarrow> set st \<subseteq> set st' \<Longrightarrow> cache_ok P cfg ar' st' lk c"
  by (auto simp: cache_ok_def intro: stored_by_mono trace_ok_mono)

text \<open>What each of them does to the part of the invariant that speaks of the tables.\<close>

lemma counts_ok_get:
  assumes "db_wf L (inner c)" and "counts_ok lk (inner c)"
  shows "counts_ok (fst (cache_get L fault c key) # lk) (inner (snd (cache_get L fault c key)))"
proof -
  note d = db_wf_dest(3)[OF assms(1)]
  from assms(1) show ?thesis
  proof (cases rule: cache_get_result[where fault = fault and key = key])
    case (error n)
    with assms(2) show ?thesis by (simp add: counts_ok_def hits_of_def misses_of_def)
  next
    case miss
    with assms(2) show ?thesis by (simp add: counts_ok_def hits_of_def misses_of_def stat_value_upsert[OF d])
  next
    case (hit row e)
    with assms(2) show ?thesis by (simp add: counts_ok_def hits_of_def misses_of_def stats_after_hit[OF d])
  qed
qed

lemma counts_ok_frame: "counts_ok lk d \<Longrightarrow> stats_rows d' = stats_rows d \<Longrightarrow> counts_ok lk d'"
  by (simp add: counts_ok_def stat_value_frame[of d' d])

lemma cache_get_tables:
  "trace_entries (inner (snd (cache_get L fault c key))) = trace_entries (inner c)"
  by (auto simp: cache_get_def count_miss_def count_hit_def split: option.split sum.split)

lemma cache_ok_get:
  assumes "cache_ok P cfg ar st lk c" and "cache_get (cache_params (at_moment m P)) fault c key = (res, c')"
  shows "cache_ok P cfg ar st (res # lk) c'"
    and "res = Inr (Some e) \<Longrightarrow> \<exists>(t, r) \<in> set st. t_key t = key \<and> e = exchange_of t r"
proof -
  let ?L = "cache_params (at_moment m P)"
  have wf: "db_wf ?L (inner c)" and rows: "\<forall>row \<in> set (entries (inner c)). stored_by P st row"
    and counts: "counts_ok lk (inner c)" using assms(1) by (simp_all add: cache_ok_def)
  have c': "res = fst (cache_get ?L fault c key)" "c' = snd (cache_get ?L fault c key)" using assms(2) by simp_all
  have "stored_by P st row" if "row \<in> set (entries (inner c'))" for row
    using rows_cache_get[of row ?L fault c key] that rows stored_by_count by (fastforce simp: c')
  moreover have "db_wf (cache_params P) (inner c')" using cache_get_wf[OF wf, of fault key] by (simp add: c')
  ultimately show "cache_ok P cfg ar st (res # lk) c'"
    using assms(1) counts_ok_get[OF wf counts, of fault key] cache_get_tables[of ?L fault c key]
    by (simp add: cache_ok_def c')
  assume e: "res = Inr (Some e)"
  from wf show "\<exists>(t, r) \<in> set st. t_key t = key \<and> e = exchange_of t r"
  proof (cases rule: cache_get_result[where fault = fault and key = key])
    case (hit row e')
    then have "e' = e" using c' e by simp
    from hit(1) rows have "stored_by P st row" by blast
    with hit(2,3) \<open>e' = e\<close> show ?thesis by (fastforce simp: stored_by_def row_holds_def)
  qed (use c' e in simp_all)
qed

lemma cache_ok_trace:
  assumes "cache_ok P cfg ar st lk c" and "trace_ok P cfg ar st (tid, key)"
  shows "cache_ok P cfg ar st lk (snd (record_trace fault c tid key))"
proof -
  let ?c = "snd (record_trace fault c tid key)"
  have "entries (inner ?c) = entries (inner c)" "stats_rows (inner ?c) = stats_rows (inner c)"
    "set (trace_entries (inner ?c)) \<subseteq> insert (tid, key) (set (trace_entries (inner c)))"
    by (auto simp: record_trace_def insert_or_ignore_trace_def)
  then show ?thesis
    using assms record_trace_wf[of "cache_params P" c fault tid key] counts_ok_frame[of lk "inner c"]
    by (auto simp: cache_ok_def)
qed

lemma cache_ok_put:
  assumes "cache_ok P cfg ar st lk c" and "serde_ok (cache_params P)" and "relayed_all t r"
    and "cache_put (cache_params (at_moment m P)) fault c (t_key t) p model (exchange_of t r) = (res, c')"
  shows "cache_ok P cfg ar (case res of Inr _ \<Rightarrow> (t, r) # st | Inl _ \<Rightarrow> st) lk c'"
proof (cases res)
  case (Inl e)
  then have "c' = c" using assms(4) by (auto simp: cache_put_def split: option.splits if_splits)
  with Inl assms(1) show ?thesis by simp
next
  case (Inr u)
  let ?L = "cache_params (at_moment m P)"
  have pr: "print_exchange ?L (exchange_of t r) \<noteq> None" and nf: "\<not> fault 0"
    using Inr assms(4) by (auto simp: cache_put_def split: option.splits if_splits)
  then have put: "c' = snd (cache_put ?L no_fault c (t_key t) p model (exchange_of t r))"
    using Inr assms(4) by (auto simp: cache_put_def split: option.splits if_splits)
  have "serde_ok ?L" using assms(2) by simp
  from cache_put_select[OF this pr, of c "t_key t" p model] obtain row where
    row: "inner c' = insert_or_replace row (inner c)" "r_key row = t_key t" "row_holds ?L row (exchange_of t r)"
    using put by metis
  have "stored_by P ((t, r) # st) row" using row assms(3) by (auto simp: stored_by_def relayed_all_def row_holds_def)
  then have "\<forall>x \<in> set (entries (inner c')). stored_by P ((t, r) # st) x"
    using assms(1) stored_by_weaken[of P st] by (auto simp: row(1) insert_or_replace_def cache_ok_def)
  moreover have "db_wf (cache_params P) (inner c')"
    using cache_put_wf[OF \<open>serde_ok ?L\<close>, of c] assms(1) put by (simp add: cache_ok_def)
  moreover have "trace_entries (inner c') = trace_entries (inner c)" "stats_rows (inner c') = stats_rows (inner c)"
    by (simp_all add: row(1))
  ultimately show ?thesis
    using assms(1) counts_ok_frame[of lk "inner c" "inner c'"] Inr
    by (auto simp: cache_ok_def intro: trace_ok_mono)
qed

lemma cache_ok_clear_stats:
  assumes "cache_ok P cfg ar st lk c" and "clear_stats_handler msg fault c = (rep, c')"
  shows "cache_ok P cfg ar st (if fst rep = 200 then [] else lk) c'"
proof (cases "fault 0")
  case True
  with assms show ?thesis by (auto simp: clear_stats_handler_def clear_stats_def)
next
  case False
  then have "rep = (200, ClearedJson)" "c' = c\<lparr>inner := (inner c)\<lparr>stats_rows := []\<rparr>\<rparr>"
    using assms(2) by (auto simp: clear_stats_handler_def clear_stats_def)
  moreover have "counts_ok [] ((inner c)\<lparr>stats_rows := []\<rparr>)"
    by (simp add: counts_ok_def hits_of_def misses_of_def stat_value_def)
  ultimately show ?thesis using assms(1) db_wf_clear(3) by (simp add: cache_ok_def)
qed

lemma cache_ok_clear_entries:
  assumes "cache_ok P cfg ar st lk c" and "clear_cache_handler msg fault c = (rep, c')"
  shows "cache_ok P cfg ar st lk c'"
proof -
  have "c' = snd (clear_entries fault c)"
    using assms(2) by (auto simp: clear_cache_handler_def split: prod.splits sum.splits)
  then have "db_wf (cache_params P) (inner c')" "set (entries (inner c')) \<subseteq> set (entries (inner c))"
    "set (trace_entries (inner c')) \<subseteq> set (trace_entries (inner c))" "stats_rows (inner c') = stats_rows (inner c)"
    using assms(1) clear_entries_wf[of "cache_params P" c fault]
    by (auto simp: cache_ok_def clear_entries_def Let_def)
  with assms(1) counts_ok_frame[of lk "inner c" "inner c'"] show ?thesis by (auto simp: cache_ok_def)
qed

text \<open>One phase of a handler.\<close>

lemma handler_step_Inl:
  assumes "handler_step P cfg fault rq ph c = Inl (ph', c')"
  obtains p body where "ph = Arrived" and "from_prefix (rq_provider rq) = Some p"
    and "run_phase1 (extensions cfg) (first_ctx p rq) (rq_body rq) = Inr body"
    and "is_bypass P rq \<Longrightarrow> c' = c"
    and "\<not> is_bypass P rq \<Longrightarrow> c' = snd (cache_get (cache_params P) fault c (key_of P p rq body))"
    and "ph' = Missed p ((first_ctx p rq)\<lparr>px_cache_key := Some (key_of P p rq body)\<rparr>) (key_of P p rq body) (body_model (json P) body) body
      \<or> (\<exists>e. ph' = HitFound e (key_of P p rq body) \<and> \<not> is_bypass P rq
            \<and> fst (cache_get (cache_params P) fault c (key_of P p rq body)) = Inr (Some e))"
proof (cases ph)
  case Arrived
  with assms obtain p body where pb: "from_prefix (rq_provider rq) = Some p"
    "run_phase1 (extensions cfg) (first_ctx p rq) (rq_body rq) = Inr body" by (auto split: option.splits sum.splits)
  show thesis
    by (rule that[OF Arrived pb])
       (use assms Arrived pb in \<open>auto simp: key_and_model_split key_of_def Let_def split: if_splits prod.splits sum.splits option.splits\<close>)
qed (use assms in auto)

lemma jobs_ok_handler:
  assumes "handler_step (at_moment m P) cfg fault rq ph (w_cache w) = Inl (ph', c')" and "world_inv P cfg w"
  shows "handler_ok P cfg (w_stored w) (rq, ph')"
    and "cache_ok P cfg (w_arrived w) (w_stored w)
           (looked_up (at_moment m P) cfg fault rq ph (w_cache w) @ w_lookups w) c'"
proof -
  let ?P = "at_moment m P"
  have c: "cache_ok P cfg (w_arrived w) (w_stored w) (w_lookups w) (w_cache w)" using assms(2) by (simp add: world_inv_def)
  from assms(1) obtain p body where pb: "ph = Arrived" "from_prefix (rq_provider rq) = Some p"
    "run_phase1 (extensions cfg) (first_ctx p rq) (rq_body rq) = Inr body"
    and c': "is_bypass P rq \<Longrightarrow> c' = w_cache w"
      "\<not> is_bypass P rq \<Longrightarrow> c' = snd (cache_get (cache_params ?P) fault (w_cache w) (key_of P p rq body))"
    and ph': "ph' = Missed p ((first_ctx p rq)\<lparr>px_cache_key := Some (key_of P p rq body)\<rparr>) (key_of P p rq body) (body_model (json P) body) body
      \<or> (\<exists>e. ph' = HitFound e (key_of P p rq body) \<and> \<not> is_bypass P rq
            \<and> fst (cache_get (cache_params ?P) fault (w_cache w) (key_of P p rq body)) = Inr (Some e))"
    by (rule handler_step_Inl) (simp del: at_moment_sel(1))
  have key: "request_key P cfg rq = Some (key_of P p rq body)" using pb by (auto simp: request_key_Some_iff)
  note get = cache_ok_get[OF c prod.collapse[symmetric], of m fault "key_of P p rq body"]
  show "handler_ok P cfg (w_stored w) (rq, ph')"
    using ph' pb key get(2) by (auto simp del: at_moment_sel(1))
  show "cache_ok P cfg (w_arrived w) (w_stored w) (looked_up ?P cfg fault rq ph (w_cache w) @ w_lookups w) c'"
    using c c' get(1) key pb(1) by (cases "is_bypass P rq") (simp_all add: looked_up_def del: at_moment_sel(1))
qed

lemma answer_ok_handler:
  assumes "handler_step (at_moment m P) cfg fault rq ph c = Inr h" and "handler_ok P cfg st (rq, ph)"
  shows "answer_ok P cfg st (rq, h_reply h)"
    and "h_task h = Some t \<Longrightarrow> \<exists>up. spawned_by m rq h = [(rq, up, t)] \<and> task_origin P cfg rq up t"
proof -
  show "answer_ok P cfg st (rq, h_reply h)"
  proof (cases ph)
    case Arrived
    then show ?thesis using assms(1)
      by (auto simp: answer_ok_def plain_reply_def Let_def split: option.splits sum.splits if_splits prod.splits)
  next
    case (HitFound e key)
    with assms(2) obtain t r where tr: "(t, r) \<in> set st" "t_key t = key" "e = exchange_of t r"
      and k: "\<not> is_bypass P rq" "request_key P cfg rq = Some key" by auto
    have "status e = t_status t" "content_type e = t_content_type t" using tr by (simp_all add: exchange_of_def)
    moreover have "h_reply h = serve_cached P e key" using assms(1) HitFound by auto
    ultimately show ?thesis using tr k
      by (fastforce simp: answer_ok_def serve_cached_def build_response_def split: option.splits if_splits)
  next
    case (Missed p ctx key model body)
    have "rs_body rsp \<noteq> Replay bs" if "h_reply (forward_request (at_moment m P) cfg p b rq ctx key model body c) = Some rsp"
      for b rsp bs
      using that by (auto simp: forward_request_def relay_response_def relayed_response_def build_response_def plain_reply_def
          Let_def split: sum.splits option.splits prod.splits if_splits)
    with Missed assms(1) show ?thesis by (auto simp: answer_ok_def)
  qed
next
  assume t: "h_task h = Some t"
  show "\<exists>up. spawned_by m rq h = [(rq, up, t)] \<and> task_origin P cfg rq up t"
  proof (cases ph)
    case Arrived
    with assms(1) t show ?thesis by (auto simp: Let_def split: option.splits sum.splits if_splits prod.splits)
  next
    case (HitFound e key)
    with assms(1) t show ?thesis by auto
  next
    case (Missed p ctx key model body)
    with assms t show ?thesis
      by (intro forward_origin[of rq p cfg body h m P model c t]) auto
  qed
qed

lemma forward_headers_at_moment [simp]: "forward_headers (at_moment m P) hs = forward_headers P hs"
  by (induction P hs rule: forward_headers.induct) (simp_all split: option.split)

lemma sent_ok_handler:
  assumes "handler_step (at_moment m P) cfg fault rq ph c = Inr h" and "way_ok P cfg (rq, ph)"
    and "h_wire h = Some wire"
  shows "sent_ok P cfg rq wire"
proof (cases ph)
  case Arrived
  with assms(1,3) show ?thesis by (auto simp: Let_def split: option.splits sum.splits if_splits prod.splits)
next
  case (HitFound e key)
  with assms(1,3) show ?thesis by auto
next
  case (Missed p ctx key model body)
  then have "h_wire (forward_request (at_moment m P) cfg p (is_bypass P rq) rq ctx key model body c) = Some wire"
    using assms(1,3) by auto
  then obtain states where "phase2_of cfg (is_bypass P rq) ctx body = Inr (ur_body wire, states)"
    and "wire = \<lparr>ur_method = rq_method rq, ur_url = upstream_url cfg p rq,
                   ur_headers = forward_headers P (rq_headers rq), ur_body = ur_body wire\<rparr>"
    by (auto simp: forward_request_def relay_response_def Let_def split: sum.splits option.splits prod.splits)
  with assms(2) Missed show ?thesis unfolding sent_ok_def by auto
qed

text \<open>One phase of a task.\<close>

lemma chunks_of_append [simp]: "chunks_of (xs @ ys) = chunks_of xs @ chunks_of ys"
  by (simp add: chunks_of_def)

lemma task_ok_relaying_step:
  assumes "task_step P gone fault t (Relaying n evs raw sent) c = Inl (ph', c')"
    and "task_ok st (t, Relaying n evs raw sent)"
  shows "c' = c \<and> task_ok st (t, ph')"
proof -
  from assms(2) obtain pre where pre: "t_stream t = pre @ evs" "\<not> list_ex is_fail pre" "sent = map Inr (chunks_of pre)"
    "t_do_cache t \<Longrightarrow> map snd raw = chunks_of pre" by auto
  show ?thesis
  proof (cases evs)
    case Nil
    with assms(1) pre show ?thesis
      by (auto simp: loop_ends_def relayed_all_def may_store_def split: if_splits)
  next
    case (Cons ev rest)
    show ?thesis
    proof (cases ev)
      case (Chunk b)
      with assms(1) Cons pre show ?thesis
        by (auto simp: loop_ends_def may_store_def Let_def split: if_splits intro!: exI[of _ "pre @ [Chunk b]"])
    qed (use assms(1) Cons pre in \<open>auto simp: loop_ends_def may_store_def split: if_splits intro!: exI[of _ "pre @ [Pend]"]\<close>)
  qed
qed

lemma relaying_ends: "task_step P gone fault t (Relaying n evs raw sent) c = Inr (r, c') \<Longrightarrow> c' = c"
  by (cases "(P, gone, fault, t, Relaying n evs raw sent, c)" rule: task_step.cases)
     (auto simp: loop_ends_def Let_def split: if_splits)

definition task_origins :: "proxy_lib \<Rightarrow> server_config \<Rightarrow> http_request list \<Rightarrow> relay_task \<Rightarrow> bool" where
  "task_origins P cfg ar t \<longleftrightarrow> (\<exists>rq \<in> set ar. \<exists>up. task_origin P cfg rq up t)"

lemma trace_ok_task:
  assumes "task_origins P cfg ar t" and "(t, r) \<in> set st" and "may_store t r" and "t_trace t = Some tid"
  shows "trace_ok P cfg ar st (tid, t_key t)"
  using assms by (fastforce simp: trace_ok_def task_origins_def task_origin_def may_store_def)

lemma task_step_ok:
  assumes "task_step (at_moment m P) gone fault t ph c = res" and "task_ok st (t, ph)"
    and "\<And>t r. (t, r) \<in> set st \<Longrightarrow> relayed_all t r" and "task_origins P cfg ar t"
    and "serde_ok (cache_params P)" and "cache_ok P cfg ar st lk c"
  defines "new \<equiv> stored_now (at_moment m P) fault t ph c"
  shows "cache_ok P cfg ar (new @ st) lk (case res of Inl x \<Rightarrow> snd x | Inr x \<Rightarrow> snd x)"
    and "res = Inl (ph', c') \<Longrightarrow> task_ok (new @ st) (t, ph')"
    and "set new \<subseteq> {(t, r) | r. relayed_all t r}"
proof -
  let ?goal = "cache_ok P cfg ar (new @ st) lk (case res of Inl x \<Rightarrow> snd x | Inr x \<Rightarrow> snd x)
     \<and> (\<forall>ph' c'. res = Inl (ph', c') \<longrightarrow> task_ok (new @ st) (t, ph')) \<and> set new \<subseteq> {(t, r) | r. relayed_all t r}"
  have ?goal
  proof (cases ph)
    case (Relaying n evs raw sent)
    then have "new = []" by (simp add: new_def)
    with Relaying assms(1,2,6) task_ok_relaying_step[of "at_moment m P" gone fault t n evs raw sent c _ _ st]
      relaying_ends[of "at_moment m P" gone fault t n evs raw sent c] show ?thesis
      by (cases res) (auto simp del: task_step.simps)
  next
    case (Storing r)
    obtain u c' where put: "cache_put (cache_params (at_moment m P)) fault c (t_key t) (t_provider t) (t_model t)
        (exchange_of t r) = (u, c')" by (metis prod.collapse)
    have r: "relayed_all t r" using assms(2) Storing by simp
    have "new = (case u of Inr _ \<Rightarrow> [(t, r)] | Inl _ \<Rightarrow> [])" using Storing put by (simp add: new_def del: at_moment_sel(1))
    moreover note cache_ok_put[OF assms(6,5) r put]
    ultimately show ?thesis using assms(1) Storing put r
      by (auto simp del: at_moment_sel(1) split: sum.splits option.splits)
  next
    case (Recording tid r)
    then have "new = []" "(t, r) \<in> set st" "t_trace t = Some tid" using assms(2) by (simp_all add: new_def)
    moreover from this have "trace_ok P cfg ar st (tid, t_key t)"
      using assms(3,4) trace_ok_task by (auto simp: relayed_all_def)
    ultimately show ?thesis using assms(1,6) Recording cache_ok_trace by auto
  qed
  then show "cache_ok P cfg ar (new @ st) lk (case res of Inl x \<Rightarrow> snd x | Inr x \<Rightarrow> snd x)"
    and "res = Inl (ph', c') \<Longrightarrow> task_ok (new @ st) (t, ph')" and "set new \<subseteq> {(t, r) | r. relayed_all t r}" by auto
qed

subsection \<open>Every step keeps it\<close>

lemma world_inv_start:
  "entries (inner c) = [] \<Longrightarrow> trace_entries (inner c) = [] \<Longrightarrow> stats_rows (inner c) = [] \<Longrightarrow>
   world_inv P cfg (world_start c)"
  by (simp add: world_inv_def world_start_def jobs_ok_def cache_ok_def db_wf_def counts_ok_def hits_of_def misses_of_def
      stat_value_def)

lemma world_inv_origins:
  "world_inv P cfg w \<Longrightarrow> (t, ph) \<in> set (w_tasks w) \<Longrightarrow> task_origins P cfg (w_arrived w) t"
  by (fastforce simp: world_inv_def jobs_ok_def task_origins_def)

lemma world_inv_cache:
  assumes "world_inv P cfg w" and "cache_ok P cfg (w_arrived w) (w_stored w) lk c'"
  shows "world_inv P cfg (w\<lparr>w_cache := c', w_lookups := lk\<rparr>)"
    and "lk = w_lookups w \<Longrightarrow> world_inv P cfg (w\<lparr>w_cache := c'\<rparr>)"
  using assms by (simp_all add: world_inv_def jobs_ok_def)

lemma world_inv_handler:
  assumes "world_inv P cfg w" and "w_handlers w = hs @ (rq, ph) # hs'"
    and "handler_step (at_moment m P) cfg fault rq ph (w_cache w) = Inl (ph', c')"
  shows "world_inv P cfg (w\<lparr>w_cache := c', w_handlers := hs @ (rq, ph') # hs',
       w_lookups := looked_up (at_moment m P) cfg fault rq ph (w_cache w) @ w_lookups w\<rparr>)"
  using assms jobs_ok_handler[OF assms(3,1)] by (simp add: world_inv_def jobs_ok_def)

lemma cache_ok_handler_answer:
  assumes "handler_step (at_moment m P) cfg fault rq ph c = Inr h" and "handler_ok P cfg st (rq, ph)"
    and "rq \<in> set ar" and "cache_ok P cfg ar st lk c"
  shows "cache_ok P cfg ar st lk (h_cache h)"
proof (cases ph)
  case Arrived
  with assms(1,4) show ?thesis by (auto simp: Let_def split: option.splits sum.splits if_splits prod.splits)
next
  case (HitFound e key)
  then have "trace_id_of P rq = Some tid \<Longrightarrow> trace_ok P cfg ar st (tid, key)" for tid
    using assms(2,3) by (fastforce simp: trace_ok_def)
  with assms(1,4) HitFound cache_ok_trace show ?thesis by (auto split: option.splits)
next
  case (Missed p ctx key model body)
  with assms(1,4) show ?thesis by auto
qed

lemma world_inv_answer:
  assumes "world_inv P cfg w" and "w_handlers w = hs @ (rq, ph) # hs'"
    and "handler_step (at_moment m P) cfg fault rq ph (w_cache w) = Inr h"
  shows "world_inv P cfg (answer m rq h (hs @ hs') w)"
proof -
  have rq: "rq \<in> set (w_arrived w)" "handler_ok P cfg (w_stored w) (rq, ph)"
    and c: "cache_ok P cfg (w_arrived w) (w_stored w) (w_lookups w) (w_cache w)"
    using assms(1,2) by (auto simp: world_inv_def jobs_ok_def)
  note a = answer_ok_handler[OF assms(3) rq(2)]
  have "task_ok (w_stored w) (t, first_phase t)" for t
    by (auto simp: first_phase_def intro!: exI[of _ "[]"])
  moreover have "h_task h = None \<Longrightarrow> spawned_by m rq h = []" by (rule spawned_by_None)
  ultimately show ?thesis
    using assms(1,2) a rq cache_ok_handler_answer[OF assms(3) rq(2,1) c]
    by (cases "h_task h") (auto simp: world_inv_def jobs_ok_def answer_def)
qed

lemma world_inv_task:
  assumes "world_inv P cfg w" and "serde_ok (cache_params P)" and "w_tasks w = ts @ (t, ph) # ts'"
    and "task_step (at_moment m P) gone fault t ph (w_cache w) = res"
  defines "st \<equiv> stored_now (at_moment m P) fault t ph (w_cache w) @ w_stored w"
  shows "res = Inl (ph', c') \<Longrightarrow> world_inv P cfg (w\<lparr>w_cache := c', w_tasks := ts @ (t, ph') # ts', w_stored := st\<rparr>)"
    and "res = Inr (r, c') \<Longrightarrow>
      world_inv P cfg (w\<lparr>w_cache := c', w_tasks := ts @ ts', w_stored := st, w_done := (t, r) # w_done w\<rparr>)"
proof -
  have t: "task_ok (w_stored w) (t, ph)" "t \<in> (\<lambda>x. snd (snd x)) ` set (w_spawned w)"
    and c: "cache_ok P cfg (w_arrived w) (w_stored w) (w_lookups w) (w_cache w)"
    and full: "\<And>t r. (t, r) \<in> set (w_stored w) \<Longrightarrow> relayed_all t r"
    using assms(1,3) by (auto simp: world_inv_def jobs_ok_def)
  have o: "task_origins P cfg (w_arrived w) t" by (rule world_inv_origins[OF assms(1), of t ph]) (simp add: assms(3))
  note step = task_step_ok[OF assms(4) t(1) full o assms(2) c, folded st_def]
  have sub: "set (w_stored w) \<subseteq> set st" by (auto simp: st_def)
  have st: "\<forall>(t, r) \<in> set st. t \<in> (\<lambda>x. snd (snd x)) ` set (w_spawned w) \<and> relayed_all t r"
  proof clarify
    fix t' r' assume "(t', r') \<in> set st"
    then consider "t' = t" "relayed_all t r'" | "(t', r') \<in> set (w_stored w)" using step(3) by (auto simp: st_def)
    then show "t' \<in> (\<lambda>x. snd (snd x)) ` set (w_spawned w) \<and> relayed_all t' r'"
      using t(2) assms(1) by cases (auto simp: world_inv_def jobs_ok_def)
  qed
  have old: "\<forall>h \<in> set (w_handlers w). handler_ok P cfg st h" "\<forall>t \<in> set (w_tasks w). task_ok st t"
    "\<forall>a \<in> set (w_answers w). answer_ok P cfg st a"
    using assms(1) handler_ok_mono[OF _ sub] task_ok_mono[OF _ sub] answer_ok_mono[OF _ sub]
    by (auto simp: world_inv_def jobs_ok_def)
  show "res = Inl (ph', c') \<Longrightarrow> world_inv P cfg (w\<lparr>w_cache := c', w_tasks := ts @ (t, ph') # ts', w_stored := st\<rparr>)"
    using assms(1,3) step(1,2) st old by (auto simp: world_inv_def jobs_ok_def)
  show "res = Inr (r, c') \<Longrightarrow>
      world_inv P cfg (w\<lparr>w_cache := c', w_tasks := ts @ ts', w_stored := st, w_done := (t, r) # w_done w\<rparr>)"
    using assms(1,3) step(1) st old by (auto simp: world_inv_def jobs_ok_def)
qed

lemma world_step_inv:
  assumes "serde_ok (cache_params P)" and "world_step P cfg w w'" and "world_inv P cfg w"
  shows "world_inv P cfg w'"
  using assms(2)
proof (cases rule: world_step.cases)
  case (arrive rq)
  have "cache_ok P cfg (rq # w_arrived w) (w_stored w) (w_lookups w) (w_cache w)"
    using assms(3) by (auto simp: world_inv_def intro: cache_ok_mono)
  with arrive assms(3) show ?thesis by (auto simp: world_inv_def jobs_ok_def)
next
  case (handler hs rq ph hs' m fault ph' c')
  then show ?thesis using world_inv_handler[OF assms(3)] by simp
next
  case (answers hs rq ph hs' m fault h)
  then show ?thesis using world_inv_answer[OF assms(3)] by simp
next
  case (task ts t ph ts' m gone fault ph' c')
  then show ?thesis using world_inv_task(1)[OF assms(3,1) task(2,3)] by simp
next
  case (ends ts t ph ts' m gone fault r c')
  then show ?thesis using world_inv_task(2)[OF assms(3,1) ends(2,3)] by simp
next
  case (cancel hs rq ph hs')
  with assms(3) show ?thesis by (auto simp: world_inv_def jobs_ok_def)
next
  case (abort ts t ph ts')
  with assms(3) show ?thesis by (auto simp: world_inv_def jobs_ok_def)
next
  case (no_stats msg fault rep c')
  show ?thesis unfolding no_stats(1)
    by (rule world_inv_cache(1)[OF assms(3) cache_ok_clear_stats[OF _ no_stats(2)]]) (use assms(3) in \<open>simp add: world_inv_def\<close>)
next
  case (no_entries msg fault rep c')
  show ?thesis unfolding no_entries(1)
    by (rule world_inv_cache(2)[OF assms(3) cache_ok_clear_entries[OF _ no_entries(2)] refl])
       (use assms(3) in \<open>simp add: world_inv_def\<close>)
qed

text \<open>What is sent does not depend on the cache, so this part holds from any start.\<close>

definition wire_inv :: "proxy_lib \<Rightarrow> server_config \<Rightarrow> world \<Rightarrow> bool" where
  "wire_inv P cfg w \<longleftrightarrow> (\<forall>h \<in> set (w_handlers w). way_ok P cfg h) \<and> (\<forall>(rq, wire) \<in> set (w_sent w). sent_ok P cfg rq wire)"

lemma way_ok_handler:
  assumes "handler_step (at_moment m P) cfg fault rq ph c = Inl (ph', c')"
  shows "way_ok P cfg (rq, ph')"
  by (rule handler_step_Inl[OF assms]) auto

lemma world_step_wire:
  "world_step P cfg w w' \<Longrightarrow> wire_inv P cfg w \<Longrightarrow> wire_inv P cfg w'"
proof (induction rule: world_step.induct)
  case (handler w hs rq ph hs' m fault ph' c')
  then show ?case using way_ok_handler[OF handler.hyps(2)] by (simp add: wire_inv_def)
next
  case (answers w hs rq ph hs' m fault h)
  then have "h_wire h = Some wire \<Longrightarrow> sent_ok P cfg rq wire" for wire
    using sent_ok_handler[OF answers.hyps(2)] by (simp add: wire_inv_def)
  with answers show ?case by (auto simp: wire_inv_def answer_def split: option.split)
qed (auto simp: wire_inv_def)

lemma world_reach_wire: "world_reach P cfg c0 w \<Longrightarrow> wire_inv P cfg w"
proof (induction rule: world_reach.induct)
  case start
  show ?case by (simp add: wire_inv_def world_start_def)
qed (rule world_step_wire)

text \<open>A server that starts with a new database.\<close>

definition fresh :: "cache \<Rightarrow> bool" where
  "fresh c \<longleftrightarrow> inner c = init_schema new_file"

lemma world_reach_inv:
  assumes "world_reach P cfg c0 w" and "serde_ok (cache_params P)" and "fresh c0"
  shows "world_inv P cfg w"
  using assms(1)
proof (induction rule: world_reach.induct)
  case start
  show ?case by (rule world_inv_start) (use assms(3) in \<open>simp_all add: fresh_def init_schema_def\<close>)
next
  case (step w w')
  show ?case by (rule world_step_inv[OF assms(2) step.hyps(2) step.IH])
qed

subsection \<open>Whole requests and tasks are a run\<close>

lemma reach_request:
  fixes P cfg m gf tf rq w
  defines "h \<equiv> handle (at_moment m P) cfg gf tf (w_cache w) rq"
  assumes "world_reach P cfg c0 w" and "w_handlers w = []"
  obtains w' where "world_reach P cfg c0 w'" and "w_handlers w' = []" and "w_cache w' = h_cache h"
    and "w_tasks w' = w_tasks w @ (case h_task h of Some t \<Rightarrow> [(t, first_phase t)] | None \<Rightarrow> [])"
    and "w_spawned w' = spawned_by m rq h @ w_spawned w" and "w_answers w' = (rq, h_reply h) # w_answers w"
    and "w_stored w' = w_stored w" and "w_done w' = w_done w"
    and "w_sent w' = (case h_wire h of Some wire \<Rightarrow> [(rq, wire)] | None \<Rightarrow> []) @ w_sent w"
proof -
  let ?P = "at_moment m P"
  define w1 where "w1 = w\<lparr>w_handlers := [(rq, Arrived)], w_arrived := rq # w_arrived w\<rparr>"
  have r1: "world_reach P cfg c0 w1"
    using world_reach.step[OF assms(2) world_step.arrive, of rq] assms(3) by (simp add: w1_def)
  have w1: "w_handlers w1 = [] @ (rq, Arrived) # []" "w_cache w1 = w_cache w" by (simp_all add: w1_def)
  consider "handler_step ?P cfg gf rq Arrived (w_cache w1) = Inr h"
    | ph c' where "handler_step ?P cfg gf rq Arrived (w_cache w1) = Inl (ph, c')" "handler_step ?P cfg tf rq ph c' = Inr h"
    using handler_phases[of ?P cfg gf rq "w_cache w" tf] unfolding h_def w1(2) by blast
  then show thesis
  proof cases
    case 1
    show thesis
      by (rule that[OF world_reach.step[OF r1 world_step.answers[OF w1(1) 1]]]) (simp_all add: answer_def w1_def)
  next
    case (2 ph c')
    define w2 where "w2 = w1\<lparr>w_cache := c', w_handlers := [] @ (rq, ph) # [],
        w_lookups := looked_up ?P cfg gf rq Arrived (w_cache w1) @ w_lookups w1\<rparr>"
    have r2: "world_reach P cfg c0 w2" unfolding w2_def by (rule world_reach.step[OF r1 world_step.handler[OF w1(1) 2(1)]])
    have w2: "w_handlers w2 = [] @ (rq, ph) # []" "handler_step ?P cfg tf rq ph (w_cache w2) = Inr h"
      using 2(2) by (simp_all add: w2_def)
    show thesis
      by (rule that[OF world_reach.step[OF r2 world_step.answers[OF w2]]]) (simp_all add: answer_def w1_def w2_def)
  qed
qed

lemma reach_task:
  assumes "task_runs (at_moment m P) gone pf tf t phc rc" and "world_reach P cfg c0 w"
    and "w_tasks w = ts @ (t, fst phc) # ts'" and "w_cache w = snd phc" and "w_handlers w = []"
  obtains w' where "world_reach P cfg c0 w'" and "w_handlers w' = []" and "w_cache w' = snd rc" and "w_tasks w' = ts @ ts'"
    and "w_spawned w' = w_spawned w" and "w_done w' = (t, fst rc) # w_done w"
  using assms
proof (induction phc rc arbitrary: w thesis rule: task_runs.induct)
  case (last ph c rc)
  have "task_step (at_moment m P) gone (task_fault pf tf ph) t ph (w_cache w) = Inr (fst rc, snd rc)"
    using last.hyps last.prems(4) by simp
  note reach = world_reach.step[OF last.prems(2) world_step.ends[OF _ this, of ts ts']]
  show ?case by (rule last.prems(1)[OF reach]) (use last.prems(3,5) in simp_all)
next
  case (turn ph c ph' c' rc)
  have "task_step (at_moment m P) gone (task_fault pf tf ph) t ph (w_cache w) = Inl (ph', c')"
    using turn.hyps(1) turn.prems(4) by simp
  note reach = world_reach.step[OF turn.prems(2) world_step.task[OF _ this, of ts ts']]
  show ?case
    by (rule turn.IH[OF _ reach]) (use turn.prems in simp_all)
qed

lemma server_run_is_world_run:
  assumes "server_reach P cfg c0 s"
  shows "\<exists>w. world_reach P cfg c0 w \<and> w_handlers w = [] \<and> w_cache w = sv_cache s
     \<and> w_tasks w = map (\<lambda>t. (t, first_phase t)) (sv_running s) \<and> mset (w_spawned w) = mset (sv_spawned s)
     \<and> w_done w = sv_done s"
  using assms
proof (induction rule: server_reach.induct)
  case start
  show ?case by (intro exI[of _ "world_start c0"]) (simp add: world_reach.start, simp add: world_start_def server_start_def)
next
  case (step s s')
  then obtain w where w: "world_reach P cfg c0 w" "w_handlers w = []" "w_cache w = sv_cache s"
    "w_tasks w = map (\<lambda>t. (t, first_phase t)) (sv_running s)" "mset (w_spawned w) = mset (sv_spawned s)"
    "w_done w = sv_done s" by blast
  from step.hyps(2) show ?case
  proof (cases rule: server_step.cases)
    case (request m gf tf rq)
    define h where "h = handle (at_moment m P) cfg gf tf (w_cache w) rq"
    obtain w' where w': "world_reach P cfg c0 w'" "w_handlers w' = []" "w_cache w' = h_cache h"
      "w_tasks w' = w_tasks w @ (case h_task h of Some t \<Rightarrow> [(t, first_phase t)] | None \<Rightarrow> [])"
      "w_spawned w' = spawned_by m rq h @ w_spawned w" "w_done w' = w_done w"
      by (rule reach_request[OF w(1,2), of m gf tf rq, folded h_def])
    have s': "s' = s\<lparr>sv_cache := h_cache h, sv_running := sv_running s @ (case h_task h of Some t \<Rightarrow> [t] | None \<Rightarrow> []),
        sv_spawned := sv_spawned s @ spawned_by m rq h\<rparr>"
      using request w(3) by (simp add: serve_request_def Let_def h_def)
    have "w_tasks w' = map (\<lambda>t. (t, first_phase t)) (sv_running s')" using w'(4) w(4) by (simp add: s' split: option.split)
    moreover have "w_cache w' = sv_cache s'" "mset (w_spawned w') = mset (sv_spawned s')" "w_done w' = sv_done s'"
      using w' w(5,6) by (simp_all add: s')
    ultimately show ?thesis using w'(1,2) by blast
  next
    case (finish ts t ts' m gone pf tf r c')
    have "task_runs (at_moment m P) gone pf tf t (first_phase t, sv_cache s) (r, c')"
      using task_phases[of "at_moment m P" gone pf tf t "sv_cache s"] finish(3) by simp
    moreover have "w_tasks w = map (\<lambda>t. (t, first_phase t)) ts @ (t, fst (first_phase t, sv_cache s))
        # map (\<lambda>t. (t, first_phase t)) ts'" using w(4) finish(2) by simp
    ultimately obtain w' where w': "world_reach P cfg c0 w'" "w_handlers w' = []" "w_cache w' = snd (r, c')"
      "w_tasks w' = map (\<lambda>t. (t, first_phase t)) ts @ map (\<lambda>t. (t, first_phase t)) ts'"
      "w_spawned w' = w_spawned w" "w_done w' = (t, fst (r, c')) # w_done w"
      by (rule reach_task[OF _ w(1) _ _ w(2)]) (simp add: w(3))
    have "w_tasks w' = map (\<lambda>t. (t, first_phase t)) (sv_running s')" using w'(4) finish(1) by simp
    moreover have "w_cache w' = sv_cache s'" "mset (w_spawned w') = mset (sv_spawned s')" "w_done w' = sv_done s'"
      using w' w(5,6) finish(1) by simp_all
    ultimately show ?thesis using w'(1,2) by blast
  next
    case (delete_stats msg fault)
    obtain rep c' where c: "clear_stats_handler msg fault (w_cache w) = (rep, c')" by fastforce
    show ?thesis
      by (rule exI, rule conjI, rule world_reach.step[OF w(1) world_step.no_stats[OF c]]) (use w delete_stats c in simp)
  next
    case (delete_cache msg fault)
    obtain rep c' where c: "clear_cache_handler msg fault (w_cache w) = (rep, c')" by fastforce
    show ?thesis
      by (rule exI, rule conjI, rule world_reach.step[OF w(1) world_step.no_entries[OF c]]) (use w delete_cache c in simp)
  qed
qed

subsection \<open>Properties\<close>

text \<open>What the history knows about a stored response.\<close>

lemma stored_origin:
  assumes "world_inv P cfg w" and "(t, r) \<in> set (w_stored w)" and "list_all keeps_failures (extensions cfg)"
  obtains rq up where "(rq, up, t) \<in> set (w_spawned w)" and "request_key P cfg rq = Some (t_key t)" and "\<not> is_bypass P rq"
    and "t_status t = up_status up" and "is_success (up_status up)" and "\<not> list_ex is_fail (up_stream up)"
    and "rl_end r = Completed" and "rl_sent r = map Inr (chunks_of (t_stream t))"
    and "response_buf r = concat (chunks_of (t_stream t))" and "length (rl_raw r) = length (chunks_of (t_stream t))"
    and "valid_utf8 (response_buf r)"
proof -
  from assms(1,2) have r: "relayed_all t r" and "t \<in> (\<lambda>x. snd (snd x)) ` set (w_spawned w)"
    by (auto simp: world_inv_def jobs_ok_def)
  then obtain rq up where sp: "(rq, up, t) \<in> set (w_spawned w)" by auto
  with assms(1) have o: "task_origin P cfg rq up t" by (auto simp: world_inv_def jobs_ok_def)
  have m: "rl_end r = Completed" "t_do_cache t" "valid_utf8 (response_buf r)" and raw: "map snd (rl_raw r) = chunks_of (t_stream t)"
    and f: "\<not> list_ex is_fail (t_stream t)" and sent: "rl_sent r = map Inr (chunks_of (t_stream t))"
    using r by (simp_all add: relayed_all_def may_store_def)
  show thesis
  proof (rule that[OF sp])
    show "length (rl_raw r) = length (chunks_of (t_stream t))" using raw by (metis length_map)
    show "\<not> list_ex is_fail (up_stream up)" using o f assms(3) by (auto simp: task_origin_def)
  qed (use o m raw sent in \<open>simp_all add: task_origin_def response_buf_def\<close>)
qed

text \<open>The run of the witnesses: a miss, its task, and a later request that hits.\<close>

lemma wit_run:
  obtains w where "world_reach wit_proxy wit_cfg wit_empty w" and "w_handlers w = []" and "w_cache w = wit_after"
  using server_run_is_world_run[OF wit_server_reach] by (auto simp: wit_server_def)

definition wit_hit :: handled where
  "wit_hit = handle (at_moment wit_later wit_proxy) wit_cfg no_fault no_fault wit_after wit_rq"

lemma wit_run_hit:
  obtains w where "world_reach wit_proxy wit_cfg wit_empty w" and "(wit_rq, h_reply wit_hit) \<in> set (w_answers w)"
    and "w_cache w = h_cache wit_hit"
proof (rule wit_run)
  fix w assume w: "world_reach wit_proxy wit_cfg wit_empty w" "w_handlers w = []" "w_cache w = wit_after"
  show thesis
    by (rule reach_request[OF w(1,2), of wit_later no_fault no_fault wit_rq, folded w(3)])
       (rule that, auto simp: wit_hit_def w(3))
qed

lemma wit_fresh: "fresh wit_empty"
  by (simp add: fresh_def wit_empty_def)

lemma wit_keeps: "list_all keeps_failures (extensions wit_cfg)"
  by (simp add: wit_cfg_def)

text \<open>C4: Only complete successes are in the cache, also when the calls of the cache interleave. However
  the phases of handlers and tasks and the admin calls follow each other, with whatever failing SQL
  statements, disconnecting clients, dropped handlers and tasks and upstream answers: every entry of a
  cache that was new at the start was stored for a request that was not a bypass, under that request's
  key, by a task that had sent its whole stream to the client; the upstream had answered with a 2xx
  and its response did not break off; and the entry holds, as text, exactly the bytes the client was
  sent, with the upstream's status.\<close>

theorem entries_are_complete_relays:
  assumes "world_reach P cfg c0 w" and "serde_ok (cache_params P)" and "fresh c0"
    and "list_all keeps_failures (extensions cfg)" and "row \<in> set (entries (inner (w_cache w)))"
  shows "\<exists>rq up t r e. (rq, up, t) \<in> set (w_spawned w) \<and> (t, r) \<in> set (w_stored w)
    \<and> request_key P cfg rq = Some (r_key row) \<and> \<not> is_bypass P rq
    \<and> is_success (up_status up) \<and> \<not> list_ex is_fail (up_stream up)
    \<and> rl_end r = Completed \<and> rl_sent r = map Inr (chunks_of (t_stream t))
    \<and> row_holds (cache_params P) row e \<and> status e = up_status up
    \<and> chunks_text (chunks e) = concat (chunks_of (t_stream t)) \<and> valid_utf8 (chunks_text (chunks e))"
proof -
  note inv = world_reach_inv[OF assms(1-3)]
  from inv assms(5) have "stored_by P (w_stored w) row" by (simp add: world_inv_def cache_ok_def)
  then obtain t r where tr: "(t, r) \<in> set (w_stored w)" "r_key row = t_key t" "row_holds (cache_params P) row (exchange_of t r)"
    by (fastforce simp: stored_by_def)
  obtain rq up where o: "(rq, up, t) \<in> set (w_spawned w)" "request_key P cfg rq = Some (t_key t)" "\<not> is_bypass P rq"
    "t_status t = up_status up" "is_success (up_status up)" "\<not> list_ex is_fail (up_stream up)"
    "rl_end r = Completed" "rl_sent r = map Inr (chunks_of (t_stream t))"
    "response_buf r = concat (chunks_of (t_stream t))" "valid_utf8 (response_buf r)"
    by (rule stored_origin[OF inv tr(1) assms(4)])
  have "status (exchange_of t r) = up_status up" using o(4) by (simp add: exchange_of_def)
  with o tr exchange_of_text(1)[OF o(10), of t] show ?thesis
    by (intro exI[of _ rq] exI[of _ up] exI[of _ t] exI[of _ r] exI[of _ "exchange_of t r"]) simp
qed

theorem entries_are_complete_relays_witness:
  "\<exists>w row e. world_reach wit_proxy wit_cfg wit_empty w \<and> w_cache w = wit_after
     \<and> entries (inner wit_after) = [row] \<and> row_holds (cache_params wit_proxy) row e \<and> valid_utf8 (chunks_text (chunks e))"
proof (rule wit_run)
  fix w assume w: "world_reach wit_proxy wit_cfg wit_empty w" "w_handlers w = []" "w_cache w = wit_after"
  have "length (entries (inner wit_after)) = 1" by code_simp
  then obtain row where row: "entries (inner wit_after) = [row]" by (cases "entries (inner wit_after)") auto
  then have "row \<in> set (entries (inner (w_cache w)))" by (simp add: w(3))
  from entries_are_complete_relays[OF w(1) wit_store_serde wit_fresh wit_keeps this] obtain e where
    "row_holds (cache_params wit_proxy) row e" "valid_utf8 (chunks_text (chunks e))" by blast
  with row w(1,3) show ?thesis by blast
qed

text \<open>C3: Every hit replays what a client was sent in full. In every such run, an answer whose body is a
  replay was given to a request that was not a bypass, and there is an earlier request with the same
  key, answered by the upstream with a 2xx and the same status, whose client was sent, completely and
  without an error, the same bytes in as many chunks; no answer mixes two responses.\<close>

theorem hits_replay_complete_relays:
  assumes "world_reach P cfg c0 w" and "serde_ok (cache_params P)" and "fresh c0"
    and "list_all keeps_failures (extensions cfg)"
    and "(rq, Some rsp) \<in> set (w_answers w)" and "rs_body rsp = Replay bs"
  shows "\<not> is_bypass P rq
    \<and> (\<exists>rq0 up t r sent. (rq0, up, t) \<in> set (w_spawned w) \<and> (t, r) \<in> set (w_stored w)
        \<and> request_key P cfg rq = Some (t_key t) \<and> request_key P cfg rq0 = Some (t_key t) \<and> \<not> is_bypass P rq0
        \<and> rs_status rsp = up_status up \<and> is_success (up_status up) \<and> \<not> list_ex is_fail (up_stream up)
        \<and> rl_end r = Completed \<and> rl_sent r = map Inr sent \<and> concat bs = concat sent \<and> length bs = length sent)"
proof -
  note inv = world_reach_inv[OF assms(1-3)]
  from inv assms(5) have "answer_ok P cfg (w_stored w) (rq, Some rsp)" by (auto simp: world_inv_def jobs_ok_def)
  with assms(6) obtain t r where nb: "\<not> is_bypass P rq" and tr: "(t, r) \<in> set (w_stored w)"
    "request_key P cfg rq = Some (t_key t)" "rs_status rsp = t_status t" "bs = map data (chunks (exchange_of t r))"
    by (auto simp: answer_ok_def)
  obtain rq0 up where o: "(rq0, up, t) \<in> set (w_spawned w)" "request_key P cfg rq0 = Some (t_key t)" "\<not> is_bypass P rq0"
    "t_status t = up_status up" "is_success (up_status up)" "\<not> list_ex is_fail (up_stream up)"
    "rl_end r = Completed" "rl_sent r = map Inr (chunks_of (t_stream t))"
    "response_buf r = concat (chunks_of (t_stream t))" "length (rl_raw r) = length (chunks_of (t_stream t))"
    "valid_utf8 (response_buf r)"
    by (rule stored_origin[OF inv tr(1) assms(4)])
  have "length bs = length (rl_raw r)"
    using carry_chunks_text[of "[]" "rl_raw r"] o(11) tr(4)
    by (metis append_Nil exchange.select_convs(4) exchange_of_def length_map response_buf_def)
  moreover have "concat bs = concat (chunks_of (t_stream t))"
    using exchange_of_text(1)[OF o(11), of t] o(9) tr(4) by (simp add: chunks_text_def)
  ultimately show ?thesis using nb tr o
    by (intro conjI exI[of _ rq0] exI[of _ up] exI[of _ t] exI[of _ r] exI[of _ "chunks_of (t_stream t)"]) simp_all
qed

theorem hits_replay_complete_relays_witness:
  "\<exists>w rsp bs sent. world_reach wit_proxy wit_cfg wit_empty w \<and> (wit_rq, Some rsp) \<in> set (w_answers w)
     \<and> rs_body rsp = Replay bs \<and> length bs = 2 \<and> concat bs = concat sent \<and> length bs = length sent"
proof (rule wit_run_hit)
  fix w assume w: "world_reach wit_proxy wit_cfg wit_empty w" "(wit_rq, h_reply wit_hit) \<in> set (w_answers w)"
  define rsp where "rsp = the (h_reply wit_hit)"
  have r: "h_reply wit_hit = Some rsp" "rs_body rsp = Replay [''data: '', [CHR 0xC3, CHR 0xA9]]"
    unfolding rsp_def by code_simp+
  from w(2) r(1) have a: "(wit_rq, Some rsp) \<in> set (w_answers w)" by simp
  from hits_replay_complete_relays[OF w(1) wit_store_serde wit_fresh wit_keeps a r(2)] obtain sent where
    "concat [''data: '', [CHR 0xC3, CHR 0xA9]] = concat sent" "length [''data: '', [CHR 0xC3, CHR 0xA9]] = length sent" by blast
  with w(1) a r(2) show ?thesis
    by (intro exI[of _ w] exI[of _ rsp] exI[of _ "[''data: '', [CHR 0xC3, CHR 0xA9]]"] exI[of _ sent]) simp
qed

text \<open>C18: The statistics are those of the lookups. In every such run, \<open>GET /stats\<close>, when its own SQL
  succeeds, reports as hits the lookups since the last reset that returned an exchange, as misses
  those that returned none (a lookup that failed is neither), and as bytes served the sum of the
  lengths of the exchanges returned.\<close>

theorem stats_count_the_lookups:
  assumes "world_reach P cfg c0 w" and "serde_ok (cache_params P)" and "fresh c0"
  shows "\<exists>st. get_stats to_value_ok msg no_fault (w_cache w) = as_json to_value_ok (StatsJson st)
    \<and> hits st = int (length (hits_of (w_lookups w))) \<and> misses st = int (misses_of (w_lookups w))
    \<and> bytes_served_from_cache st = int (sum_list (map (\<lambda>e. length (chunks_text (chunks e))) (hits_of (w_lookups w))))"
  using world_reach_inv[OF assms]
  by (auto simp: world_inv_def cache_ok_def counts_ok_def get_stats_def cache_stats_of_def)

theorem stats_count_the_lookups_witness:
  "\<exists>w st. world_reach wit_proxy wit_cfg wit_empty w \<and> cache_stats_of no_fault (w_cache w) = Inr st
     \<and> hits st = 1 \<and> length (hits_of (w_lookups w)) = 1 \<and> misses_of (w_lookups w) = 1"
proof (rule wit_run_hit)
  fix w assume w: "world_reach wit_proxy wit_cfg wit_empty w" "w_cache w = h_cache wit_hit"
  have st: "stat_value ''hits'' (inner (h_cache wit_hit)) = 1" "stat_value ''misses'' (inner (h_cache wit_hit)) = 1"
    by code_simp+
  from stats_count_the_lookups[OF w(1) wit_store_serde wit_fresh, of "\<lambda>_. True" "\<lambda>_. []"] w st show ?thesis
    by (intro exI[of _ w]) (auto simp: get_stats_def as_json_def cache_stats_of_def)
qed

text \<open>C19: A trace lists only its own requests. In every such run a trace query that is not disturbed
  succeeds, and every entry it lists has the key of a request that arrived with this trace identifier
  and was not a bypass, and was stored by a task for a request with this key.\<close>

theorem traces_list_only_their_requests:
  assumes "world_reach P cfg c0 w" and "serde_ok (cache_params P)" and "fresh c0"
  shows "\<exists>es. get_trace no_fault (w_cache w) tid = Inr es \<and> distinct (map ce_key es)
    \<and> (\<forall>ce \<in> set es.
        (\<exists>rq \<in> set (w_arrived w). trace_id_of P rq = Some tid \<and> request_key P cfg rq = Some (ce_key ce) \<and> \<not> is_bypass P rq)
        \<and> (\<exists>(t, r) \<in> set (w_stored w). t_key t = ce_key ce))"
proof -
  have c: "cache_ok P cfg (w_arrived w) (w_stored w) (w_lookups w) (w_cache w)"
    using world_reach_inv[OF assms] by (simp add: world_inv_def)
  then have "db_wf (cache_params P) (inner (w_cache w))" by (simp add: cache_ok_def)
  from trace_lists_what_was_recorded[OF this, of tid "[]"] obtain es where
    es: "get_trace no_fault (w_cache w) tid = Inr es" "distinct (map ce_key es)"
    "set (map ce_key es) \<subseteq> {k. (tid, k) \<in> set (trace_entries (inner (w_cache w)))}" by blast
  have "trace_ok P cfg (w_arrived w) (w_stored w) (tid, ce_key ce)" if "ce \<in> set es" for ce
    using c es(3) that by (fastforce simp: cache_ok_def)
  with es(1,2) show ?thesis by (intro exI[of _ es]) (simp add: trace_ok_def)
qed

theorem traces_list_only_their_requests_witness:
  "\<exists>w es. world_reach wit_proxy wit_cfg wit_empty w \<and> get_trace no_fault (w_cache w) ''t'' = Inr es \<and> length es = 1
     \<and> (\<forall>ce \<in> set es. \<exists>rq \<in> set (w_arrived w). trace_id_of wit_proxy rq = Some ''t'')"
proof (rule wit_run)
  fix w assume w: "world_reach wit_proxy wit_cfg wit_empty w" "w_cache w = wit_after"
  have "case get_trace no_fault wit_after ''t'' of Inr es \<Rightarrow> length es = 1 | Inl e \<Rightarrow> False" by code_simp
  with w traces_list_only_their_requests[OF w(1) wit_store_serde wit_fresh, of "''t''"] show ?thesis by fastforce
qed



end
