(* ===== verification/Progress.thy ===== *)
theory Progress
  imports Interleaving
begin

text \<open>
  The interleaving server comes to rest. Steps of the server that are work on what is already there (a
  phase of a handler or of a task; no arrival, no admin call, nothing dropped) are \<open>work_step\<close>.
  They cannot go on forever, one is possible as long as a handler is in flight or a task is running,
  whatever the calls of the cache and the upstream answer, and at the end every request has been answered
  once and every task has ended once. An event stream is the finite list of what its polls
  answer, so an upstream that never ends its response is not covered.
\<close>

subsection \<open>Work\<close>

inductive work_step :: "proxy_lib \<Rightarrow> server_config \<Rightarrow> world \<Rightarrow> world \<Rightarrow> bool" for P cfg where
  handler: "w_handlers w = hs @ (rq, ph) # hs' \<Longrightarrow>
     handler_step (at_moment m P) cfg fault rq ph (w_cache w) = Inl (ph', c') \<Longrightarrow>
     work_step P cfg w (w\<lparr>w_cache := c', w_handlers := hs @ (rq, ph') # hs',
       w_lookups := looked_up (at_moment m P) cfg fault rq ph (w_cache w) @ w_lookups w\<rparr>)"
| answers: "w_handlers w = hs @ (rq, ph) # hs' \<Longrightarrow>
     handler_step (at_moment m P) cfg fault rq ph (w_cache w) = Inr h \<Longrightarrow>
     work_step P cfg w (answer m rq h (hs @ hs') w)"
| task: "w_tasks w = ts @ (t, ph) # ts' \<Longrightarrow>
     task_step (at_moment m P) gone fault t ph (w_cache w) = Inl (ph', c') \<Longrightarrow>
     work_step P cfg w (w\<lparr>w_cache := c', w_tasks := ts @ (t, ph') # ts',
       w_stored := stored_now (at_moment m P) fault t ph (w_cache w) @ w_stored w\<rparr>)"
| ends: "w_tasks w = ts @ (t, ph) # ts' \<Longrightarrow>
     task_step (at_moment m P) gone fault t ph (w_cache w) = Inr (r, c') \<Longrightarrow>
     work_step P cfg w (w\<lparr>w_cache := c', w_tasks := ts @ ts',
       w_stored := stored_now (at_moment m P) fault t ph (w_cache w) @ w_stored w, w_done := (t, r) # w_done w\<rparr>)"

lemma work_is_world: "work_step P cfg w w' \<Longrightarrow> world_step P cfg w w'"
  by (induction rule: work_step.induct) (rule world_step.intros; assumption)+

definition at_rest :: "world \<Rightarrow> bool" where
  "at_rest w \<longleftrightarrow> w_handlers w = [] \<and> w_tasks w = []"

subsection \<open>It runs out\<close>

text \<open>A handler has at most two phases left; a task as many turns as \<open>task_turns\<close> says. An answer
  spawns a task, so the phases of the handlers count first.\<close>

fun phases_left :: "phase \<Rightarrow> nat" where
  "phases_left Arrived = 2"
| "phases_left ph = 1"

definition work_left :: "world \<Rightarrow> nat \<times> nat" where
  "work_left w = (\<Sum>h \<leftarrow> w_handlers w. phases_left (snd h), \<Sum>t \<leftarrow> w_tasks w. task_turns (snd t))"

lemma handler_step_phases: "handler_step P cfg fault rq ph c = Inl (ph', c') \<Longrightarrow> phases_left ph' < phases_left ph"
  by (erule handler_step_Inl) auto

lemma phases_left_pos: "0 < phases_left ph"
  by (cases ph) simp_all

lemma task_turns_pos: "0 < task_turns ph"
  by (cases ph) simp_all

definition work_less :: "(world \<times> world) set" where
  "work_less = inv_image (less_than <*lex*> less_than) work_left"

lemma wf_work_less: "wf work_less"
  by (simp add: work_less_def wf_lex_prod)

lemma work_step_less: "work_step P cfg w w' \<Longrightarrow> (w', w) \<in> work_less"
proof (induction rule: work_step.induct)
  case (handler w hs rq ph hs' m fault ph' c')
  with handler_step_phases show ?case by (fastforce simp: work_less_def work_left_def)
next
  case (answers w hs rq ph hs' m fault h)
  with phases_left_pos[of ph] show ?case by (simp add: work_less_def work_left_def answer_def)
next
  case (task w ts t ph ts' m gone fault ph' c')
  with task_step_turns show ?case by (fastforce simp: work_less_def work_left_def)
next
  case (ends w ts t ph ts' m gone fault r c')
  with task_turns_pos[of ph] show ?case by (simp add: work_less_def work_left_def)
qed

subsection \<open>It does not get stuck\<close>

lemma handler_can_step: "(rq, ph) \<in> set (w_handlers w) \<Longrightarrow> \<exists>w'. work_step P cfg w w'"
proof -
  assume "(rq, ph) \<in> set (w_handlers w)"
  then obtain hs hs' where s: "w_handlers w = hs @ (rq, ph) # hs'" by (meson split_list)
  fix m :: moment and fault :: "nat \<Rightarrow> bool"
  show ?thesis
  proof (cases "handler_step (at_moment m P) cfg fault rq ph (w_cache w)")
    case (Inl x)
    then show ?thesis by (cases x) (use work_step.handler[OF s] in blast)
  next
    case (Inr h)
    then show ?thesis using work_step.answers[OF s] by blast
  qed
qed

lemma task_can_step: "(t, ph) \<in> set (w_tasks w) \<Longrightarrow> \<exists>w'. work_step P cfg w w'"
proof -
  assume "(t, ph) \<in> set (w_tasks w)"
  then obtain ts ts' where s: "w_tasks w = ts @ (t, ph) # ts'" by (meson split_list)
  fix m :: moment and fault gone :: "nat \<Rightarrow> bool"
  show ?thesis
  proof (cases "task_step (at_moment m P) gone fault t ph (w_cache w)")
    case (Inl x)
    then show ?thesis by (cases x) (use work_step.task[OF s] in blast)
  next
    case (Inr x)
    then show ?thesis by (cases x) (use work_step.ends[OF s] in blast)
  qed
qed

lemma no_members: "(\<And>x. x \<notin> set xs) \<Longrightarrow> xs = []"
  by (cases xs) auto

lemma rest_iff_stuck: "at_rest w \<longleftrightarrow> \<not> (\<exists>w'. work_step P cfg w w')"
proof
  assume "at_rest w"
  then show "\<not> (\<exists>w'. work_step P cfg w w')" by (auto simp: at_rest_def elim: work_step.cases)
next
  assume "\<not> (\<exists>w'. work_step P cfg w w')"
  then show "at_rest w" unfolding at_rest_def
    using handler_can_step[of _ _ w P cfg] task_can_step[of _ _ w P cfg] by (auto intro!: no_members)
qed

lemma work_comes_to_rest: "\<exists>w'. (work_step P cfg)\<^sup>*\<^sup>* w w' \<and> at_rest w'"
proof (induction w rule: wf_induct_rule[OF wf_work_less])
  case (1 w)
  show ?case
  proof (cases "at_rest w")
    case False
    then obtain w1 where w1: "work_step P cfg w w1" using rest_iff_stuck by blast
    with 1[OF work_step_less[OF w1]] show ?thesis by (meson converse_rtranclp_into_rtranclp)
  qed blast
qed

subsection \<open>Nothing is lost on the way\<close>

lemma step_spawns:
  assumes "handler_step (at_moment m P) cfg fault rq ph c = Inr h"
  shows "map (\<lambda>x. snd (snd x)) (spawned_by m rq h) = (case h_task h of Some t \<Rightarrow> [t] | None \<Rightarrow> [])"
proof (cases "h_task h")
  case None
  then show ?thesis by (simp add: spawned_by_None)
next
  case (Some t)
  from assms obtain p ctx key model body where ph: "ph = Missed p ctx key model body"
    by (cases ph) (use Some in \<open>auto simp: Let_def split: option.splits sum.splits if_splits prod.splits\<close>)
  then have h: "h = forward_request (at_moment m P) cfg p (is_bypass P rq) rq ctx key model body c" using assms by simp
  from Some h obtain w states up stream where
    "phase2_of cfg (is_bypass P rq) ctx body = Inr (w, states)"
    "send_upstream (at_moment m P) \<lparr>ur_method = rq_method rq, ur_url = upstream_url cfg p rq,
                 ur_headers = forward_headers (at_moment m P) (rq_headers rq), ur_body = w\<rparr> = Inr up"
    by (auto elim: forward_request_task)
  with Some h show ?thesis
    by (auto simp: spawned_by_def forward_request_def relay_response_def Let_def split: option.splits if_splits)
qed

definition spawned_tasks :: "world \<Rightarrow> relay_task list" where
  "spawned_tasks w = map (\<lambda>x. snd (snd x)) (w_spawned w)"

definition balanced :: "world \<Rightarrow> world \<Rightarrow> bool" where
  "balanced w w' \<longleftrightarrow>
     mset (map fst (w_handlers w')) + mset (map fst (w_answers w')) = mset (map fst (w_handlers w)) + mset (map fst (w_answers w))
     \<and> mset (map fst (w_tasks w')) + mset (map fst (w_done w')) + mset (spawned_tasks w)
         = mset (map fst (w_tasks w)) + mset (map fst (w_done w)) + mset (spawned_tasks w')"

lemma work_step_balanced: "work_step P cfg w w' \<Longrightarrow> balanced w w'"
proof (induction rule: work_step.induct)
  case (answers w hs rq ph hs' m fault h)
  with step_spawns[OF answers.hyps(2)] show ?case
    by (cases "h_task h") (auto simp: balanced_def answer_def spawned_tasks_def)
qed (auto simp: balanced_def spawned_tasks_def)

lemma mset_transfer:
  fixes a b c :: "'a multiset"
  assumes "a + s = b + s1" and "c + s1 = a + s2"
  shows "c + s = b + s2"
proof -
  have "(c + s) + s1 = (a + s) + s2" using assms(2) by (simp add: ac_simps)
  then have "(c + s) + s1 = (b + s2) + s1" using assms(1) by (simp add: ac_simps)
  then show ?thesis by simp
qed

lemma work_balanced: "(work_step P cfg)\<^sup>*\<^sup>* w w' \<Longrightarrow> balanced w w'"
proof (induction rule: rtranclp_induct)
  case base
  show ?case by (simp add: balanced_def)
next
  case (step y z)
  note old = step.IH[unfolded balanced_def] and new = work_step_balanced[OF step.hyps(2), unfolded balanced_def]
  show ?case unfolding balanced_def
    by (rule conjI[OF _ mset_transfer[OF conjunct2[OF old] conjunct2[OF new]]])
       (rule trans[OF conjunct1[OF new] conjunct1[OF old]])
qed

lemma work_reach: "(work_step P cfg)\<^sup>*\<^sup>* w w' \<Longrightarrow> world_reach P cfg c0 w \<Longrightarrow> world_reach P cfg c0 w'"
  by (induction rule: rtranclp_induct) (auto intro: world_reach.step work_is_world)

subsection \<open>Answers are responses\<close>

text \<open>With a hash and a channel capacity for which nothing panics, an answer is a response.\<close>

fun key_ok :: "proxy_lib \<Rightarrow> http_request \<times> phase \<Rightarrow> bool" where
  "key_ok P (rq, HitFound e key) \<longleftrightarrow> (\<exists>p body. key = key_of P p rq body)"
| "key_ok P (rq, Missed p ctx key model body) \<longleftrightarrow> (\<exists>p body. key = key_of P p rq body)"
| "key_ok P (rq, Arrived) = True"

definition answers_inv :: "proxy_lib \<Rightarrow> world \<Rightarrow> bool" where
  "answers_inv P w \<longleftrightarrow> list_all (key_ok P) (w_handlers w) \<and> list_all (\<lambda>a. snd a \<noteq> None) (w_answers w)"

lemma key_ok_handler: "handler_step (at_moment m P) cfg fault rq ph c = Inl (ph', c') \<Longrightarrow> key_ok P (rq, ph')"
  by (erule handler_step_Inl) (auto, blast+)

lemma handler_step_answers:
  assumes "handler_step (at_moment m P) cfg fault rq ph c = Inr h" and "key_ok P (rq, ph)"
    and "\<And>b. key_prefix (blake3_hex P b) \<noteq> None" and "channel_ok P (stream_channel_capacity cfg)"
  shows "h_reply h \<noteq> None"
proof -
  have k: "key_prefix (key_of P p rq body) \<noteq> None" for p body
    using assms(3) by (simp add: key_of_def cache_key_def Let_def)
  show ?thesis
  proof (cases ph)
    case Arrived
    with assms(1) show ?thesis by (auto simp: Let_def split: option.splits sum.splits if_splits prod.splits)
  next
    case (HitFound e key)
    with assms(1,2) k serve_cached_total[of key "at_moment m P" e] show ?thesis by auto
  next
    case (Missed p ctx key model body)
    have "channel_ok (at_moment m P) (stream_channel_capacity cfg)" using assms(4) by simp
    with Missed assms(1,2) k forward_request_answers[of key "at_moment m P" cfg p "is_bypass P rq" rq ctx model body c]
    show ?thesis by auto
  qed
qed

lemma world_reach_answers:
  assumes "world_reach P cfg c0 w" and "\<And>b. key_prefix (blake3_hex P b) \<noteq> None"
    and "channel_ok P (stream_channel_capacity cfg)"
  shows "answers_inv P w"
  using assms(1)
proof (induction rule: world_reach.induct)
  case start
  show ?case by (simp add: answers_inv_def world_start_def)
next
  case (step w w')
  from step.hyps(2) show ?case
  proof (cases rule: world_step.cases)
    case (handler hs rq ph hs' m fault ph' c')
    with step.IH key_ok_handler[OF handler(3)] show ?thesis by (simp add: answers_inv_def)
  next
    case (answers hs rq ph hs' m fault h)
    have "h_reply h \<noteq> None"
      by (rule handler_step_answers[OF answers(3) _ assms(2,3)]) (use step.IH answers(2) in \<open>simp add: answers_inv_def\<close>)
    with step.IH answers show ?thesis by (simp add: answers_inv_def answer_def)
  qed (use step.IH in \<open>simp_all add: answers_inv_def\<close>)
qed

subsection \<open>Properties\<close>



definition wit_short :: proxy_lib where
  "wit_short = wit_proxy\<lparr>blake3_hex := (\<lambda>b. ''000000000000'')\<rparr>"


end
