(* ===== verification/Channel.thy ===== *)
theory Channel
  imports Proxy
begin

text \<open>
  The way from the background task to the client, \<open>crates/lcp-server/src/proxy.rs\<close>: the bounded channel of
  \<open>handle\<close>, the sends of the relay loop, and \<open>ReceiverStream\<close>, which the response body polls.

  In \<open>Proxy\<close> the loop is a function of the stream, and \<open>gone n\<close> says whether the client has left when the
  \<open>n\<close>-th item is sent. Here the task, the client and the channel between them take turns: a send
  waits while the channel is full and fails when the receiver is dropped, the client receives what is
  there, and it can leave at any time. Shown is that the two agree: whatever the order of turns
  and the capacity, the task ends like the loop for some \<open>gone\<close>, and the client has received a
  beginning of what was sent, all of it unless it left.

  \<open>tokio::sync::mpsc\<close> is not part of the repository. What the code uses of it is the parameter
  \<open>channel_lib\<close>; \<open>channel_laws\<close> states its documented behaviour over what a channel holds
  (\<open>chan_view\<close>): the order of the items, when a send waits or fails, when the receiver is told the end.
  The answer of a poll is the one after the spurious failures the documentation allows, on which the
  runtime polls again.
\<close>

type_synonym item = "string + bytes"

subsection \<open>The channel\<close>

datatype 'c sending =
    Waits
  | Closed
  | Sent 'c

datatype 'c receiving =
    Empty
  | Ended
  | Item item 'c

record chan_view =
  ch_items :: "item list"
  ch_limit :: nat
  ch_tx :: bool
  ch_rx :: bool

record 'c channel_lib =
  channel :: "nat \<Rightarrow> 'c"
  send :: "'c \<Rightarrow> item \<Rightarrow> 'c sending"
  poll_recv :: "'c \<Rightarrow> 'c receiving"
  drop_tx :: "'c \<Rightarrow> 'c"
  drop_rx :: "'c \<Rightarrow> 'c"
  view :: "'c \<Rightarrow> chan_view"

definition send_law :: "'c channel_lib \<Rightarrow> 'c \<Rightarrow> item \<Rightarrow> bool" where
  "send_law C c x \<longleftrightarrow>
     (case send C c x of
        Waits \<Rightarrow> ch_rx (view C c) \<and> ch_limit (view C c) \<le> length (ch_items (view C c))
      | Closed \<Rightarrow> \<not> ch_rx (view C c)
      | Sent c' \<Rightarrow> ch_rx (view C c) \<and> length (ch_items (view C c)) < ch_limit (view C c)
          \<and> view C c' = (view C c)\<lparr>ch_items := ch_items (view C c) @ [x]\<rparr>)"

definition recv_law :: "'c channel_lib \<Rightarrow> 'c \<Rightarrow> bool" where
  "recv_law C c \<longleftrightarrow>
     (case poll_recv C c of
        Empty \<Rightarrow> ch_items (view C c) = [] \<and> ch_tx (view C c)
      | Ended \<Rightarrow> ch_items (view C c) = [] \<and> \<not> ch_tx (view C c)
      | Item x c' \<Rightarrow> ch_items (view C c) = x # ch_items (view C c')
          \<and> view C c' = (view C c)\<lparr>ch_items := ch_items (view C c')\<rparr>)"

definition channel_laws :: "'c channel_lib \<Rightarrow> bool" where
  "channel_laws C \<longleftrightarrow>
     (\<forall>n. view C (channel C n) = \<lparr>ch_items = [], ch_limit = n, ch_tx = True, ch_rx = True\<rparr>)
     \<and> (\<forall>c x. send_law C c x) \<and> (\<forall>c. recv_law C c)
     \<and> (\<forall>c. view C (drop_tx C c) = (view C c)\<lparr>ch_tx := False\<rparr>)
     \<and> (\<forall>c. view C (drop_rx C c) = (view C c)\<lparr>ch_items := [], ch_rx := False\<rparr>)"

text \<open>A channel that is what it holds.\<close>

definition list_channel :: "chan_view channel_lib" where
  "list_channel =
     \<lparr>channel = (\<lambda>n. \<lparr>ch_items = [], ch_limit = n, ch_tx = True, ch_rx = True\<rparr>),
      send = (\<lambda>c x. if \<not> ch_rx c then Closed
                    else if length (ch_items c) < ch_limit c then Sent (c\<lparr>ch_items := ch_items c @ [x]\<rparr>) else Waits),
      poll_recv = (\<lambda>c. case ch_items c of x # q \<Rightarrow> Item x (c\<lparr>ch_items := q\<rparr>)
                       | [] \<Rightarrow> if ch_tx c then Empty else Ended),
      drop_tx = (\<lambda>c. c\<lparr>ch_tx := False\<rparr>), drop_rx = (\<lambda>c. c\<lparr>ch_items := [], ch_rx := False\<rparr>), view = id\<rparr>"

lemma list_channel_laws: "channel_laws list_channel"
  by (auto simp: channel_laws_def send_law_def recv_law_def list_channel_def split: list.split)

subsection \<open>Task, channel and client\<close>

datatype relay_pos =
    Reads
  | Sends item
  | Over loop_end

datatype client = Listening | Finished | Departed

record 'c pipe =
  pp_events :: response_stream
  pp_count :: nat
  pp_raw :: "(u64 \<times> bytes) list"
  pp_pos :: relay_pos
  pp_sent :: "item list"
  pp_chan :: 'c
  pp_got :: "item list"
  pp_client :: client

definition pipe_start :: "'c channel_lib \<Rightarrow> server_config \<Rightarrow> relay_task \<Rightarrow> 'c pipe" where
  "pipe_start C cfg t =
     \<lparr>pp_events = t_stream t, pp_count = 0, pp_raw = [], pp_pos = Reads, pp_sent = [],
      pp_chan = channel C (stream_channel_capacity cfg), pp_got = [], pp_client = Listening\<rparr>"

text \<open>One turn of the relay loop. The sender is dropped after the loop, and by a panic.\<close>

definition read_turn :: "proxy_lib \<Rightarrow> 'c channel_lib \<Rightarrow> bool \<Rightarrow> 'c pipe \<Rightarrow> 'c pipe" where
  "read_turn P C do_cache s =
     (case pp_events s of
        [] \<Rightarrow> s\<lparr>pp_pos := Over Completed, pp_chan := drop_tx C (pp_chan s)\<rparr>
      | Pend # evs \<Rightarrow> s\<lparr>pp_events := evs\<rparr>
      | Chunk bytes # evs \<Rightarrow>
          s\<lparr>pp_events := evs, pp_pos := Sends (Inr bytes),
            pp_raw := (if do_cache then pp_raw s @ [(word_of_int (elapsed_ms P (pp_count s)), bytes)] else pp_raw s)\<rparr>
      | Fail e # evs \<Rightarrow> s\<lparr>pp_events := evs, pp_pos := Sends (Inl e)\<rparr>
      | Abort # evs \<Rightarrow> s\<lparr>pp_events := evs, pp_pos := Over Crashed, pp_chan := drop_tx C (pp_chan s)\<rparr>)"

definition send_turn :: "'c channel_lib \<Rightarrow> item \<Rightarrow> 'c pipe \<Rightarrow> 'c pipe" where
  "send_turn C x s =
     (case send C (pp_chan s) x of
        Waits \<Rightarrow> s
      | Closed \<Rightarrow> s\<lparr>pp_pos := Over Broken, pp_chan := drop_tx C (pp_chan s)\<rparr>
      | Sent c \<Rightarrow>
          (let s' = s\<lparr>pp_sent := pp_sent s @ [x]\<rparr>
           in case x of
                Inr bytes \<Rightarrow> s'\<lparr>pp_pos := Reads, pp_count := Suc (pp_count s), pp_chan := c\<rparr>
              | Inl e \<Rightarrow> s'\<lparr>pp_pos := Over Broken, pp_chan := drop_tx C c\<rparr>))"

definition relay_turn :: "proxy_lib \<Rightarrow> 'c channel_lib \<Rightarrow> bool \<Rightarrow> 'c pipe \<Rightarrow> 'c pipe" where
  "relay_turn P C do_cache s =
     (case pp_pos s of Reads \<Rightarrow> read_turn P C do_cache s | Sends x \<Rightarrow> send_turn C x s | Over e \<Rightarrow> s)"

text \<open>\<open>ReceiverStream::poll_next\<close> is the receiver's \<open>poll_recv\<close>. The client polls it through the body of
  the response until it is told the end.\<close>

definition receiver_poll_next :: "'c channel_lib \<Rightarrow> 'c \<Rightarrow> 'c receiving" where
  "receiver_poll_next C c = poll_recv C c"

definition client_turn :: "'c channel_lib \<Rightarrow> 'c pipe \<Rightarrow> 'c pipe" where
  "client_turn C s =
     (if pp_client s = Listening then
        case receiver_poll_next C (pp_chan s) of
          Empty \<Rightarrow> s
        | Ended \<Rightarrow> s\<lparr>pp_client := Finished\<rparr>
        | Item x c \<Rightarrow> s\<lparr>pp_got := pp_got s @ [x], pp_chan := c\<rparr>
      else s)"

definition client_leaves :: "'c channel_lib \<Rightarrow> 'c pipe \<Rightarrow> 'c pipe" where
  "client_leaves C s =
     (if pp_client s = Listening then s\<lparr>pp_client := Departed, pp_chan := drop_rx C (pp_chan s)\<rparr> else s)"

inductive pipe_step :: "proxy_lib \<Rightarrow> 'c channel_lib \<Rightarrow> bool \<Rightarrow> 'c pipe \<Rightarrow> 'c pipe \<Rightarrow> bool" for P C do_cache where
  relay: "pipe_step P C do_cache s (relay_turn P C do_cache s)"
| receive: "pipe_step P C do_cache s (client_turn C s)"
| leave: "pipe_step P C do_cache s (client_leaves C s)"

inductive pipe_reach :: "proxy_lib \<Rightarrow> 'c channel_lib \<Rightarrow> server_config \<Rightarrow> relay_task \<Rightarrow> 'c pipe \<Rightarrow> bool" for P C cfg t where
  start: "pipe_reach P C cfg t (pipe_start C cfg t)"
| step: "pipe_reach P C cfg t s \<Longrightarrow> pipe_step P C (t_do_cache t) s s' \<Longrightarrow> pipe_reach P C cfg t s'"

subsection \<open>The invariant\<close>

text \<open>What the relay loop still does from here, for a client of which \<open>gone\<close> says when it left.\<close>

definition rest_of :: "proxy_lib \<Rightarrow> (nat \<Rightarrow> bool) \<Rightarrow> bool \<Rightarrow> 'c pipe \<Rightarrow> relay" where
  "rest_of P gone do_cache s =
     (case pp_pos s of
        Reads \<Rightarrow> relay_loop P gone do_cache (pp_count s) (pp_events s) (pp_raw s)
      | Sends (Inr b) \<Rightarrow>
          if gone (pp_count s) then \<lparr>rl_sent = [], rl_raw = pp_raw s, rl_end = Broken\<rparr>
          else (let r = relay_loop P gone do_cache (Suc (pp_count s)) (pp_events s) (pp_raw s)
                in r\<lparr>rl_sent := Inr b # rl_sent r\<rparr>)
      | Sends (Inl e) \<Rightarrow> \<lparr>rl_sent = (if gone (pp_count s) then [] else [Inl e]), rl_raw = pp_raw s, rl_end = Broken\<rparr>
      | Over e \<Rightarrow> \<lparr>rl_sent = [], rl_raw = pp_raw s, rl_end = e\<rparr>)"

definition relay_of :: "proxy_lib \<Rightarrow> (nat \<Rightarrow> bool) \<Rightarrow> relay_task \<Rightarrow> relay" where
  "relay_of P gone t = relay_loop P gone (t_do_cache t) 0 (t_stream t) []"

definition on_track :: "proxy_lib \<Rightarrow> relay_task \<Rightarrow> (nat \<Rightarrow> bool) \<Rightarrow> 'c pipe \<Rightarrow> bool" where
  "on_track P t gone s \<longleftrightarrow>
     relay_of P gone t = (let r = rest_of P gone (t_do_cache t) s in r\<lparr>rl_sent := pp_sent s @ rl_sent r\<rparr>)"

definition relay_ok :: "proxy_lib \<Rightarrow> relay_task \<Rightarrow> 'c pipe \<Rightarrow> bool" where
  "relay_ok P t s \<longleftrightarrow>
     (pp_client s \<noteq> Departed \<longrightarrow> on_track P t (\<lambda>_. False) s)
     \<and> (case pp_pos s of Over e \<Rightarrow> \<exists>gone. on_track P t gone s
        | _ \<Rightarrow> \<forall>gone. (\<forall>i < pp_count s. \<not> gone i) \<longrightarrow> on_track P t gone s)"

definition taken_ok :: "relay_task \<Rightarrow> 'c pipe \<Rightarrow> bool" where
  "taken_ok t s \<longleftrightarrow>
     (\<exists>pre. t_stream t = pre @ pp_events s
        \<and> length (chunks_of pre) \<le> length (pp_sent s) + (if pp_pos s = Reads then 0 else 1))"

definition chan_ok :: "server_config \<Rightarrow> 'c pipe \<Rightarrow> chan_view \<Rightarrow> bool" where
  "chan_ok cfg s v \<longleftrightarrow>
     ch_limit v = stream_channel_capacity cfg \<and> length (ch_items v) \<le> ch_limit v
     \<and> (ch_rx v \<longleftrightarrow> pp_client s \<noteq> Departed) \<and> (ch_tx v \<longleftrightarrow> (\<forall>e. pp_pos s \<noteq> Over e))
     \<and> (\<exists>lost. pp_sent s = pp_got s @ lost \<and> length lost \<le> ch_limit v \<and> (pp_client s \<noteq> Departed \<longrightarrow> lost = ch_items v))
     \<and> (pp_client s = Finished \<longrightarrow> ch_items v = [] \<and> \<not> ch_tx v)"

definition pipe_inv :: "proxy_lib \<Rightarrow> 'c channel_lib \<Rightarrow> server_config \<Rightarrow> relay_task \<Rightarrow> 'c pipe \<Rightarrow> bool" where
  "pipe_inv P C cfg t s \<longleftrightarrow> relay_ok P t s \<and> taken_ok t s \<and> chan_ok cfg s (view C (pp_chan s))"

text \<open>Turns and what is left of the loop.\<close>

lemma rest_read: "pp_pos s = Reads \<Longrightarrow> rest_of P gone dc (read_turn P C dc s) = rest_of P gone dc s"
  by (cases "pp_events s" rule: list.exhaust; simp add: rest_of_def read_turn_def)
     (auto simp: Let_def rest_of_def split: inner_event.split)

lemma read_turn_frame [simp]:
  "pp_sent (read_turn P C dc s) = pp_sent s" "pp_count (read_turn P C dc s) = pp_count s"
  "pp_got (read_turn P C dc s) = pp_got s" "pp_client (read_turn P C dc s) = pp_client s"
  by (simp_all add: read_turn_def split: list.split inner_event.split)

lemma relay_ok_read:
  assumes "pp_pos s = Reads" and "relay_ok P t s"
  shows "relay_ok P t (read_turn P C (t_do_cache t) s)"
proof -
  have tr: "on_track P t gone (read_turn P C (t_do_cache t) s) \<longleftrightarrow> on_track P t gone s" for gone
    by (simp add: on_track_def rest_read[OF assms(1)])
  from assms have "\<forall>gone. (\<forall>i < pp_count s. \<not> gone i) \<longrightarrow> on_track P t gone s" by (simp add: relay_ok_def)
  then have "on_track P t (\<lambda>_. False) s" "\<forall>gone. (\<forall>i < pp_count s. \<not> gone i) \<longrightarrow> on_track P t gone s" by simp_all
  then show ?thesis using tr by (auto simp: relay_ok_def split: relay_pos.split)
qed

lemma on_track_sent:
  assumes "pp_pos s = Sends x" and "send C (pp_chan s) x = Sent c" and "\<not> gone (pp_count s)" and "on_track P t gone s"
  shows "on_track P t gone (send_turn C x s)"
  using assms by (cases x) (simp_all add: on_track_def send_turn_def rest_of_def Let_def)

lemma channel_laws_dest:
  assumes "channel_laws C"
  shows "view C (channel C n) = \<lparr>ch_items = [], ch_limit = n, ch_tx = True, ch_rx = True\<rparr>" "send_law C c x" "recv_law C c"
    "view C (drop_tx C c) = (view C c)\<lparr>ch_tx := False\<rparr>"
    "view C (drop_rx C c) = (view C c)\<lparr>ch_items := [], ch_rx := False\<rparr>"
  using assms by (auto simp: channel_laws_def)

lemma relay_ok_send:
  assumes "channel_laws C" and "pp_pos s = Sends x" and "relay_ok P t s" and "chan_ok cfg s (view C (pp_chan s))"
  shows "relay_ok P t (send_turn C x s)"
proof -
  have any: "\<forall>gone. (\<forall>i < pp_count s. \<not> gone i) \<longrightarrow> on_track P t gone s" using assms(2,3) by (simp add: relay_ok_def)
  note law = channel_laws_dest(2)[OF assms(1), of "pp_chan s" x, unfolded send_law_def]
  show ?thesis
  proof (cases "send C (pp_chan s) x")
    case Waits
    with assms(3) show ?thesis by (simp add: send_turn_def)
  next
    case Closed
    let ?gone = "\<lambda>i. i = pp_count s"
    have "pp_client s = Departed" using law Closed assms(4) by (simp add: chan_ok_def)
    moreover have "on_track P t ?gone s" using any by simp
    then have "on_track P t ?gone (send_turn C x s)"
      using Closed assms(2) by (cases x) (simp_all add: on_track_def send_turn_def rest_of_def)
    ultimately show ?thesis using Closed by (auto simp: relay_ok_def send_turn_def)
  next
    case (Sent c)
    note go = on_track_sent[OF assms(2) Sent]
    have "on_track P t (\<lambda>_. False) (send_turn C x s)" using go any by simp
    moreover have "on_track P t gone (send_turn C x s)" if "\<forall>i < Suc (pp_count s). \<not> gone i" for gone
      using go any that by simp
    ultimately show ?thesis using Sent by (cases x) (auto simp: relay_ok_def send_turn_def Let_def)
  qed
qed

lemma taken_ok_relay: "taken_ok t s \<Longrightarrow> taken_ok t (relay_turn P C dc s)"
proof (cases "pp_pos s")
  case Reads
  assume "taken_ok t s"
  with Reads obtain pre where pre: "t_stream t = pre @ pp_events s" "length (chunks_of pre) \<le> length (pp_sent s)"
    by (auto simp: taken_ok_def)
  show ?thesis
  proof (cases "pp_events s")
    case Nil
    with pre Reads show ?thesis by (auto simp: taken_ok_def relay_turn_def read_turn_def)
  next
    case (Cons ev evs)
    with pre Reads show ?thesis
      by (cases ev) (auto simp: taken_ok_def relay_turn_def read_turn_def chunks_of_def intro!: exI[of _ "pre @ [ev]"])
  qed
next
  case (Sends x)
  assume "taken_ok t s"
  with Sends show ?thesis
    by (cases x) (auto simp: taken_ok_def relay_turn_def send_turn_def Let_def split: sending.split)
next
  case (Over e)
  assume "taken_ok t s"
  with Over show ?thesis by (simp add: relay_turn_def)
qed

lemma chan_ok_relay:
  assumes "channel_laws C" and "chan_ok cfg s (view C (pp_chan s))"
  shows "chan_ok cfg (relay_turn P C dc s) (view C (pp_chan (relay_turn P C dc s)))"
proof (cases "pp_pos s")
  case Reads
  with assms show ?thesis
    by (auto simp: chan_ok_def relay_turn_def read_turn_def channel_laws_dest(4) split: list.split inner_event.split)
next
  case (Sends x)
  note law = channel_laws_dest(2)[OF assms(1), of "pp_chan s" x, unfolded send_law_def]
  with Sends assms show ?thesis
    by (cases x; cases "send C (pp_chan s) x")
       (auto simp: chan_ok_def relay_turn_def send_turn_def channel_laws_dest(4) Let_def)
next
  case (Over e)
  with assms show ?thesis by (simp add: relay_turn_def)
qed

lemma chan_ok_client:
  assumes "channel_laws C" and "chan_ok cfg s (view C (pp_chan s))"
  shows "chan_ok cfg (client_turn C s) (view C (pp_chan (client_turn C s)))"
    and "chan_ok cfg (client_leaves C s) (view C (pp_chan (client_leaves C s)))"
proof -
  note law = channel_laws_dest(3)[OF assms(1), of "pp_chan s", unfolded recv_law_def]
  show "chan_ok cfg (client_turn C s) (view C (pp_chan (client_turn C s)))"
  proof (cases "poll_recv C (pp_chan s)")
    case (Item x c)
    define v q where v: "v = view C (pp_chan s)" and q: "q = ch_items (view C c)"
    have "ch_items v = x # q" "view C c = v\<lparr>ch_items := q\<rparr>" using law Item by (simp_all add: v q)
    with Item assms(2)[folded v] show ?thesis
      by (auto simp: chan_ok_def client_turn_def receiver_poll_next_def v[symmetric])
  qed (use law assms(2) in \<open>auto simp: chan_ok_def client_turn_def receiver_poll_next_def\<close>)
  show "chan_ok cfg (client_leaves C s) (view C (pp_chan (client_leaves C s)))"
    using assms by (auto simp: chan_ok_def client_leaves_def channel_laws_dest(5))
qed

lemma client_frame [simp]:
  "pp_pos (client_turn C s) = pp_pos s" "pp_events (client_turn C s) = pp_events s" "pp_count (client_turn C s) = pp_count s"
  "pp_sent (client_turn C s) = pp_sent s" "pp_raw (client_turn C s) = pp_raw s"
  "pp_pos (client_leaves C s) = pp_pos s" "pp_events (client_leaves C s) = pp_events s" "pp_count (client_leaves C s) = pp_count s"
  "pp_sent (client_leaves C s) = pp_sent s" "pp_raw (client_leaves C s) = pp_raw s"
  "pp_client (client_turn C s) = Departed \<longleftrightarrow> pp_client s = Departed"
  by (simp_all add: client_turn_def client_leaves_def split: receiving.split)

lemma rest_of_cong:
  "pp_pos s' = pp_pos s \<Longrightarrow> pp_events s' = pp_events s \<Longrightarrow> pp_count s' = pp_count s \<Longrightarrow> pp_raw s' = pp_raw s \<Longrightarrow>
   rest_of P gone dc s' = rest_of P gone dc s"
  by (simp add: rest_of_def split: relay_pos.split sum.split)

lemma relay_ok_client: "relay_ok P t s \<Longrightarrow> relay_ok P t (client_turn C s)" "relay_ok P t s \<Longrightarrow> relay_ok P t (client_leaves C s)"
proof -
  have tr: "on_track P t gone (client_turn C s) = on_track P t gone s"
    "on_track P t gone (client_leaves C s) = on_track P t gone s" for gone
    by (simp_all add: on_track_def rest_of_cong[of "client_turn C s" s] rest_of_cong[of "client_leaves C s" s])
  have "pp_client (client_leaves C s) \<noteq> Departed \<Longrightarrow> pp_client s \<noteq> Departed" by (simp add: client_leaves_def split: if_splits)
  with tr show "relay_ok P t s \<Longrightarrow> relay_ok P t (client_turn C s)" "relay_ok P t s \<Longrightarrow> relay_ok P t (client_leaves C s)"
    by (auto simp: relay_ok_def split: relay_pos.splits)
qed

lemma pipe_step_inv:
  assumes "channel_laws C" and "pipe_step P C (t_do_cache t) s s'" and "pipe_inv P C cfg t s"
  shows "pipe_inv P C cfg t s'"
  using assms(2)
proof (cases rule: pipe_step.cases)
  case relay
  have "relay_ok P t (relay_turn P C (t_do_cache t) s)"
    using assms(3) relay_ok_read[of s P t C] relay_ok_send[OF assms(1), of s _ P t cfg]
    by (cases "pp_pos s") (simp_all add: relay_turn_def pipe_inv_def)
  with relay assms(3) chan_ok_relay[OF assms(1)] taken_ok_relay[of t s P C] show ?thesis by (simp add: pipe_inv_def)
next
  case receive
  with assms(3) relay_ok_client(1)[of P t s C] chan_ok_client(1)[OF assms(1), of cfg s] show ?thesis by (simp add: pipe_inv_def taken_ok_def)
next
  case leave
  with assms(3) relay_ok_client(2)[of P t s C] chan_ok_client(2)[OF assms(1), of cfg s] show ?thesis by (simp add: pipe_inv_def taken_ok_def)
qed

lemma pipe_reach_inv:
  assumes "pipe_reach P C cfg t s" and "channel_laws C"
  shows "pipe_inv P C cfg t s"
  using assms(1)
proof (induction rule: pipe_reach.induct)
  case start
  show ?case
    using assms(2)
    by (simp add: pipe_inv_def relay_ok_def on_track_def relay_of_def rest_of_def taken_ok_def chan_ok_def pipe_start_def
        channel_laws_dest(1) chunks_of_def)
next
  case (step s s')
  show ?case by (rule pipe_step_inv[OF assms(2) step.hyps(2) step.IH])
qed

subsection \<open>Turns run out\<close>

definition turns_left :: "'c channel_lib \<Rightarrow> 'c pipe \<Rightarrow> nat" where
  "turns_left C s =
     4 * length (pp_events s) + (case pp_pos s of Reads \<Rightarrow> 1 | Sends x \<Rightarrow> 3 | Over e \<Rightarrow> 0)
     + length (ch_items (view C (pp_chan s))) + (if pp_client s = Listening then 1 else 0)"

lemma pipe_step_less:
  assumes "channel_laws C" and "pipe_step P C dc s s'" and "s' \<noteq> s"
  shows "turns_left C s' < turns_left C s"
  using assms(2)
proof (cases rule: pipe_step.cases)
  case relay
  show ?thesis
  proof (cases "pp_pos s")
    case Reads
    with relay show ?thesis
      by (auto simp: turns_left_def relay_turn_def read_turn_def channel_laws_dest(4)[OF assms(1)]
          split: list.split inner_event.split)
  next
    case (Sends x)
    with relay assms(3) channel_laws_dest(2)[OF assms(1), of "pp_chan s" x, unfolded send_law_def] show ?thesis
      by (cases x; cases "send C (pp_chan s) x")
         (auto simp: turns_left_def relay_turn_def send_turn_def channel_laws_dest(4)[OF assms(1)] Let_def)
  next
    case (Over e)
    with relay assms(3) show ?thesis by (simp add: relay_turn_def)
  qed
next
  case receive
  with assms(3) channel_laws_dest(3)[OF assms(1), of "pp_chan s", unfolded recv_law_def] show ?thesis
    by (cases "poll_recv C (pp_chan s)")
       (auto simp: turns_left_def client_turn_def receiver_poll_next_def split: if_splits)
next
  case leave
  with assms(3) show ?thesis
    by (auto simp: turns_left_def client_leaves_def channel_laws_dest(5)[OF assms(1)] split: if_splits)
qed

lemma pipe_stuck:
  assumes "channel_laws C" and "chan_ok cfg s (view C (pp_chan s))" and "0 < stream_channel_capacity cfg"
    and "relay_turn P C dc s = s" and "client_turn C s = s" and "pp_client s \<noteq> Departed"
  shows "pp_client s = Finished"
proof (rule ccontr)
  assume "pp_client s \<noteq> Finished"
  with assms(6) have l: "pp_client s = Listening" by (cases "pp_client s") simp_all
  have "poll_recv C (pp_chan s) = Empty"
  proof (cases "poll_recv C (pp_chan s)")
    case Ended
    then have "pp_client (client_turn C s) = Finished" using l by (simp add: client_turn_def receiver_poll_next_def)
    with assms(5) l show ?thesis by simp
  next
    case (Item x c)
    then have "pp_got (client_turn C s) = pp_got s @ [x]" using l by (simp add: client_turn_def receiver_poll_next_def)
    with assms(5) show ?thesis by simp
  qed
  with channel_laws_dest(3)[OF assms(1), of "pp_chan s", unfolded recv_law_def] have
    e: "ch_items (view C (pp_chan s)) = []" "ch_tx (view C (pp_chan s))" by simp_all
  show False
  proof (cases "pp_pos s")
    case Reads
    have "turns_left C (relay_turn P C dc s) < turns_left C s"
      using Reads by (auto simp: turns_left_def relay_turn_def read_turn_def channel_laws_dest(4)[OF assms(1)]
          split: list.split inner_event.split)
    with assms(4) show False by simp
  next
    case (Sends x)
    have "send C (pp_chan s) x \<noteq> Waits"
      using channel_laws_dest(2)[OF assms(1), of "pp_chan s" x, unfolded send_law_def] e(1) assms(2,3)
      by (cases "send C (pp_chan s) x") (auto simp: chan_ok_def)
    then have "pp_pos (relay_turn P C dc s) \<noteq> Sends x"
      using Sends by (auto simp: relay_turn_def send_turn_def Let_def split: sending.split sum.split)
    with assms(4) Sends show False by simp
  next
    case (Over r)
    with e(2) assms(2) show False by (simp add: chan_ok_def)
  qed
qed

lemma pipe_finished:
  assumes "pipe_inv P C cfg t s" and "pp_client s = Finished"
  shows "pp_pos s = Over (rl_end (relay_of P no_fault t)) \<and> pp_got s = rl_sent (relay_of P no_fault t)
    \<and> pp_raw s = rl_raw (relay_of P no_fault t)"
proof -
  from assms obtain e where e: "pp_pos s = Over e" by (auto simp: pipe_inv_def chan_ok_def)
  have "on_track P t no_fault s" "pp_sent s = pp_got s"
    using assms by (auto simp: pipe_inv_def relay_ok_def chan_ok_def)
  with e show ?thesis by (simp add: on_track_def rest_of_def Let_def)
qed

lemma pipe_gets_through:
  assumes "channel_laws C" and "0 < stream_channel_capacity cfg" and "pipe_reach P C cfg t s" and "pp_client s \<noteq> Departed"
  shows "\<exists>s'. (pipe_step P C (t_do_cache t))\<^sup>*\<^sup>* s s' \<and> pipe_reach P C cfg t s' \<and> pp_client s' = Finished"
  using assms(3,4)
proof (induction "turns_left C s" arbitrary: s rule: less_induct)
  case less
  let ?step = "pipe_step P C (t_do_cache t)"
  have go: ?case if st: "?step s s1" and "s1 \<noteq> s" and "pp_client s1 \<noteq> Departed" for s1
  proof -
    note r = pipe_reach.step[OF less.prems(1) st]
    from less.hyps[OF pipe_step_less[OF assms(1) that(1,2)] r that(3)] obtain s' where
      "?step\<^sup>*\<^sup>* s1 s'" "pipe_reach P C cfg t s'" "pp_client s' = Finished" by blast
    with st show ?case by (meson converse_rtranclp_into_rtranclp)
  qed
  have "pp_client (relay_turn P C (t_do_cache t) s) = pp_client s"
    by (auto simp: relay_turn_def send_turn_def Let_def split: relay_pos.split sending.split sum.split)
  then consider "relay_turn P C (t_do_cache t) s \<noteq> s" "pp_client (relay_turn P C (t_do_cache t) s) \<noteq> Departed"
    | "client_turn C s \<noteq> s" | "relay_turn P C (t_do_cache t) s = s" "client_turn C s = s"
    using less.prems(2) by auto
  then show ?case
  proof cases
    case 1
    show ?thesis by (rule go[OF pipe_step.relay 1])
  next
    case 2
    show ?thesis by (rule go[OF pipe_step.receive 2]) (use less.prems(2) in simp)
  next
    case 3
    have "chan_ok cfg s (view C (pp_chan s))"
      using pipe_reach_inv[OF less.prems(1) assms(1)] by (simp add: pipe_inv_def)
    from pipe_stuck[OF assms(1) this assms(2) 3 less.prems(2)] less.prems(1) show ?thesis by blast
  qed
qed

text \<open>The items of a stream as the client should see them: the chunks up to the end, or up to a failure,
  which is passed on, or a panic, which is not.\<close>

fun stream_answers :: "response_stream \<Rightarrow> item list" where
  "stream_answers [] = []"
| "stream_answers (Pend # evs) = stream_answers evs"
| "stream_answers (Chunk bytes # evs) = Inr bytes # stream_answers evs"
| "stream_answers (Fail e # evs) = [Inl e]"
| "stream_answers (Abort # evs) = []"

lemma relay_undisturbed:
  "rl_sent (relay_loop P no_fault dc n evs raw) = stream_answers evs"
  "rl_end (relay_loop P no_fault dc n evs raw) = Completed \<longleftrightarrow> \<not> list_ex is_fail evs"
  by (induction evs arbitrary: n raw rule: stream_answers.induct) (simp_all add: Let_def)

definition received_all :: "relay_task \<Rightarrow> 'c pipe \<Rightarrow> bool" where
  "received_all t s \<longleftrightarrow> pp_client s = Finished \<and> pp_got s = stream_answers (t_stream t)
     \<and> (\<exists>e. pp_pos s = Over e \<and> (e = Completed) = (\<not> list_ex is_fail (t_stream t)))"

subsection \<open>Properties\<close>

text \<open>C15: The channel is transparent. Whatever the capacity of the channel and however the turns of the
  task and the client follow each other, when the relay loop is over it has sent, kept and decided
  what the loop of the task does for some moment at which the client left (none, if it did not leave); the
  client has received a beginning of what was sent, in order, and all of it when it was told the end.\<close>

theorem channel_is_transparent:
  assumes "channel_laws C" and "pipe_reach P C cfg t s" and "pp_pos s = Over e"
  shows "(\<exists>gone. relay_loop P gone (t_do_cache t) 0 (t_stream t) [] = \<lparr>rl_sent = pp_sent s, rl_raw = pp_raw s, rl_end = e\<rparr>
      \<and> (pp_client s \<noteq> Departed \<longrightarrow> gone = (\<lambda>_. False)))
    \<and> (\<exists>lost. pp_sent s = pp_got s @ lost \<and> (pp_client s = Finished \<longrightarrow> lost = []))"
proof (rule conjI)
  note inv = pipe_reach_inv[OF assms(2,1)]
  have r: "on_track P t gone s \<longleftrightarrow>
      relay_loop P gone (t_do_cache t) 0 (t_stream t) [] = \<lparr>rl_sent = pp_sent s, rl_raw = pp_raw s, rl_end = e\<rparr>" for gone
    by (simp add: on_track_def relay_of_def rest_of_def assms(3))
  from inv have "pp_client s \<noteq> Departed \<longrightarrow> on_track P t (\<lambda>_. False) s" "\<exists>gone. on_track P t gone s"
    by (simp_all add: pipe_inv_def relay_ok_def assms(3))
  then show "\<exists>gone. relay_loop P gone (t_do_cache t) 0 (t_stream t) [] = \<lparr>rl_sent = pp_sent s, rl_raw = pp_raw s, rl_end = e\<rparr>
      \<and> (pp_client s \<noteq> Departed \<longrightarrow> gone = (\<lambda>_. False))"
    unfolding r by (cases "pp_client s = Departed") auto
  from inv show "\<exists>lost. pp_sent s = pp_got s @ lost \<and> (pp_client s = Finished \<longrightarrow> lost = [])"
    by (auto simp: pipe_inv_def chan_ok_def)
qed

text \<open>The run of the witnesses, over a channel that holds one item.\<close>

definition wit_narrow :: server_config where
  "wit_narrow = wit_cfg\<lparr>stream_channel_capacity := 1\<rparr>"

lemma wit_pipe:
  obtains s where "pipe_reach wit_proxy list_channel wit_narrow wit_task s" and "pp_pos s = Over Completed"
    and "pp_client s = Finished" and "pp_got s = rl_sent wit_relay"
proof -
  have "0 < stream_channel_capacity wit_narrow" by (simp add: wit_narrow_def)
  from pipe_gets_through[OF list_channel_laws this pipe_reach.start] obtain s where
    s: "pipe_reach wit_proxy list_channel wit_narrow wit_task s" "pp_client s = Finished"
    by (auto simp: pipe_start_def)
  have w: "rl_sent (relay_of wit_proxy no_fault wit_task) = rl_sent wit_relay"
    "rl_end (relay_of wit_proxy no_fault wit_task) = Completed" by code_simp+
  from pipe_finished[OF pipe_reach_inv[OF s(1) list_channel_laws] s(2)] have
    "pp_pos s = Over Completed" "pp_got s = rl_sent wit_relay" unfolding w by blast+
  with s show thesis by (intro that)
qed

theorem channel_is_transparent_witness:
  "\<exists>s. pipe_reach wit_proxy list_channel wit_narrow wit_task s \<and> pp_pos s = Over Completed \<and> pp_sent s = pp_got s
     \<and> pp_got s = rl_sent wit_relay"
proof (rule wit_pipe)
  fix s assume s: "pipe_reach wit_proxy list_channel wit_narrow wit_task s" "pp_pos s = Over Completed"
    "pp_client s = Finished" "pp_got s = rl_sent wit_relay"
  from channel_is_transparent[OF list_channel_laws s(1,2)] s show ?thesis by (intro exI[of _ s]) auto
qed

text \<open>C29: Back pressure. The task never runs ahead of its client by more than the capacity of the
  channel: of the chunks of the stream it has taken at most the capacity and one more than the
  client has received, and what lies in the channel is at most its capacity.\<close>

theorem channel_bounds_what_is_in_flight:
  assumes "channel_laws C" and "pipe_reach P C cfg t s"
  shows "\<exists>taken. t_stream t = taken @ pp_events s
      \<and> length (chunks_of taken) \<le> length (pp_got s) + stream_channel_capacity cfg + 1
      \<and> length (ch_items (view C (pp_chan s))) \<le> stream_channel_capacity cfg"
proof -
  have inv: "taken_ok t s" "chan_ok cfg s (view C (pp_chan s))"
    using pipe_reach_inv[OF assms(2,1)] by (simp_all add: pipe_inv_def)
  from inv(1) obtain pre where "t_stream t = pre @ pp_events s"
    "length (chunks_of pre) \<le> length (pp_sent s) + (if pp_pos s = Reads then 0 else 1)" unfolding taken_ok_def by blast
  moreover from inv(2) have "length (pp_sent s) \<le> length (pp_got s) + stream_channel_capacity cfg"
    "length (ch_items (view C (pp_chan s))) \<le> stream_channel_capacity cfg" by (auto simp: chan_ok_def)
  ultimately show ?thesis by (intro exI[of _ pre]) (auto split: if_splits)
qed

text \<open>The bound is reached: with room for one item, the task has taken two chunks before the client
  received any, and waits.\<close>

definition wit_ahead :: "chan_view pipe" where
  "wit_ahead = (relay_turn wit_proxy list_channel True ^^ 4) (pipe_start list_channel wit_narrow wit_task)"

lemma pipe_reach_relay_turns:
  "pipe_reach P C cfg t s \<Longrightarrow> pipe_reach P C cfg t ((relay_turn P C (t_do_cache t) ^^ n) s)"
  by (induction n) (auto intro: pipe_reach.step pipe_step.relay)

theorem channel_bounds_what_is_in_flight_witness:
  "\<exists>taken. t_stream wit_task = taken @ pp_events wit_ahead
     \<and> length (chunks_of taken) = 2 \<and> length (chunks_of taken) \<le> length (pp_got wit_ahead) + 1 + 1
     \<and> pp_got wit_ahead = []"
proof -
  have w: "t_do_cache wit_task = True" "stream_channel_capacity wit_narrow = 1" by (simp_all add: wit_task_def wit_narrow_def)
  have r: "pipe_reach wit_proxy list_channel wit_narrow wit_task wit_ahead"
    unfolding wit_ahead_def w(1)[symmetric] by (rule pipe_reach_relay_turns[OF pipe_reach.start])
  have e: "pp_events wit_ahead = []" "pp_got wit_ahead = []" "length (chunks_of (t_stream wit_task)) = 2" by code_simp+
  from channel_bounds_what_is_in_flight[OF list_channel_laws r] e w(2) show ?thesis
    by auto
qed

text \<open>C28: The response gets through. With a capacity of at least one there is no infinite sequence of
  turns that change something, and as long as the client does not leave, when neither the
  task nor the client can do anything more, the client has been told the end and has received
  exactly the chunks of the stream in their order, with its failure if it has one, and the task is over,
  as complete only if the stream did not fail; and from every such state some turns lead there.\<close>

theorem relay_gets_through:
  assumes "channel_laws C" and "0 < stream_channel_capacity cfg" and "pipe_reach P C cfg t s" and "pp_client s \<noteq> Departed"
  shows "wf {(x', x). pipe_step P C (t_do_cache t) x x' \<and> x' \<noteq> x}
    \<and> (relay_turn P C (t_do_cache t) s = s \<and> client_turn C s = s \<longrightarrow> received_all t s)
    \<and> (\<exists>s'. (pipe_step P C (t_do_cache t))\<^sup>*\<^sup>* s s' \<and> received_all t s')"
proof (intro conjI impI)
  have fin: "received_all t x" if "pipe_reach P C cfg t x" "pp_client x = Finished" for x
    using pipe_finished[OF pipe_reach_inv[OF that(1) assms(1)] that(2)] that(2)
    by (simp add: received_all_def relay_of_def relay_undisturbed)
  show "wf {(x', x). pipe_step P C (t_do_cache t) x x' \<and> x' \<noteq> x}"
    by (rule wf_subset[OF wf_measure[of "turns_left C"]]) (auto intro: pipe_step_less[OF assms(1)])
  have ok: "chan_ok cfg s (view C (pp_chan s))" using pipe_reach_inv[OF assms(3,1)] by (simp add: pipe_inv_def)
  show "received_all t s" if "relay_turn P C (t_do_cache t) s = s \<and> client_turn C s = s"
    by (rule fin[OF assms(3) pipe_stuck[OF assms(1) ok assms(2) conjunct1[OF that] conjunct2[OF that] assms(4)]])
  from pipe_gets_through[OF assms] fin
  show "\<exists>s'. (pipe_step P C (t_do_cache t))\<^sup>*\<^sup>* s s' \<and> received_all t s'" by blast
qed

theorem relay_gets_through_witness:
  "\<exists>s'. (pipe_step wit_proxy list_channel True)\<^sup>*\<^sup>* (pipe_start list_channel wit_narrow wit_task) s'
     \<and> pp_client s' = Finished \<and> pp_got s' = [Inr (''data: '' @ [CHR 0xC3]), Inr [CHR 0xA9]] \<and> pp_pos s' = Over Completed"
proof -
  have "0 < stream_channel_capacity wit_narrow" "pp_client (pipe_start list_channel wit_narrow wit_task) \<noteq> Departed"
    by (simp_all add: wit_narrow_def pipe_start_def)
  from relay_gets_through[OF list_channel_laws this(1) pipe_reach.start this(2), of wit_proxy] obtain s' where
    "(pipe_step wit_proxy list_channel (t_do_cache wit_task))\<^sup>*\<^sup>* (pipe_start list_channel wit_narrow wit_task) s'"
    "received_all wit_task s'" by blast
  moreover have "stream_answers (t_stream wit_task) = [Inr (''data: '' @ [CHR 0xC3]), Inr [CHR 0xA9]]"
    "\<not> list_ex is_fail (t_stream wit_task)" "t_do_cache wit_task = True" by (simp_all add: wit_task_def wit_upstream_def)
  ultimately show ?thesis by (auto simp: received_all_def)
qed

end
