(* ===== verification/Config.thy ===== *)
theory Config
  imports Server
begin

text \<open>
  The command line program, \<open>crates/lcp/src/main.rs\<close>: where the configuration file is looked for,
  how its values become environment variables, what the options then are, the extension pipeline that
  the configuration asks for, and the configuration the server is started with.

  Parameters: the file system and the user's directories (\<open>host_lib\<close>), TOML, what \<open>clap\<close>
  finds for an option in the arguments, and the parsers of numbers and socket addresses
  (\<open>arg_lib\<close>). The attributes of the \<open>Cli\<close> struct are read as \<open>clap\<close> documents them: the
  flag if it is given, else the environment variable, else \<open>default_value\<close>; a value that does not
  parse ends the program (\<open>None\<close>). Paths are byte strings with the separator \<open>/\<close>. Arguments
  are assumed to be Unicode (\<open>std::env::args\<close> panics on others).
\<close>

type_synonym env = "string \<Rightarrow> bytes option"

record host_lib =
  read_to_string :: "string \<Rightarrow> string option"
  config_dir :: "string option"
  cache_dir :: "string option"
  home_dir :: "string option"
  path_parent :: "string \<Rightarrow> string option"
  create_dir_all :: "string \<Rightarrow> string option"

record doppel_config =
  secrets_file :: "string option"

record extensions_config =
  doppel_cfg :: "doppel_config option"

record file_config =
  fc_port :: "u16 option"
  fc_host :: "string option"
  fc_db :: "string option"
  fc_ttl :: "u64 option"
  fc_timeout :: "u64 option"
  fc_body_limit :: "u64 option"
  fc_anthropic_upstream :: "string option"
  fc_openai_upstream :: "string option"
  fc_openrouter_upstream :: "string option"
  fc_gemini_upstream :: "string option"
  fc_extensions :: "extensions_config option"

record arg_lib =
  toml_config :: "string \<Rightarrow> file_config option"
  argv_value :: "string list \<Rightarrow> string \<Rightarrow> bytes option"
  argv_flag :: "string list \<Rightarrow> string \<Rightarrow> bool"
  parse_u16 :: "string \<Rightarrow> u16 option"
  parse_u64 :: "string \<Rightarrow> u64 option"
  parse_addr :: "string \<Rightarrow> string + string"

record cli =
  cl_config :: "string option"
  cl_print_config :: bool
  cl_port :: u16
  cl_host :: string
  cl_db :: "string option"
  cl_ttl :: u64
  cl_timeout :: u64
  cl_body_limit :: u64
  cl_anthropic_upstream :: "string option"
  cl_openai_upstream :: "string option"
  cl_openrouter_upstream :: "string option"
  cl_gemini_upstream :: "string option"
  cl_doppel_secrets_file :: "string option"

subsection \<open>Paths and numbers\<close>

text \<open>\<open>Path::join\<close>: an absolute path replaces the base.\<close>

definition path_join :: "string \<Rightarrow> string \<Rightarrow> string" where
  "path_join base p =
     (if starts_with p ''/'' then p
      else if base = [] \<or> last base = CHR ''/'' then base @ p
      else base @ ''/'' @ p)"

definition or_dot :: "string option \<Rightarrow> string" where
  "or_dot d = (case d of Some s \<Rightarrow> s | None \<Rightarrow> ''.'')"

definition default_config_path :: "host_lib \<Rightarrow> string" where
  "default_config_path H = path_join (path_join (or_dot (config_dir H)) ''lcp'') ''config.toml''"

definition default_db_path :: "host_lib \<Rightarrow> string" where
  "default_db_path H = path_join (path_join (or_dot (cache_dir H)) ''lcp'') ''cache.db''"

definition expand_tilde :: "host_lib \<Rightarrow> string \<Rightarrow> string" where
  "expand_tilde H s =
     (if s = ''~'' then (case home_dir H of Some home \<Rightarrow> home | None \<Rightarrow> ''~'')
      else case strip_prefix ''~/'' s of
        Some rest \<Rightarrow> (case home_dir H of Some home \<Rightarrow> path_join home rest | None \<Rightarrow> s)
      | None \<Rightarrow> s)"

subsection \<open>The configuration file\<close>

text \<open>\<open>std::env::var\<close>: an unset variable and one that is not Unicode are errors.\<close>

definition env_var :: "env \<Rightarrow> string \<Rightarrow> string option" where
  "env_var env k = (case env k of Some v \<Rightarrow> if valid_utf8 v then Some v else None | None \<Rightarrow> None)"

fun config_flag :: "string list \<Rightarrow> string option option" where
  "config_flag [] = None"
| "config_flag (arg # rest) =
     (if arg = ''--config'' then Some (case rest of p # _ \<Rightarrow> Some p | [] \<Rightarrow> None)
      else case strip_prefix ''--config='' arg of
        Some path \<Rightarrow> Some (Some path)
      | None \<Rightarrow> config_flag rest)"

definition config_path_from_args :: "string list \<Rightarrow> env \<Rightarrow> string option" where
  "config_path_from_args args env =
     (case config_flag args of
        Some r \<Rightarrow> r
      | None \<Rightarrow>
          (case env_var env ''LCP_CONFIG'' of
             Some v \<Rightarrow> if v \<noteq> [] then Some v else None
           | None \<Rightarrow> None))"

definition seed :: "string \<Rightarrow> string option \<Rightarrow> env \<Rightarrow> env" where
  "seed var val env =
     (case val of
        Some v \<Rightarrow> if env_var env var = None then env(var \<mapsto> v) else env
      | None \<Rightarrow> env)"

definition number :: "('a :: len) word option \<Rightarrow> string option" where
  "number w = map_option (\<lambda>n. decimal (unat n)) w"

definition seed_all :: "file_config \<Rightarrow> env \<Rightarrow> env" where
  "seed_all fc env =
     seed ''LCP_GEMINI_UPSTREAM'' (fc_gemini_upstream fc)
      (seed ''LCP_OPENROUTER_UPSTREAM'' (fc_openrouter_upstream fc)
       (seed ''LCP_OPENAI_UPSTREAM'' (fc_openai_upstream fc)
        (seed ''LCP_ANTHROPIC_UPSTREAM'' (fc_anthropic_upstream fc)
         (seed ''LCP_BODY_LIMIT'' (number (fc_body_limit fc))
          (seed ''LCP_TIMEOUT'' (number (fc_timeout fc))
           (seed ''LCP_TTL'' (number (fc_ttl fc))
            (seed ''LCP_DB'' (fc_db fc)
             (seed ''LCP_HOST'' (fc_host fc)
              (seed ''LCP_PORT'' (number (fc_port fc)) env)))))))))"

text \<open>The parsed file, when there is a readable and well-formed one, and the environment after it.\<close>

definition seed_env_from_config_file ::
  "host_lib \<Rightarrow> arg_lib \<Rightarrow> string \<Rightarrow> env \<Rightarrow> file_config option \<times> env" where
  "seed_env_from_config_file H A path env =
     (case read_to_string H path of
        None \<Rightarrow> (None, env)
      | Some contents \<Rightarrow>
          (case toml_config A contents of
             None \<Rightarrow> (None, env)
           | Some fc \<Rightarrow> (Some fc, seed_all fc env)))"

subsection \<open>The options\<close>

definition option_text :: "arg_lib \<Rightarrow> string list \<Rightarrow> env \<Rightarrow> string \<Rightarrow> string \<Rightarrow> string option \<Rightarrow> bytes option" where
  "option_text A args env flag var dflt =
     (case argv_value A args flag of
        Some v \<Rightarrow> Some v
      | None \<Rightarrow> (case env var of Some v \<Rightarrow> Some v | None \<Rightarrow> dflt))"

text \<open>A required value through its parser, and an optional one: \<open>None\<close> is a usage error.\<close>

definition required :: "(string \<Rightarrow> 'a option) \<Rightarrow> bytes option \<Rightarrow> 'a option" where
  "required parse v = (case v of Some s \<Rightarrow> parse s | None \<Rightarrow> None)"

definition optional :: "(string \<Rightarrow> 'a option) \<Rightarrow> bytes option \<Rightarrow> 'a option option" where
  "optional parse v = (case v of Some s \<Rightarrow> map_option Some (parse s) | None \<Rightarrow> Some None)"

definition unicode :: "bytes \<Rightarrow> string option" where
  "unicode s = (if valid_utf8 s then Some s else None)"

definition cli_parse :: "arg_lib \<Rightarrow> string list \<Rightarrow> env \<Rightarrow> cli option" where
  "cli_parse A args env =
     (let opt = option_text A args env;
          upstream = (\<lambda>flag var. optional unicode (opt flag var None))
      in Option.bind (required (parse_u16 A) (opt ''port'' ''LCP_PORT'' (Some ''9001''))) (\<lambda>port.
         Option.bind (required unicode (opt ''host'' ''LCP_HOST'' (Some ''127.0.0.1''))) (\<lambda>host.
         Option.bind (required (parse_u64 A) (opt ''ttl'' ''LCP_TTL'' (Some ''0''))) (\<lambda>ttl.
         Option.bind (required (parse_u64 A) (opt ''timeout'' ''LCP_TIMEOUT'' (Some ''300''))) (\<lambda>timeout.
         Option.bind (required (parse_u64 A) (opt ''body-limit'' ''LCP_BODY_LIMIT'' (Some ''104857600''))) (\<lambda>body_limit.
         Option.bind (upstream ''anthropic-upstream'' ''LCP_ANTHROPIC_UPSTREAM'') (\<lambda>anthropic.
         Option.bind (upstream ''openai-upstream'' ''LCP_OPENAI_UPSTREAM'') (\<lambda>openai.
         Option.bind (upstream ''openrouter-upstream'' ''LCP_OPENROUTER_UPSTREAM'') (\<lambda>openrouter.
         Option.bind (upstream ''gemini-upstream'' ''LCP_GEMINI_UPSTREAM'') (\<lambda>gemini.
           Some \<lparr>cl_config = opt ''config'' ''LCP_CONFIG'' None, cl_print_config = argv_flag A args ''print-config'',
             cl_port = port, cl_host = host, cl_db = opt ''db'' ''LCP_DB'' None, cl_ttl = ttl,
             cl_timeout = timeout, cl_body_limit = body_limit, cl_anthropic_upstream = anthropic,
             cl_openai_upstream = openai, cl_openrouter_upstream = openrouter, cl_gemini_upstream = gemini,
             cl_doppel_secrets_file = opt ''doppel-secrets-file'' ''LCP_DOPPEL_SECRETS_FILE'' None\<rparr>))))))))))"

subsection \<open>The extension pipeline\<close>

definition file_secrets :: "extensions_config option \<Rightarrow> string option" where
  "file_secrets ext = Option.bind ext (\<lambda>e. Option.bind (doppel_cfg e) secrets_file)"

definition otherwise :: "'a option \<Rightarrow> 'a option \<Rightarrow> 'a option" where
  "otherwise a b = (case a of Some x \<Rightarrow> Some x | None \<Rightarrow> b)"

definition build_extension_pipeline ::
  "host_lib \<Rightarrow> ('f, 'p, 'd) doppel_load \<Rightarrow> ('d, 'e, 'k) doppel_swap \<Rightarrow> ('e, 'k) doppel_stream
   \<Rightarrow> extensions_config option \<Rightarrow> extension_pipeline" where
  "build_extension_pipeline H F L W ext =
     (case ext of
        None \<Rightarrow> pipeline_new
      | Some ext \<Rightarrow>
          (case doppel_cfg ext of
             None \<Rightarrow> pipeline_new
           | Some cfg \<Rightarrow>
               (case secrets_file cfg of
                  None \<Rightarrow> pipeline_new
                | Some raw_path \<Rightarrow>
                    (case from_secrets_file F (expand_tilde H raw_path) of
                       Inr detector \<Rightarrow> register (doppel_extension L W detector) pipeline_new
                     | Inl e \<Rightarrow> pipeline_new))))"

text \<open>The flag or its variable, else the file.\<close>

definition doppel_secrets :: "cli \<Rightarrow> file_config option \<Rightarrow> string option" where
  "doppel_secrets cli file_cfg =
     otherwise (map_option from_utf8_lossy (cl_doppel_secrets_file cli)) (file_secrets (Option.bind file_cfg fc_extensions))"

definition merged_ext :: "cli \<Rightarrow> file_config option \<Rightarrow> extensions_config option" where
  "merged_ext cli file_cfg =
     map_option (\<lambda>s. \<lparr>doppel_cfg = Some \<lparr>secrets_file = Some s\<rparr>\<rparr>) (doppel_secrets cli file_cfg)"

text \<open>An \<open>[extensions.doppel]\<close> section without \<open>secrets_file\<close> is gone before the pipeline is built,
  so the branch of \<open>build_extension_pipeline\<close> that warns about it is never taken.\<close>

lemma unset_secrets_file_is_not_seen:
  "merged_ext cli file_cfg = Some ext \<Longrightarrow> \<exists>d s. doppel_cfg ext = Some d \<and> secrets_file d = Some s"
  "cl_doppel_secrets_file cli = None \<Longrightarrow>
     merged_ext cli (Some (fc\<lparr>fc_extensions := Some \<lparr>doppel_cfg = Some \<lparr>secrets_file = None\<rparr>\<rparr>\<rparr>)) = None"
  by (auto simp: merged_ext_def doppel_secrets_def file_secrets_def otherwise_def)

subsection \<open>Starting\<close>

definition db_path_of :: "host_lib \<Rightarrow> cli \<Rightarrow> string" where
  "db_path_of H cli =
     (case cl_db cli of Some p \<Rightarrow> expand_tilde H (from_utf8_lossy p) | None \<Rightarrow> default_db_path H)"

definition quoted_line :: "string \<Rightarrow> string option \<Rightarrow> string" where
  "quoted_line key u =
     (case u of Some s \<Rightarrow> key @ '' = '' @ [CHR 0x22] @ s @ [CHR 0x22]
      | None \<Rightarrow> ''# '' @ key @ '' = '' @ [CHR 0x22, CHR 0x22])"

text \<open>Values are put between quotes as they are: a value that holds a quote ends early.\<close>

lemma printed_value_is_not_escaped:
  "quoted_line ''db'' (Some (''a'' @ [CHR 0x22] @ ''b'')) = ''db = '' @ [CHR 0x22] @ ''a'' @ [CHR 0x22] @ ''b'' @ [CHR 0x22]"
  by (simp add: quoted_line_def)

definition print_config :: "host_lib \<Rightarrow> cli \<Rightarrow> extensions_config option \<Rightarrow> string list" where
  "print_config H cli ext =
     [''port = '' @ decimal (unat (cl_port cli)),
      quoted_line ''host'' (Some (cl_host cli)),
      quoted_line ''db'' (Some (from_utf8_lossy (db_path_of H cli))),
      ''ttl = '' @ decimal (unat (cl_ttl cli)),
      ''timeout = '' @ decimal (unat (cl_timeout cli)),
      ''body_limit = '' @ decimal (unat (cl_body_limit cli)),
      quoted_line ''anthropic_upstream'' (cl_anthropic_upstream cli),
      quoted_line ''openai_upstream'' (cl_openai_upstream cli),
      quoted_line ''openrouter_upstream'' (cl_openrouter_upstream cli),
      quoted_line ''gemini_upstream'' (cl_gemini_upstream cli),
      []]
     @ (case otherwise (map_option from_utf8_lossy (cl_doppel_secrets_file cli)) (file_secrets ext) of
          Some p \<Rightarrow> [''[extensions.doppel]'', quoted_line ''secrets_file'' (Some p)]
        | None \<Rightarrow> [''# [extensions.doppel]'', quoted_line ''secrets_file'' None @ ''  # run: doppel init <path>''])"

datatype start_error =
    CreateDirError string
  | CacheOpenError cache_error
  | AddrError string

datatype outcome =
    UsageError
  | Printed "string list"
  | Failed start_error
  | Serving server_config cache

definition run ::
  "host_lib \<Rightarrow> arg_lib \<Rightarrow> ('f, 'p, 'd) doppel_load \<Rightarrow> ('d, 'e, 'k) doppel_swap \<Rightarrow> ('e, 'k) doppel_stream
   \<Rightarrow> (nat \<Rightarrow> bool) \<Rightarrow> (string \<Rightarrow> db_file) \<Rightarrow> cli \<Rightarrow> file_config option \<Rightarrow> outcome" where
  "run H A F L W fault disk cli file_cfg =
     (let db_path = db_path_of H cli
      in case Option.bind (path_parent H db_path) (create_dir_all H) of
           Some e \<Rightarrow> Failed (CreateDirError e)
         | None \<Rightarrow>
             (case cache_open fault (disk db_path) (cl_ttl cli) of
                Inl e \<Rightarrow> Failed (CacheOpenError e)
              | Inr cache \<Rightarrow>
                  (let exts = build_extension_pipeline H F L W (merged_ext cli file_cfg)
                   in case parse_addr A (cl_host cli @ '':'' @ decimal (unat (cl_port cli))) of
                        Inl e \<Rightarrow> Failed (AddrError e)
                      | Inr a \<Rightarrow> Serving \<lparr>addr = a, timeout_seconds = cl_timeout cli,
                          body_limit_bytes = cl_body_limit cli, anthropic_upstream = cl_anthropic_upstream cli,
                          openai_upstream = cl_openai_upstream cli, openrouter_upstream = cl_openrouter_upstream cli,
                          gemini_upstream = cl_gemini_upstream cli, stream_channel_capacity = 32,
                          extensions = exts\<rparr> cache)))"

definition main ::
  "host_lib \<Rightarrow> arg_lib \<Rightarrow> ('f, 'p, 'd) doppel_load \<Rightarrow> ('d, 'e, 'k) doppel_swap \<Rightarrow> ('e, 'k) doppel_stream
   \<Rightarrow> (nat \<Rightarrow> bool) \<Rightarrow> (string \<Rightarrow> db_file) \<Rightarrow> string list \<Rightarrow> env \<Rightarrow> outcome" where
  "main H A F L W fault disk args env =
     (let config_path = (case config_path_from_args args env of Some p \<Rightarrow> p | None \<Rightarrow> default_config_path H);
          (file_cfg, env') = seed_env_from_config_file H A config_path env
      in case cli_parse A args env' of
           None \<Rightarrow> UsageError
         | Some cli \<Rightarrow>
             if cl_print_config cli then Printed (print_config H cli (Option.bind file_cfg fc_extensions))
             else run H A F L W fault disk cli file_cfg)"

subsection \<open>What the options are\<close>

lemma otherwise_simps [simp]: "otherwise (Some x) b = Some x" "otherwise None b = b" "otherwise a None = a"
  by (simp_all add: otherwise_def split: option.split)

lemma otherwise_assoc: "otherwise (otherwise a b) c = otherwise a (otherwise b c)"
  by (cases a) simp_all

lemma option_text_otherwise:
  "option_text A args env flag var dflt = otherwise (argv_value A args flag) (otherwise (env var) dflt)"
  by (simp add: option_text_def otherwise_def split: option.split)

lemma cli_parse_fields:
  assumes "cli_parse A args env = Some cli"
  shows "required (parse_u16 A) (option_text A args env ''port'' ''LCP_PORT'' (Some ''9001'')) = Some (cl_port cli)"
    "required unicode (option_text A args env ''host'' ''LCP_HOST'' (Some ''127.0.0.1'')) = Some (cl_host cli)"
    "required (parse_u64 A) (option_text A args env ''ttl'' ''LCP_TTL'' (Some ''0'')) = Some (cl_ttl cli)"
    "required (parse_u64 A) (option_text A args env ''timeout'' ''LCP_TIMEOUT'' (Some ''300'')) = Some (cl_timeout cli)"
    "required (parse_u64 A) (option_text A args env ''body-limit'' ''LCP_BODY_LIMIT'' (Some ''104857600'')) = Some (cl_body_limit cli)"
    "optional unicode (option_text A args env ''anthropic-upstream'' ''LCP_ANTHROPIC_UPSTREAM'' None) = Some (cl_anthropic_upstream cli)"
    "optional unicode (option_text A args env ''openai-upstream'' ''LCP_OPENAI_UPSTREAM'' None) = Some (cl_openai_upstream cli)"
    "optional unicode (option_text A args env ''openrouter-upstream'' ''LCP_OPENROUTER_UPSTREAM'' None) = Some (cl_openrouter_upstream cli)"
    "optional unicode (option_text A args env ''gemini-upstream'' ''LCP_GEMINI_UPSTREAM'' None) = Some (cl_gemini_upstream cli)"
    "option_text A args env ''db'' ''LCP_DB'' None = cl_db cli"
    "option_text A args env ''doppel-secrets-file'' ''LCP_DOPPEL_SECRETS_FILE'' None = cl_doppel_secrets_file cli"
  using assms by (auto simp: cli_parse_def Let_def bind_eq_Some_conv)

text \<open>Seeding a variable only fills it when it is not set.\<close>

lemma seed_other: "k \<noteq> var \<Longrightarrow> seed var val env k = env k"
  by (simp add: seed_def split: option.split)

lemma seed_env_var_other: "k \<noteq> var \<Longrightarrow> env_var (seed var val env) k = env_var env k"
  by (simp add: env_var_def seed_other)

lemma seed_same: "env_var env var = env var \<Longrightarrow> seed var val env var = otherwise (env var) val"
  by (simp add: seed_def otherwise_def split: option.split)

lemma env_var_eq: "(\<And>k v. env k = Some v \<Longrightarrow> valid_utf8 v) \<Longrightarrow> env_var env k = env k"
  by (simp add: env_var_def split: option.split)

lemma seed_all_var:
  assumes "\<And>k v. env k = Some v \<Longrightarrow> valid_utf8 v"
  shows "seed_all fc env ''LCP_PORT'' = otherwise (env ''LCP_PORT'') (number (fc_port fc))"
    "seed_all fc env ''LCP_HOST'' = otherwise (env ''LCP_HOST'') (fc_host fc)"
    "seed_all fc env ''LCP_DB'' = otherwise (env ''LCP_DB'') (fc_db fc)"
    "seed_all fc env ''LCP_TTL'' = otherwise (env ''LCP_TTL'') (number (fc_ttl fc))"
    "seed_all fc env ''LCP_TIMEOUT'' = otherwise (env ''LCP_TIMEOUT'') (number (fc_timeout fc))"
    "seed_all fc env ''LCP_BODY_LIMIT'' = otherwise (env ''LCP_BODY_LIMIT'') (number (fc_body_limit fc))"
    "seed_all fc env ''LCP_ANTHROPIC_UPSTREAM'' = otherwise (env ''LCP_ANTHROPIC_UPSTREAM'') (fc_anthropic_upstream fc)"
    "seed_all fc env ''LCP_OPENAI_UPSTREAM'' = otherwise (env ''LCP_OPENAI_UPSTREAM'') (fc_openai_upstream fc)"
    "seed_all fc env ''LCP_OPENROUTER_UPSTREAM'' = otherwise (env ''LCP_OPENROUTER_UPSTREAM'') (fc_openrouter_upstream fc)"
    "seed_all fc env ''LCP_GEMINI_UPSTREAM'' = otherwise (env ''LCP_GEMINI_UPSTREAM'') (fc_gemini_upstream fc)"
    "seed_all fc env ''LCP_DOPPEL_SECRETS_FILE'' = env ''LCP_DOPPEL_SECRETS_FILE''"
  by (simp_all add: seed_all_def seed_other seed_env_var_other seed_same env_var_eq[OF assms])

text \<open>A text given by the flag or the variable.\<close>

definition given :: "arg_lib \<Rightarrow> string list \<Rightarrow> env \<Rightarrow> string \<Rightarrow> string \<Rightarrow> bytes option" where
  "given A args env flag var = otherwise (argv_value A args flag) (env var)"

definition numbers_parse :: "arg_lib \<Rightarrow> bool" where
  "numbers_parse A \<longleftrightarrow> (\<forall>n. parse_u16 A (decimal (unat n)) = Some n) \<and> (\<forall>n. parse_u64 A (decimal (unat n)) = Some n)"

lemma required_number:
  assumes "\<And>n. parse (decimal (unat n)) = Some n"
  shows "required parse (otherwise a (otherwise e (otherwise (number f) (Some d))))
    = (case otherwise a e of Some s \<Rightarrow> parse s | None \<Rightarrow> otherwise f (parse d))"
  by (cases a; cases e; cases f) (simp_all add: required_def number_def assms)

lemma optional_unicode: "optional unicode x = Some y \<Longrightarrow> y = x"
  by (auto simp: optional_def unicode_def split: option.splits if_splits)

lemma required_unicode: "required unicode x = Some y \<Longrightarrow> x = Some y"
  by (auto simp: required_def unicode_def split: option.splits if_splits)


text \<open>Reading decimal digits, for the witness.\<close>

definition undecimal :: "string \<Rightarrow> nat" where
  "undecimal s = foldl (\<lambda>a c. a * 10 + (of_char c - 48)) 0 s"

lemma digit: "d < 10 \<Longrightarrow> of_char (char_of (48 + d :: nat) :: char) - 48 = d"
proof -
  assume "d < 10"
  then have "(48 + d) mod 256 = 48 + d" by simp
  then show ?thesis by (simp only: of_char_of diff_add_inverse)
qed

lemma undecimal_decimal [simp]: "undecimal (decimal n) = n"
proof (induction n rule: decimal.induct)
  case (1 n)
  show ?case
  proof (cases "n < 10")
    case True
    then have "decimal n = [char_of (48 + n)]" by (subst decimal.simps) simp
    with digit[OF True] show ?thesis by (simp only: undecimal_def foldl.simps mult_0 add_0)
  next
    case False
    then have d: "decimal n = decimal (n div 10) @ [char_of (48 + n mod 10)]" by (subst decimal.simps) simp
    have m: "of_char (char_of (48 + n mod 10) :: char) - 48 = n mod 10" by (rule digit) simp
    have "undecimal (decimal n) = undecimal (decimal (n div 10)) * 10 + n mod 10"
      by (simp only: undecimal_def d foldl_append foldl.simps m)
    also have "\<dots> = n" using 1[OF False] by simp
    finally show ?thesis .
  qed
qed

definition wit_args :: arg_lib where
  "wit_args = \<lparr>toml_config = (\<lambda>_. None),
     argv_value = (\<lambda>args flag. if args = [''lcp'', ''--port'', ''80''] \<and> flag = ''port'' then Some ''80'' else None),
     argv_flag = (\<lambda>_ _. False), parse_u16 = (\<lambda>s. Some (of_nat (undecimal s))),
     parse_u64 = (\<lambda>s. Some (of_nat (undecimal s))), parse_addr = Inr\<rparr>"

definition wit_file :: file_config where
  "wit_file = \<lparr>fc_port = Some 7000, fc_host = Some ''0.0.0.0'', fc_db = None, fc_ttl = Some 60, fc_timeout = None,
     fc_body_limit = None, fc_anthropic_upstream = None, fc_openai_upstream = None, fc_openrouter_upstream = None,
     fc_gemini_upstream = None, fc_extensions = Some \<lparr>doppel_cfg = Some \<lparr>secrets_file = Some ''~/s''\<rparr>\<rparr>\<rparr>"

definition wit_env :: env where
  "wit_env = (\<lambda>_. None)(''LCP_HOST'' \<mapsto> ''h'')"


subsection \<open>The pipeline that is served\<close>

lemma built_pipeline:
  "build_extension_pipeline H F L W (merged_ext cli file_cfg) =
     (case doppel_secrets cli file_cfg of
        None \<Rightarrow> []
      | Some s \<Rightarrow> (case from_secrets_file F (expand_tilde H s) of
          Inr detector \<Rightarrow> [doppel_extension L W detector] | Inl e \<Rightarrow> []))"
  by (simp add: merged_ext_def build_extension_pipeline_def pipeline_new_def register_def split: option.split sum.split)

lemma built_pipeline_keeps_failures: "list_all keeps_failures (build_extension_pipeline H F L W ext)"
  by (simp add: build_extension_pipeline_def pipeline_new_def register_def doppel_keeps_failures
      split: option.split sum.split)

lemma run_extensions:
  "run H A F L W fault disk cli file_cfg = Serving cfg c \<Longrightarrow> extensions cfg =
     (case doppel_secrets cli file_cfg of
        None \<Rightarrow> []
      | Some s \<Rightarrow> (case from_secrets_file F (expand_tilde H s) of
          Inr detector \<Rightarrow> [doppel_extension L W detector] | Inl e \<Rightarrow> []))"
  by (auto simp: run_def Let_def built_pipeline split: option.splits sum.splits)

interpretation configured_pipe: response_hooks "run_phase2 (build_extension_pipeline H F L W ext)"
    "run_phase3 debug (build_extension_pipeline H F L W ext)" for H F L W ext debug
  by (rule pipeline_hooks[OF built_pipeline_keeps_failures])


definition wit_host :: host_lib where
  "wit_host = \<lparr>read_to_string = (\<lambda>_. None), config_dir = None, cache_dir = None, home_dir = Some ''/home/u'',
     path_parent = (\<lambda>_. None), create_dir_all = (\<lambda>_. None)\<rparr>"

definition wit_load :: "((bytes \<times> bytes) list, bytes \<times> bytes, (bytes \<times> bytes) list) doppel_load" where
  "wit_load = \<lparr>read_file = (\<lambda>p. if p = ''/home/u/s'' then Inr ''S'' else Inl ''missing''),
     deserialize_secrets = (\<lambda>_. Inr wit_tab), to_patterns = Inr, detector_new = (\<lambda>ps. ps)\<rparr>"

definition wit_cli :: cli where
  "wit_cli = \<lparr>cl_config = None, cl_print_config = False, cl_port = 80, cl_host = ''h'', cl_db = None, cl_ttl = 60,
     cl_timeout = 300, cl_body_limit = 0, cl_anthropic_upstream = None, cl_openai_upstream = None,
     cl_openrouter_upstream = None, cl_gemini_upstream = None, cl_doppel_secrets_file = None\<rparr>"


end
