(* ===== verification/Spec2Isabelle.thy ===== *)
theory Spec2Isabelle
  imports Progress Channel Config
begin

text \<open>
  lcp, a caching proxy for LLM APIs (Rust workspace, \<open>src/crates/\<close>): a client talks to
  \<open>/{provider}/{path}\<close>; the proxy hashes the request to a cache key, answers from a SQLite file or
  forwards to the provider, streams the answer back and records it. An extension can swap the secrets of
  a request body for fakes before it leaves the machine and restores them in the response, also inside
  server-sent events, where a fake is spread over many JSON fragments.

  \<^bold>\<open>Parts, theories and sources.\<close>
  \<^item> \<open>Prelude\<close> (error monad \<open>try_then\<close> / \<open>try_fold\<close> / \<open>try_map\<close> for \<open>Result\<close>, the
    string functions of the standard library), \<open>OrdMap\<close> (\<open>BTreeMap\<close> as a sorted association list;
    locale \<open>tree_map\<close>), \<open>Utf8\<close> (well-formedness, \<open>from_utf8\<close>, \<open>from_utf8_lossy\<close>, character
    boundaries), \<open>Json\<close> (\<open>serde_json::Value\<close>).
  \<^item> \<open>Provider\<close>, \<open>Exchange\<close>, \<open>CacheKey\<close>, \<open>Cache\<close>: \<open>lcp-core/src/provider.rs\<close>, \<open>types.rs\<close>,
    \<open>hash.rs\<close>, \<open>cache.rs\<close>. The cache is the content of its three tables; each SQL statement is a
    function on them, each method runs its statements in order, and any statement may fail
    (\<open>fault n\<close>). Locale \<open>exchange_store\<close> is what the proxy relies on, a map on which lookups
    have no effect, interpreted on \<open>cache_get\<close> and \<open>cache_put\<close>.
  \<^item> \<open>SseFields\<close>, \<open>SseWindow\<close>, \<open>SseFrames\<close>, \<open>SseStream\<close>: \<open>lcp-server/src/ext/sse_restore.rs\<close>,
    from inside out: which JSON places carry text and which events are terminal, the sliding window
    that cuts a buffer so that no fake is cut (locale \<open>restore_window\<close>), one frame and one chunk,
    and the state machine of \<open>poll_next\<close>.
  \<^item> \<open>Extensions\<close>: \<open>extensions.rs\<close>, the hooks as a record of functions, the three phases, and the
    locale \<open>response_hooks\<close> (the third phase does not panic and does not make a failed response look
    complete), of which \<open>identity_hooks\<close> is a case. \<open>Doppel\<close>: \<open>ext/doppel.rs\<close>, interpreted.
  \<^item> \<open>Server\<close>: \<open>server.rs\<close>, \<open>router.rs\<close>, \<open>stats.rs\<close>. \<open>Proxy\<close>: \<open>proxy.rs\<close>; \<open>handle\<close> answers
    with a reply, the new cache, what was sent upstream, and the task it spawned; \<open>run_task\<close> is that
    task. \<open>Serving\<close>: requests, tasks and admin calls interleaved (inductive \<open>server_step\<close>), each
    as one step. \<open>Interleaving\<close>: the same with handlers and tasks cut into phases, one call of the
    cache each (\<open>handler_step\<close>, \<open>task_step\<close>, inductive \<open>world_step\<close>), with dropped handlers and
    tasks; it is refined by the whole steps. \<open>Progress\<close>: its steps without arrivals, and that they
    end. \<open>Channel\<close>: the bounded channel between task and client and \<open>ReceiverStream\<close>, as turns of
    the relay loop and of the client (inductive \<open>pipe_step\<close>); it ends like \<open>relay_loop\<close>.
  \<^item> \<open>Config\<close>: \<open>lcp/src/main.rs\<close>, from arguments, environment and file to the started server.

  \<^bold>\<open>What the theorems show.\<close> Cache keys: equal for bodies that differ in the order of keys and in the
  stripped fields, different otherwise up to a collision of the hash. Cache: a lookup returns the last
  store; every reachable database is consistent; counters, traces and listings agree with what was
  called. Restoring: the window restores exactly what restoring the whole text would, text precedes its
  terminal event, the cut of the chunks does not matter, a failing response ends with an error, the
  stream neither stalls nor goes on after its end, and a poll makes few turns of its loop. Extensions:
  each gets its own state, the first failure decides, secrets come back. Proxy: a hit replays the miss,
  a bypass touches nothing, the wire is clean, every path answers, failures of extensions close. Server:
  under every interleaving of the calls of the cache only complete successes are in it, every hit
  replays one, the statistics are those of the lookups and a trace lists only its own requests;
  waiting for the pending writes loses none; without new requests it comes to rest with every request
  answered and every task ended. The channel changes nothing of what is sent, holds back a task whose
  client is slow, and lets the response through. This theory composes them: the wire carries fakes, the
  cache and the client have the originals, and a server started with a secrets file sends nothing else. Some lemmas show behaviour that is not intended or not documented; they are
  named in the findings of the manifest.

  \<^bold>\<open>Conventions.\<close> Bytes and strings are lists of \<open>char\<close>, one per byte. \<open>Inl\<close> is \<open>Err\<close>; panics are
  values (\<open>Panicked\<close>, \<open>Abort\<close>, \<open>Crashed\<close>, or \<open>None\<close> of a handler). \<open>u16\<close> and \<open>u64\<close> are
  words, SQL integers are \<open>int\<close>. A stream is the list of what its polls answer. There is no fuel: every
  loop is structural or has a termination proof; that of \<open>poll_next\<close> is a lexicographic measure on
  the states of the machine (\<open>machine_less\<close>), whose only unbounded component is the length of the
  inner stream.

  \<^bold>\<open>Parameters and assumptions.\<close> Not in the repository, and hence arguments of the definitions: BLAKE3,
  the parser and printer of JSON, the serialised form of an exchange (assumed: it reads what it wrote),
  the clock and its timestamps, doppel (assumed where used: \<open>restores\<close>, restoring works piecewise
  when no fake is cut, \<open>streams_whole\<close>, its byte stream yields the restored text, and
  \<open>doppel_laws\<close>, its encoders have inverses), reqwest and the upstream,
  axum's header and status types, tokio's channel (assumed: \<open>channel_laws\<close>), clap, TOML and the file system. The fakes are assumed ASCII and free
  of overlaps with each other (\<open>good_fakes\<close>). Each theorem with such a hypothesis has a witness with a
  concrete instance.

  \<^bold>\<open>Not modelled.\<close> Sockets and the tokio runtime; axum's matching of routes, body limits and
  decompression (the table of routes is modelled); log output; the mutex of the cache (calls are
  atomic, as it makes them). An event stream is a finite list, so nothing is said of an upstream that never
  ends its response. Nothing else happens while \<open>wait_for_pending_writes\<close>
  holds the set of tasks: that theorem is about the whole steps of \<open>Serving\<close>. The unit and integration tests are not part of the program.
\<close>

section \<open>Properties of the whole program\<close>

text \<open>The spawned task of a request that went through the swapping extension.\<close>

lemma swapped_request:
  assumes "extensions cfg = [doppel_extension L W d]" and "from_prefix (rq_provider rq) = Some p"
    and "h_task (handle P cfg gf tf c rq) = Some t" and "h_wire (handle P cfg gf tf c rq) = Some wire"
    and "send_upstream P wire = Inr up" and "\<not> is_bypass P rq"
  obtains ctx states where "px_provider ctx = p"
    and "run_phase2 [doppel_extension L W d] ctx (rq_body rq) = Inr (ur_body wire, states)"
    and "run_phase3 (debug_assertions P) [doppel_extension L W d] ctx states (up_stream up) = Some (t_stream t)"
proof -
  let ?ctx = "(first_ctx p rq)\<lparr>px_cache_key := Some (key_of P p rq (rq_body rq))\<rparr>"
  obtain c' where h: "handle P cfg gf tf c rq = forward_request P cfg p False rq ?ctx
        (key_of P p rq (rq_body rq)) (body_model (json P) (rq_body rq)) (rq_body rq) c'"
  proof (rule handle_task_forward[OF assms(3)])
    fix p' body c'
    assume "from_prefix (rq_provider rq) = Some p'" "run_phase1 (extensions cfg) (first_ctx p' rq) (rq_body rq) = Inr body"
      and h: "handle P cfg gf tf c rq = forward_request P cfg p' (is_bypass P rq) rq
           ((first_ctx p' rq)\<lparr>px_cache_key := Some (key_of P p' rq body)\<rparr>) (key_of P p' rq body)
           (body_model (json P) body) body c'"
    then have "p' = p" "body = rq_body rq" using assms(1,2) by auto
    with h assms(6) show thesis by (intro that[of c']) simp
  qed
  from assms(3) have "h_task (forward_request P cfg p False rq ?ctx
        (key_of P p rq (rq_body rq)) (body_model (json P) (rq_body rq)) (rq_body rq) c') = Some t" by (simp add: h)
  then obtain w states up' stream where f: "phase2_of cfg False ?ctx (rq_body rq) = Inr (w, states)"
    "send_upstream P \<lparr>ur_method = rq_method rq, ur_url = upstream_url cfg p rq,
                 ur_headers = forward_headers P (rq_headers rq), ur_body = w\<rparr> = Inr up'"
    "phase3_of P cfg False ?ctx states (up_stream up') = Some stream" "t_stream t = stream"
    by (rule forward_request_task) simp
  then have "wire = \<lparr>ur_method = rq_method rq, ur_url = upstream_url cfg p rq,
                 ur_headers = forward_headers P (rq_headers rq), ur_body = w\<rparr>"
    using assms(4) h by (simp add: forward_request_def relay_response_def Let_def split: if_splits)
  with f assms(5) show thesis
    by (intro that[of ?ctx states]) (simp_all add: phase2_of_def phase3_of_def assms(1) first_ctx_def)
qed


text \<open>The witness: the proxy of the witnesses with the swapping extension, a body that holds the secret
  \<open>REAL\<close>, and an upstream that spreads the fake over two events and cuts the chunks elsewhere.\<close>

definition wit_sw_rq :: http_request where
  "wit_sw_rq = wit_rq\<lparr>rq_body := ''key=REAL;''\<rparr>"

definition wit_sw_cfg :: server_config where
  "wit_sw_cfg = wit_cfg\<lparr>extensions := [doppel_extension wit_swap wit_stream wit_tab]\<rparr>"

definition wit_sw_up :: upstream_response where
  "wit_sw_up = \<lparr>up_status = 200, up_headers = [(''content-type'', ''text/event-stream'')], up_stream = wit_inner\<rparr>"

definition wit_sw_moment :: moment where
  "wit_sw_moment = \<lparr>m_now = 0, m_upstream = (\<lambda>_. Inr wit_sw_up), m_elapsed = int\<rparr>"

definition wit_sw_chunks :: "bytes list" where
  "wit_sw_chunks = [''data: 1'' @ [LF, LF], ''data: 2'' @ [LF, LF], ''data: [DONE]'' @ [LF, LF]]"

definition wit_sw_exchange :: exchange where
  "wit_sw_exchange = \<lparr>request = \<lparr>req_method = ''POST'', req_path = ''/openai/v1/chat'', req_body = ''key=REAL;''\<rparr>,
     status = 200, content_type = ''text/event-stream'',
     chunks = map2 (\<lambda>n b. \<lparr>offset_ms = n, data = b\<rparr>) [0, 1, 2] wit_sw_chunks\<rparr>"

definition wit_sw_proxy :: proxy_lib where
  "wit_sw_proxy = wit_proxy\<lparr>cache_params := wit_store_lib
     \<lparr>print_exchange := (\<lambda>e. if e = wit_sw_exchange then Some ''y'' else None),
      parse_exchange := (\<lambda>s. if s = ''y'' then Some wit_sw_exchange else None)\<rparr>\<rparr>"

definition wit_sw_task :: relay_task where
  "wit_sw_task = \<lparr>t_stream = [Pend, Pend] @ map Chunk wit_sw_chunks, t_do_cache = True,
     t_key = ''000000000000POST|/openai/v1/chat|key=REAL;'', t_trace = Some ''t'', t_provider = ''openai'',
     t_model = None, t_method = ''POST'', t_path = ''/openai/v1/chat'', t_body = ''key=REAL;'', t_status = 200,
     t_content_type = ''text/event-stream''\<rparr>"

definition wit_sw_miss :: handled where
  "wit_sw_miss = wit_miss\<lparr>h_wire := Some (wit_wire\<lparr>ur_body := ''key=FAKE;''\<rparr>), h_task := Some wit_sw_task\<rparr>"

definition wit_sw_relay :: relay where
  "wit_sw_relay = \<lparr>rl_sent = map Inr wit_sw_chunks, rl_raw = zip [0, 1, 2] wit_sw_chunks, rl_end = Completed\<rparr>"

definition wit_sw_after :: cache where
  "wit_sw_after = snd (run_task (at_moment wit_sw_moment wit_sw_proxy) no_fault no_fault no_fault (h_cache wit_sw_miss) wit_sw_task)"

lemma wit_sw_handle:
  "handle (at_moment wit_sw_moment wit_sw_proxy) wit_sw_cfg no_fault no_fault wit_empty wit_sw_rq = wit_sw_miss"
  by code_simp

lemma wit_sw_run: "run_task (at_moment wit_sw_moment wit_sw_proxy) no_fault no_fault no_fault (h_cache wit_sw_miss) wit_sw_task
    = (wit_sw_relay, wit_sw_after)"
proof -
  have "fst (run_task (at_moment wit_sw_moment wit_sw_proxy) no_fault no_fault no_fault (h_cache wit_sw_miss) wit_sw_task)
      = wit_sw_relay" by code_simp
  then show ?thesis by (simp add: wit_sw_after_def prod_eq_iff)
qed

lemma wit_sw_stored: "may_store wit_sw_task wit_sw_relay" "exchange_of wit_sw_task wit_sw_relay = wit_sw_exchange"
  by code_simp+



text \<open>The witness: the same request, answered by a JSON text that cuts the fake.\<close>

definition wit_js_up :: upstream_response where
  "wit_js_up = \<lparr>up_status = 200, up_headers = [(''content-type'', ''application/json'')],
     up_stream = [Chunk ''{FA'', Pend, Chunk ''KE}'']\<rparr>"

definition wit_js_moment :: moment where
  "wit_js_moment = \<lparr>m_now = 0, m_upstream = (\<lambda>_. Inr wit_js_up), m_elapsed = int\<rparr>"

definition wit_js_exchange :: exchange where
  "wit_js_exchange = \<lparr>request = \<lparr>req_method = ''POST'', req_path = ''/openai/v1/chat'', req_body = ''key=REAL;''\<rparr>,
     status = 200, content_type = ''application/json'', chunks = [\<lparr>offset_ms = 0, data = ''{REAL}''\<rparr>]\<rparr>"

definition wit_js_proxy :: proxy_lib where
  "wit_js_proxy = wit_proxy\<lparr>cache_params := wit_store_lib
     \<lparr>print_exchange := (\<lambda>e. if e = wit_js_exchange then Some ''z'' else None),
      parse_exchange := (\<lambda>s. if s = ''z'' then Some wit_js_exchange else None)\<rparr>\<rparr>"

definition wit_js_miss :: handled where
  "wit_js_miss = handle (at_moment wit_js_moment wit_js_proxy) wit_sw_cfg no_fault no_fault wit_empty wit_sw_rq"

definition wit_js_ran :: "relay \<times> cache" where
  "wit_js_ran = run_task (at_moment wit_js_moment wit_js_proxy) no_fault no_fault no_fault (h_cache wit_js_miss) (the (h_task wit_js_miss))"


text \<open>What the second phase of the swapping extension makes of a body.\<close>

lemma doppel_phase2_body:
  assumes "run_phase2 [doppel_extension L W d] ctx body = Inr (w, states)"
  shows "\<exists>sr. swap L d body = Inr sr \<and> w = (if sw_entries sr = [] then body else sw_payload sr)"
proof -
  from assms obtain builder where "doppel_upstream_body L d ctx body = Inr (w, builder)"
    by (cases "doppel_upstream_body L d ctx body") auto
  then show ?thesis by (rule doppel_upstream_cases) auto
qed

text \<open>C5: Once a secrets file is configured and loads, nothing else goes out. From the command line and
  the configuration file to the wire: for a server that \<open>run\<close> started with such a file, in every
  run of it, from whatever database, and however its requests interleave, each request that was sent
  to the upstream and is not a bypass carries the swapped payload of the client's body, or the body
  itself when the detector found no secret in it; a body that could not be swapped was not sent. No
  header of the proxy's own goes with it.\<close>

theorem served_wire_is_swapped:
  assumes "run H A F L W fault disk cli file_cfg = Serving cfg c"
    and "doppel_secrets cli file_cfg = Some s" and "from_secrets_file F (expand_tilde H s) = Inr detector"
    and "world_reach P cfg c w" and "(rq, wire) \<in> set (w_sent w)"
  shows "(if is_bypass P rq then ur_body wire = rq_body rq
       else \<exists>sr. swap L detector (rq_body rq) = Inr sr
          \<and> ur_body wire = (if sw_entries sr = [] then rq_body rq else sw_payload sr))
    \<and> list_all (\<lambda>(n, v). \<not> starts_with n ''x-lcp-'') (ur_headers wire)"
proof -
  have exts: "extensions cfg = [doppel_extension L W detector]"
    using run_extensions[OF assms(1)] assms(2,3) by simp
  from world_reach_wire[OF assms(4)] assms(5) have "sent_ok P cfg rq wire" by (auto simp: wire_inv_def)
  then obtain p body states where ph: "run_phase1 (extensions cfg) (first_ctx p rq) (rq_body rq) = Inr body"
    "phase2_of cfg (is_bypass P rq) ((first_ctx p rq)\<lparr>px_cache_key := Some (key_of P p rq body)\<rparr>) body = Inr (ur_body wire, states)"
    "ur_headers wire = forward_headers P (rq_headers rq)"
    unfolding sent_ok_def by (metis upstream_request.select_convs(3))
  have "body = rq_body rq" using ph(1) by (simp add: exts)
  moreover have "list_all (\<lambda>(n, v). \<not> starts_with n ''x-lcp-'') (forward_headers P hs)" for hs
    by (induction P hs rule: forward_headers.induct) (auto split: option.split)
  ultimately show ?thesis
    using ph(2,3) doppel_phase2_body[of L W detector _ "rq_body rq" "ur_body wire" states]
    by (cases "is_bypass P rq") (simp_all add: phase2_of_def exts del: run_phase2_simps)
qed

text \<open>The witness: the command line of the witnesses, and a request whose body holds the secret.\<close>

definition wit_served :: server_config where
  "wit_served = \<lparr>addr = ''h:'' @ decimal 80, timeout_seconds = 300, body_limit_bytes = 0, anthropic_upstream = None,
     openai_upstream = None, openrouter_upstream = None, gemini_upstream = None, stream_channel_capacity = 32,
     extensions = [doppel_extension wit_swap wit_stream wit_tab]\<rparr>"

definition wit_opened :: cache where
  "wit_opened = \<lparr>inner = init_schema new_file, ttl_seconds = 60\<rparr>"

lemma wit_started:
  "run wit_host wit_args wit_load wit_swap wit_stream no_fault (\<lambda>_. new_file) wit_cli (Some wit_file) = Serving wit_served wit_opened"
proof -
  have ext: "build_extension_pipeline wit_host wit_load wit_swap wit_stream (merged_ext wit_cli (Some wit_file))
      = [doppel_extension wit_swap wit_stream wit_tab]"
  proof -
    have "doppel_secrets wit_cli (Some wit_file) = Some ''~/s''" by code_simp
    moreover have "from_secrets_file wit_load (expand_tilde wit_host ''~/s'') = Inr wit_tab" by code_simp
    ultimately show ?thesis by (simp add: built_pipeline)
  qed
  show ?thesis
    unfolding run_def Let_def ext
    by (simp add: wit_host_def wit_args_def wit_cli_def cache_open_def wit_served_def wit_opened_def)
qed

theorem served_wire_is_swapped_witness:
  "\<exists>w wire. world_reach wit_sw_proxy wit_served wit_opened w \<and> (wit_sw_rq, wire) \<in> set (w_sent w) \<and> ur_body wire = ''key=FAKE;''"
proof -
  define h where "h = handle (at_moment wit_sw_moment wit_sw_proxy) wit_served no_fault no_fault wit_opened wit_sw_rq"
  define wire where "wire = the (h_wire h)"
  have h: "h_wire h = Some wire" unfolding wire_def h_def by code_simp
  obtain w where w: "world_reach wit_sw_proxy wit_served wit_opened w" "w_sent w = [(wit_sw_rq, wire)]"
    using reach_request[OF world_reach.start, of wit_opened wit_sw_proxy wit_served wit_sw_moment no_fault no_fault wit_sw_rq]
    by (auto simp: world_start_def h_def[symmetric] h)
  then have sent: "(wit_sw_rq, wire) \<in> set (w_sent w)" by simp
  have d: "doppel_secrets wit_cli (Some wit_file) = Some ''~/s''" "from_secrets_file wit_load (expand_tilde wit_host ''~/s'') = Inr wit_tab"
    by code_simp+
  have "\<not> is_bypass wit_sw_proxy wit_sw_rq" by code_simp
  with served_wire_is_swapped[OF wit_started d w(1) sent] wit_swap_body have "ur_body wire = ''key=FAKE;''"
    by (auto simp: wit_sw_rq_def wit_tab_def)
  with w(1) sent show ?thesis by blast
qed

end
